(* ===== verification/Prelude.thy ===== *)
theory Prelude
  imports Main "HOL-Library.Word" "HOL-Library.Monad_Syntax"
begin

text \<open>
  Shared vocabulary of the development: the machine integers of the engine, the
  operations of the Rust standard library its code calls (checked and saturating
  arithmetic on \<open>u32\<close>, \<open>Vec\<close> indexing, \<open>pop\<close>, \<open>count_ones\<close>, \<open>leading_zeros\<close>,
  \<open>binary_search_by\<close>), and the generic lemmas on words and lists that the component
  theories share.

  Conventions. A call that can panic returns an \<open>option\<close>, with \<open>None\<close> for the panic; a
  Rust \<open>Result\<close> is a sum with \<open>Inl\<close> for the error. An \<open>i32\<close> is an \<open>int\<close> in the range
  \<open>-(2^31) \<le> x < 2^31\<close> and arithmetic that could leave it wraps through \<open>i32\<close> (the release
  profile of the workspace does not enable overflow checks). A \<open>u32\<close> that counts something
  is a \<open>nat\<close> below \<open>2^32\<close> with the check, the saturation or the wrap written out; a \<open>u32\<close>,
  \<open>u16\<close> or \<open>u64\<close> that is a bit pattern is a word of that width. A counter that would go below
  zero is a panic, as in a build with overflow checks. \<open>usize\<close> is \<open>nat\<close>.
\<close>

unbundle bit_operations_syntax

named_theorems coord_defs \<open>definitions of the coordinate conversions\<close>
named_theorems pack_simps \<open>bit-level facts on packed words\<close>
named_theorems vec_simps \<open>facts on guarded vector access\<close>

type_synonym u8 = "8 word"
type_synonym u16 = "16 word"
type_synonym u32 = "32 word"
type_synonym u64 = "64 word"

section \<open>Machine integers\<close>

definition i32 :: "int \<Rightarrow> int" where
  "i32 x = (x + 2 ^ 31) mod 2 ^ 32 - 2 ^ 31"

lemma i32_id [simp]: "- (2 ^ 31) \<le> x \<Longrightarrow> x < 2 ^ 31 \<Longrightarrow> i32 x = x"
  by (simp add: i32_def)

lemma i32_lit: "- 2147483648 \<le> x \<Longrightarrow> x < 2147483648 \<Longrightarrow> i32 x = x"
  by simp

lemma i32_range: "- (2 ^ 31) \<le> i32 x \<and> i32 x < 2 ^ 31"
proof -
  have "0 \<le> (x + 2147483648) mod 4294967296" and "(x + 2147483648) mod 4294967296 < 4294967296"
    by simp_all
  then show ?thesis by (simp add: i32_def)
qed

abbreviation u32_limit :: nat where
  "u32_limit \<equiv> 4294967296"

definition checked_add_u32 :: "nat \<Rightarrow> nat \<Rightarrow> nat option" where
  "checked_add_u32 a b = (if a + b < u32_limit then Some (a + b) else None)"

definition checked_mul_u32 :: "nat \<Rightarrow> nat \<Rightarrow> nat option" where
  "checked_mul_u32 a b = (if a * b < u32_limit then Some (a * b) else None)"

definition checked_div_u32 :: "nat \<Rightarrow> nat \<Rightarrow> nat option" where
  "checked_div_u32 a b = (if b = 0 then None else Some (a div b))"

definition saturating_add_u32 :: "nat \<Rightarrow> nat \<Rightarrow> nat" where
  "saturating_add_u32 a b = min (a + b) (u32_limit - 1)"

lemma checked_add_u32_Some [simp]:
  "checked_add_u32 a b = Some c \<longleftrightarrow> c = a + b \<and> a + b < u32_limit"
  by (auto simp: checked_add_u32_def)

lemma checked_add_u32_None [simp]: "checked_add_u32 a b = None \<longleftrightarrow> u32_limit \<le> a + b"
  by (auto simp: checked_add_u32_def)

lemma checked_mul_u32_Some [simp]:
  "checked_mul_u32 a b = Some c \<longleftrightarrow> c = a * b \<and> a * b < u32_limit"
  by (auto simp: checked_mul_u32_def)

lemma checked_mul_u32_None [simp]: "checked_mul_u32 a b = None \<longleftrightarrow> u32_limit \<le> a * b"
  by (auto simp: checked_mul_u32_def)

section \<open>Mixed-radix indices\<close>

text \<open>The engine flattens \<open>(x, y, z)\<close> to \<open>x + b * y + b * b * z\<close>, with \<open>b = 3\<close> for the cells of
  a block and \<open>b = 16\<close> for the blocks of a chunk.\<close>

lemma radix_mod: "x < b \<Longrightarrow> (x + b * y + b * b * z) mod b = (x :: nat)"
  by (simp add: mult.assoc flip: distrib_left add.assoc)

lemma radix_div: "x < b \<Longrightarrow> (x + b * y + b * b * z) div b = y + b * (z :: nat)"
proof -
  assume "x < b"
  moreover have "x + b * y + b * b * z = x + b * (y + b * z)" by (simp add: algebra_simps)
  ultimately show ?thesis by (simp only: div_mult_self2 div_less add_0)
qed

lemma radix_bound: "x < b \<Longrightarrow> y < b \<Longrightarrow> z < b \<Longrightarrow> x + b * y + b * b * z < b * b * (b :: nat)"
proof -
  assume "x < b" "y < b" "z < b"
  then have "x + b * y < b * b"
    by (metis add_less_mono1 less_le_trans mult_Suc_right mult_le_mono2 Suc_leI)
  moreover have "b * b * Suc z \<le> b * b * b" using \<open>z < b\<close> by (intro mult_le_mono2) simp
  ultimately show ?thesis by (simp only: mult_Suc_right)
qed

lemma radix_recompose: "i mod b + b * ((i div b) mod b) + b * b * (i div (b * b)) = (i :: nat)"
proof -
  have "i div b = (i div b) mod b + b * (i div (b * b))"
    by (simp add: div_mult2_eq)
  then have "b * (i div b) = b * ((i div b) mod b) + b * b * (i div (b * b))"
    by (metis distrib_left mult.assoc)
  then show ?thesis by (metis add.assoc mod_mult_div_eq)
qed

section \<open>Bits of a word\<close>

definition count_ones :: "'a::len word \<Rightarrow> nat" where
  "count_ones w = length (filter (bit w) [0..<LENGTH('a)])"

lemma count_ones_card: "count_ones w = card {i. bit w i}"
proof -
  have "{i. bit w i} = set (filter (bit w) [0..<LENGTH('a)])"
    by (auto dest: bit_imp_le_length)
  then show ?thesis
    by (simp only: count_ones_def distinct_card distinct_filter distinct_upt)
qed

lemma count_ones_0 [simp]: "count_ones 0 = 0"
  by (simp add: count_ones_def)

lemma count_ones_eq_0 [simp]: "count_ones w = 0 \<longleftrightarrow> w = 0"
proof
  assume "count_ones w = 0"
  then have "\<not> bit w i" if "i < LENGTH('a)" for i
    using that by (auto simp: count_ones_def filter_empty_conv)
  then show "w = 0" by (auto intro!: bit_word_eqI)
qed simp

lemma count_ones_le: "count_ones (w :: 'a::len word) \<le> LENGTH('a)"
  unfolding count_ones_def by (rule order_trans [OF length_filter_le]) simp

section \<open>Vectors\<close>

definition vec_get :: "'a list \<Rightarrow> nat \<Rightarrow> 'a option" where
  "vec_get xs i = (if i < length xs then Some (xs ! i) else None)"

definition vec_set :: "'a list \<Rightarrow> nat \<Rightarrow> 'a \<Rightarrow> 'a list option" where
  "vec_set xs i v = (if i < length xs then Some (xs[i := v]) else None)"

definition vec_pop :: "'a list \<Rightarrow> ('a \<times> 'a list) option" where
  "vec_pop xs = (if xs = [] then None else Some (last xs, butlast xs))"

definition vec_insert :: "'a list \<Rightarrow> nat \<Rightarrow> 'a \<Rightarrow> 'a list option" where
  "vec_insert xs i v = (if i \<le> length xs then Some (take i xs @ v # drop i xs) else None)"

lemma vec_get_Some [simp, vec_simps]: "vec_get xs i = Some v \<longleftrightarrow> i < length xs \<and> v = xs ! i"
  by (auto simp: vec_get_def)

lemma vec_get_lt [vec_simps]: "i < length xs \<Longrightarrow> vec_get xs i = Some (xs ! i)"
  by (simp add: vec_get_def)

lemma vec_set_Some [simp, vec_simps]:
  "vec_set xs i v = Some ys \<longleftrightarrow> i < length xs \<and> ys = xs[i := v]"
  by (auto simp: vec_set_def)

lemma vec_set_lt [vec_simps]: "i < length xs \<Longrightarrow> vec_set xs i v = Some (xs[i := v])"
  by (simp add: vec_set_def)

lemma vec_pop_Some: "vec_pop xs = Some (x, ys) \<longleftrightarrow> xs = ys @ [x]"
  by (auto simp: vec_pop_def split: if_splits)

lemma vec_pop_Nil [simp]: "vec_pop [] = None"
  by (simp add: vec_pop_def)

lemma vec_pop_snoc [simp]: "vec_pop (xs @ [x]) = Some (x, xs)"
  by (simp add: vec_pop_def)

lemma vec_pop_None [simp]: "vec_pop xs = None \<longleftrightarrow> xs = []"
  by (simp add: vec_pop_def)

text \<open>\<open>as u16\<close>, and \<open>Iterator::position\<close>.\<close>

definition as_u16 :: "nat \<Rightarrow> nat" where
  "as_u16 n = n mod 65536"

lemma as_u16_id [simp]: "n < 65536 \<Longrightarrow> as_u16 n = n"
  by (simp add: as_u16_def)

fun position :: "('a \<Rightarrow> bool) \<Rightarrow> 'a list \<Rightarrow> nat option" where
  "position P [] = None"
| "position P (x # xs) = (if P x then Some 0 else map_option Suc (position P xs))"

lemma position_Some: "position P xs = Some i \<Longrightarrow> i < length xs \<and> P (xs ! i)"
  by (induction xs arbitrary: i) (auto split: if_splits)

lemma position_None: "position P xs = None \<longleftrightarrow> (\<forall>x \<in> set xs. \<not> P x)"
  by (induction xs) auto

text \<open>A subtraction on an unsigned counter, where going below zero is a panic.\<close>

definition dec :: "nat \<Rightarrow> nat option" where
  "dec n = (if n = 0 then None else Some (n - 1))"

lemma dec_pos [simp]: "0 < n \<Longrightarrow> dec n = Some (n - 1)"
  by (simp add: dec_def)

text \<open>Occurrence counts.\<close>

lemma count_list_pos [simp]: "0 < count_list xs x \<longleftrightarrow> x \<in> set xs"
  by (metis count_list_0_iff neq0_conv)

lemma count_list_replicate: "count_list (replicate n x) y = (if x = y then n else 0)"
  by (induction n) auto

lemma count_list_update:
  "i < length xs \<Longrightarrow> count_list (xs[i := y]) z + (if z = xs ! i then 1 else 0) =
     count_list xs z + (if z = y then 1 else 0)"
proof (induction xs arbitrary: i)
  case (Cons x xs)
  show ?case
  proof (cases i)
    case (Suc j)
    then have "count_list (xs[j := y]) z + (if z = xs ! j then 1 else 0) =
      count_list xs z + (if z = y then 1 else 0)" using Cons.prems by (intro Cons.IH) simp
    then show ?thesis using Suc by (cases "z = x") (simp_all split: if_splits)
  qed simp
qed simp

section \<open>Loops\<close>

text \<open>A \<open>for\<close> loop over a list, whose body may panic. \<open>as u32\<close> of a signed value.\<close>

fun for_each :: "('a \<Rightarrow> 's \<Rightarrow> 's option) \<Rightarrow> 'a list \<Rightarrow> 's \<Rightarrow> 's option" where
  "for_each body [] s = Some s"
| "for_each body (x # xs) s = do { s' \<leftarrow> body x s; for_each body xs s' }"

definition as_u32 :: "int \<Rightarrow> nat" where
  "as_u32 x = nat (x mod 2 ^ 32)"

lemma as_u32_id [simp]: "0 \<le> x \<Longrightarrow> x < 2 ^ 31 \<Longrightarrow> as_u32 x = nat x"
  by (simp add: as_u32_def)

text \<open>An inclusive range \<open>a..=b\<close>.\<close>

abbreviation incl :: "nat \<Rightarrow> nat \<Rightarrow> nat list" where
  "incl a b \<equiv> [a..<Suc b]"

text \<open>Three nested ranges, the outermost first.\<close>

definition nested :: "'a list \<Rightarrow> 'b list \<Rightarrow> 'c list \<Rightarrow> ('a \<times> 'b \<times> 'c) list" where
  "nested zs ys xs = List.product zs (List.product ys xs)"

lemma set_nested [simp]: "set (nested zs ys xs) = set zs \<times> set ys \<times> set xs"
  by (simp add: nested_def)

lemma distinct_nested [simp]: "distinct zs \<Longrightarrow> distinct ys \<Longrightarrow> distinct xs \<Longrightarrow> distinct (nested zs ys xs)"
  by (simp add: nested_def distinct_product)

lemma for_each_set:
  assumes "\<forall>i \<in> set (map f is). i < length xs"
  shows "for_each (\<lambda>i xs. vec_set xs (f i) v) is xs =
    Some (map (\<lambda>j. if j \<in> f ` set is then v else xs ! j) [0..<length xs])"
  using assms
proof (induction "is" arbitrary: xs)
  case Nil
  then show ?case by (simp add: map_nth)
next
  case (Cons i "is")
  then have "for_each (\<lambda>i xs. vec_set xs (f i) v) is (xs[f i := v]) =
    Some (map (\<lambda>j. if j \<in> f ` set is then v else xs[f i := v] ! j) [0..<length xs])" by simp
  then show ?case using Cons.prems by (auto simp: vec_simps nth_list_update)
qed

end
