(* ===== verification/Coords.thy ===== *)
theory Coords
  imports Prelude
begin

text \<open>
  World coordinates at the three resolutions the engine works in, from
  \<^verbatim>\<open>crates/core/src/coords.rs\<close>: chunk, block and sub-node positions, their world bounds,
  and every conversion between them. Rust's \<^verbatim>\<open>div_euclid\<close> and \<^verbatim>\<open>rem_euclid\<close> by a positive
  constant are \<open>div\<close> and \<open>mod\<close> on \<open>int\<close>.
\<close>

section \<open>Constants\<close>

definition SUBNODES_PER_AXIS :: nat where
  [simp, coord_defs]: "SUBNODES_PER_AXIS = 3"

definition UNITS_PER_BLOCK :: nat where
  [simp, coord_defs]: "UNITS_PER_BLOCK = SUBNODES_PER_AXIS * SUBNODES_PER_AXIS * SUBNODES_PER_AXIS"

definition CHUNK_BLOCKS :: nat where
  [simp, coord_defs]: "CHUNK_BLOCKS = 16"

definition CHUNK_SUBNODES :: nat where
  [simp, coord_defs]: "CHUNK_SUBNODES = CHUNK_BLOCKS * SUBNODES_PER_AXIS"

definition BLOCKS_PER_CHUNK :: nat where
  [simp, coord_defs]: "BLOCKS_PER_CHUNK = CHUNK_BLOCKS * CHUNK_BLOCKS * CHUNK_BLOCKS"

definition WORLD_HALF_EXTENT_BLOCKS :: int where
  [simp, coord_defs]: "WORLD_HALF_EXTENT_BLOCKS = 60000"

definition WORLD_HALF_EXTENT_SUBNODES :: int where
  [simp, coord_defs]: "WORLD_HALF_EXTENT_SUBNODES = WORLD_HALF_EXTENT_BLOCKS * int SUBNODES_PER_AXIS"

definition WORLD_HALF_EXTENT_CHUNKS :: int where
  [simp, coord_defs]: "WORLD_HALF_EXTENT_CHUNKS = WORLD_HALF_EXTENT_BLOCKS div int CHUNK_BLOCKS"

section \<open>Positions\<close>

datatype coord_kind = Chunk_kind | Block_kind | SubNode_kind

record coord_error =
  ce_kind :: coord_kind
  ce_x :: int
  ce_y :: int
  ce_z :: int
  ce_bound :: int

datatype chunk_pos = ChunkPos (cp_x: int) (cp_y: int) (cp_z: int)
datatype block_pos = BlockPos (bp_x: int) (bp_y: int) (bp_z: int)
datatype subnode_pos = SubNodePos (sp_x: int) (sp_y: int) (sp_z: int)

text \<open>A block's offset within its chunk, each axis in \<open>0..16\<close>.\<close>

datatype local_block = LocalBlock (lb_x: nat) (lb_y: nat) (lb_z: nat)

definition in_extent :: "int \<Rightarrow> int \<Rightarrow> int \<Rightarrow> int \<Rightarrow> bool" where
  [coord_defs]: "in_extent bound x y z \<longleftrightarrow>
     x \<ge> - bound \<and> x < bound \<and> y \<ge> - bound \<and> y < bound \<and> z \<ge> - bound \<and> z < bound"

fun chunk_in_world :: "chunk_pos \<Rightarrow> bool" where
  "chunk_in_world (ChunkPos x y z) = in_extent WORLD_HALF_EXTENT_CHUNKS x y z"

fun block_in_world :: "block_pos \<Rightarrow> bool" where
  "block_in_world (BlockPos x y z) = in_extent WORLD_HALF_EXTENT_BLOCKS x y z"

fun subnode_in_world :: "subnode_pos \<Rightarrow> bool" where
  "subnode_in_world (SubNodePos x y z) = in_extent WORLD_HALF_EXTENT_SUBNODES x y z"

definition coord_checked ::
  "coord_kind \<Rightarrow> int \<Rightarrow> (int \<Rightarrow> int \<Rightarrow> int \<Rightarrow> 'p) \<Rightarrow> int \<Rightarrow> int \<Rightarrow> int \<Rightarrow> coord_error + 'p" where
  "coord_checked kind bound mk x y z =
     (if in_extent bound x y z then Inr (mk x y z)
      else Inl \<lparr>ce_kind = kind, ce_x = x, ce_y = y, ce_z = z, ce_bound = bound\<rparr>)"

definition chunk_checked :: "int \<Rightarrow> int \<Rightarrow> int \<Rightarrow> coord_error + chunk_pos" where
  "chunk_checked = coord_checked Chunk_kind WORLD_HALF_EXTENT_CHUNKS ChunkPos"

definition block_checked :: "int \<Rightarrow> int \<Rightarrow> int \<Rightarrow> coord_error + block_pos" where
  "block_checked = coord_checked Block_kind WORLD_HALF_EXTENT_BLOCKS BlockPos"

definition subnode_checked :: "int \<Rightarrow> int \<Rightarrow> int \<Rightarrow> coord_error + subnode_pos" where
  "subnode_checked = coord_checked SubNode_kind WORLD_HALF_EXTENT_SUBNODES SubNodePos"

section \<open>Conversions\<close>

fun block_chunk :: "block_pos \<Rightarrow> chunk_pos" where
  "block_chunk (BlockPos x y z) =
     ChunkPos (x div int CHUNK_BLOCKS) (y div int CHUNK_BLOCKS) (z div int CHUNK_BLOCKS)"

fun block_local :: "block_pos \<Rightarrow> local_block" where
  "block_local (BlockPos x y z) =
     LocalBlock (nat (x mod int CHUNK_BLOCKS)) (nat (y mod int CHUNK_BLOCKS))
       (nat (z mod int CHUNK_BLOCKS))"

fun block_subnode :: "block_pos \<Rightarrow> int \<Rightarrow> int \<Rightarrow> int \<Rightarrow> subnode_pos" where
  "block_subnode (BlockPos x y z) dx dy dz =
     SubNodePos (i32 (i32 (x * int SUBNODES_PER_AXIS) + dx))
       (i32 (i32 (y * int SUBNODES_PER_AXIS) + dy))
       (i32 (i32 (z * int SUBNODES_PER_AXIS) + dz))"

fun from_chunk_corner :: "chunk_pos \<Rightarrow> block_pos" where
  "from_chunk_corner (ChunkPos x y z) =
     BlockPos (i32 (x * int CHUNK_BLOCKS)) (i32 (y * int CHUNK_BLOCKS)) (i32 (z * int CHUNK_BLOCKS))"

fun subnode_block :: "subnode_pos \<Rightarrow> block_pos" where
  "subnode_block (SubNodePos x y z) =
     BlockPos (x div int SUBNODES_PER_AXIS) (y div int SUBNODES_PER_AXIS)
       (z div int SUBNODES_PER_AXIS)"

fun subnode_chunk :: "subnode_pos \<Rightarrow> chunk_pos" where
  "subnode_chunk (SubNodePos x y z) =
     ChunkPos (x div int CHUNK_SUBNODES) (y div int CHUNK_SUBNODES) (z div int CHUNK_SUBNODES)"

fun subnode_local :: "subnode_pos \<Rightarrow> nat \<times> nat \<times> nat" where
  "subnode_local (SubNodePos x y z) =
     (nat (x mod int SUBNODES_PER_AXIS), nat (y mod int SUBNODES_PER_AXIS),
      nat (z mod int SUBNODES_PER_AXIS))"

fun local_index :: "local_block \<Rightarrow> nat" where
  "local_index (LocalBlock x y z) = x + CHUNK_BLOCKS * y + CHUNK_BLOCKS * CHUNK_BLOCKS * z"

definition local_from_index :: "nat \<Rightarrow> local_block" where
  "local_from_index i =
     LocalBlock (i mod CHUNK_BLOCKS) ((i div CHUNK_BLOCKS) mod CHUNK_BLOCKS)
       (i div (CHUNK_BLOCKS * CHUNK_BLOCKS))"

text \<open>The range every \<open>LocalBlock\<close> built by the engine lies in (\<open>LocalBlock::new\<close>'s debug
  assertion).\<close>

fun local_valid :: "local_block \<Rightarrow> bool" where
  "local_valid (LocalBlock x y z) \<longleftrightarrow> x < CHUNK_BLOCKS \<and> y < CHUNK_BLOCKS \<and> z < CHUNK_BLOCKS"

section \<open>Ordering\<close>

text \<open>The derived \<open>Ord\<close> of a position compares the axes in declaration order.\<close>

instantiation block_pos :: linorder
begin

definition less_eq_block_pos :: "block_pos \<Rightarrow> block_pos \<Rightarrow> bool" where
  "less_eq_block_pos a b \<longleftrightarrow>
     bp_x a < bp_x b \<or> bp_x a = bp_x b \<and>
       (bp_y a < bp_y b \<or> bp_y a = bp_y b \<and> bp_z a \<le> bp_z b)"

definition less_block_pos :: "block_pos \<Rightarrow> block_pos \<Rightarrow> bool" where
  "less_block_pos a b \<longleftrightarrow>
     bp_x a < bp_x b \<or> bp_x a = bp_x b \<and>
       (bp_y a < bp_y b \<or> bp_y a = bp_y b \<and> bp_z a < bp_z b)"

instance
  by standard (auto simp: less_eq_block_pos_def less_block_pos_def block_pos.expand)

end

section \<open>Lemmas\<close>

lemma local_valid_block_local [simp]: "local_valid (block_local b)"
  by (cases b) (simp add: nat_less_iff)

lemma local_index_less: "local_valid l \<Longrightarrow> local_index l < BLOCKS_PER_CHUNK"
  by (cases l) (auto simp del: CHUNK_BLOCKS_def intro: radix_bound)

lemma local_from_index_local_index: "local_valid l \<Longrightarrow> local_from_index (local_index l) = l"
  by (cases l)
    (simp add: local_from_index_def radix_mod radix_div div_mult2_eq del: CHUNK_BLOCKS_def)

lemma local_index_local_from_index: "local_index (local_from_index i) = i"
  by (simp only: local_from_index_def local_index.simps radix_recompose)

lemma local_valid_from_index:
  assumes "i < BLOCKS_PER_CHUNK"
  shows "local_valid (local_from_index i)"
proof -
  have "i div 256 < 16" using assms by (intro less_mult_imp_div_less) simp
  then show ?thesis by (simp add: local_from_index_def)
qed

lemma all_locals: "(\<forall>i < 4096. P i) \<longleftrightarrow> (\<forall>l. local_valid l \<longrightarrow> P (local_index l))"
proof
  show "\<forall>l. local_valid l \<longrightarrow> P (local_index l)" if "\<forall>i < 4096. P i"
    using that local_index_less by simp
next
  assume *: "\<forall>l. local_valid l \<longrightarrow> P (local_index l)"
  show "\<forall>i < 4096. P i"
  proof (intro allI impI)
    fix i :: nat assume "i < 4096"
    then have "local_valid (local_from_index i)" using local_valid_from_index [of i] by simp
    then show "P i" using * local_index_local_from_index [of i] by metis
  qed
qed

lemma local_index_inj:
  "local_valid l \<Longrightarrow> local_valid l' \<Longrightarrow> local_index l = local_index l' \<Longrightarrow> l = l'"
  by (metis local_from_index_local_index)

lemma subnode_chunk_block: "block_chunk (subnode_block p) = subnode_chunk p"
  by (cases p) (simp add: zdiv_zmult2_eq [of 16 _ 3, simplified])

lemma subnode_local_less:
  "subnode_local p = (x, y, z) \<Longrightarrow> x < 3 \<and> y < 3 \<and> z < 3"
  by (cases p) (auto simp: nat_less_iff)

end
