(* ===== verification/Bitpack.thy ===== *)
theory Bitpack
  imports Prelude
begin

text \<open>
  The densely packed array of small integers of \<^verbatim>\<open>crates/core/src/bitpack.rs\<close>. The model
  keeps the \<open>u64\<close> words and the shifts, masks and straddling reads and writes of the code.
  The contract a client relies on is the locale \<open>packed_store\<close>: reads never fail in range, and
  a write changes the written entry alone. \<open>BitArray\<close> is its interpretation, and the loops of
  the chunk that rewrite every index are proved once, inside the locale.
\<close>

section \<open>The data structure\<close>

record bit_array =
  ba_words :: "u64 list"
  bits_per_entry :: nat
  ba_len :: nat

datatype bit_array_error = TooWide nat | WrongWordCount nat nat

definition MAX_BITS :: nat where
  [simp]: "MAX_BITS = 16"

definition words_needed :: "nat \<Rightarrow> nat \<Rightarrow> nat" where
  "words_needed len bits = (if bits = 0 then 0 else (len * bits + 63) div 64)"

text \<open>The number of significant bits, and \<open>usize::leading_zeros\<close> from it.\<close>

fun bit_length :: "nat \<Rightarrow> nat" where
  "bit_length n = (if n = 0 then 0 else Suc (bit_length (n div 2)))"

declare bit_length.simps [simp del]

definition leading_zeros :: "nat \<Rightarrow> nat" where
  "leading_zeros n = 64 - bit_length n"

definition bits_for :: "nat \<Rightarrow> nat" where
  "bits_for values = (if values \<le> 1 then 0 else 64 - leading_zeros (values - 1))"

definition entry_mask :: "nat \<Rightarrow> u64" where
  "entry_mask bits = (if bits = 0 then 0 else drop_bit (64 - bits) (- 1))"

definition ba_new :: "nat \<Rightarrow> nat \<Rightarrow> bit_array option" where
  "ba_new len bits =
     (if bits \<le> MAX_BITS
      then Some \<lparr>ba_words = replicate (words_needed len bits) 0, bits_per_entry = bits, ba_len = len\<rparr>
      else None)"

definition ba_get :: "bit_array \<Rightarrow> nat \<Rightarrow> nat option" where
  "ba_get a index =
     (if index < ba_len a then
        if bits_per_entry a = 0 then Some 0
        else
          (let bits = bits_per_entry a;
               bit_offset = index * bits;
               word = bit_offset div 64;
               shift = bit_offset mod 64;
               mask = entry_mask (bits_per_entry a)
           in do {
             w \<leftarrow> vec_get (ba_words a) word;
             let value = drop_bit shift w AND mask;
             if shift + bits > 64 then do {
               w' \<leftarrow> vec_get (ba_words a) (word + 1);
               Some (unat (ucast (value OR (push_bit (64 - shift) w' AND mask)) :: u32))
             } else Some (unat (ucast value :: u32))
           })
      else None)"

definition ba_set :: "bit_array \<Rightarrow> nat \<Rightarrow> nat \<Rightarrow> bit_array option" where
  "ba_set a index v =
     (let mask = entry_mask (bits_per_entry a)
      in if index < ba_len a \<and> v \<le> unat mask then
        if bits_per_entry a = 0 then Some a
        else
          (let bits = bits_per_entry a;
               bit_offset = index * bits;
               word = bit_offset div 64;
               shift = bit_offset mod 64;
               value = (of_nat v :: u64)
           in do {
             w \<leftarrow> vec_get (ba_words a) word;
             ws \<leftarrow> vec_set (ba_words a) word
                     ((w AND NOT (push_bit shift mask)) OR push_bit shift value);
             if shift + bits > 64 then
               (let carried = 64 - shift in do {
                 w' \<leftarrow> vec_get ws (word + 1);
                 ws' \<leftarrow> vec_set ws (word + 1)
                          ((w' AND NOT (drop_bit carried mask)) OR drop_bit carried value);
                 Some (a\<lparr>ba_words := ws'\<rparr>)
               })
             else Some (a\<lparr>ba_words := ws\<rparr>)
           })
      else None)"

text \<open>The shape of the loops that rewrite entries in order: compute the new value of each
  index from the current state, then store it.\<close>

fun write_all ::
  "('s \<Rightarrow> nat \<Rightarrow> nat \<Rightarrow> 's option) \<Rightarrow> ('s \<Rightarrow> nat \<Rightarrow> nat option) \<Rightarrow> nat list \<Rightarrow> 's \<Rightarrow> 's option" where
  "write_all put f [] s = Some s"
| "write_all put f (i # is) s = do { v \<leftarrow> f s i; s' \<leftarrow> put s i v; write_all put f is s' }"

definition ba_resized :: "bit_array \<Rightarrow> nat \<Rightarrow> bit_array option" where
  "ba_resized a bits = do {
     resized \<leftarrow> ba_new (ba_len a) bits;
     if bits > 0 then write_all ba_set (\<lambda>_ i. ba_get a i) [0..<ba_len a] resized
     else Some resized
   }"

text \<open>The remapping function may itself panic (the chunk's indexes a table).\<close>

definition ba_remap :: "bit_array \<Rightarrow> (nat \<Rightarrow> nat option) \<Rightarrow> bit_array option" where
  "ba_remap a remap =
     (if bits_per_entry a = 0 then Some a
      else write_all ba_set (\<lambda>s i. do { v \<leftarrow> ba_get s i; remap v }) [0..<ba_len a] a)"

definition from_words :: "nat \<Rightarrow> nat \<Rightarrow> u64 list \<Rightarrow> bit_array_error + bit_array" where
  "from_words len bits ws =
     (if bits > MAX_BITS then Inl (TooWide bits)
      else if length ws \<noteq> words_needed len bits
        then Inl (WrongWordCount (words_needed len bits) (length ws))
      else Inr \<lparr>ba_words = ws, bits_per_entry = bits, ba_len = len\<rparr>)"

section \<open>The invariant and the flat bit string\<close>

definition ba_inv :: "bit_array \<Rightarrow> bool" where
  "ba_inv a \<longleftrightarrow> bits_per_entry a \<le> MAX_BITS \<and>
     length (ba_words a) = words_needed (ba_len a) (bits_per_entry a)"

definition flat :: "u64 list \<Rightarrow> nat \<Rightarrow> bool" where
  "flat ws k = bit (ws ! (k div 64)) (k mod 64)"

section \<open>Widths\<close>

lemma bit_length_0 [simp]: "bit_length 0 = 0"
  by (simp add: bit_length.simps)

lemma bit_length_less: "n < 2 ^ bit_length n"
proof (induction n rule: bit_length.induct)
  case (1 n)
  show ?case
  proof (cases "n = 0")
    case False
    with 1 have "n div 2 < 2 ^ bit_length (n div 2)" by simp
    with False show ?thesis by (subst bit_length.simps) auto
  qed simp
qed

lemma bit_length_least: "n < 2 ^ b \<Longrightarrow> bit_length n \<le> b"
proof (induction n arbitrary: b rule: bit_length.induct)
  case (1 n)
  show ?case
  proof (cases "n = 0")
    case False
    with 1(2) obtain b' where b: "b = Suc b'" by (cases b) auto
    with 1(2) have "n div 2 < 2 ^ b'" by simp
    with 1(1) False have "bit_length (n div 2) \<le> b'" by blast
    with False b show ?thesis by (subst bit_length.simps) simp
  qed simp
qed

lemma bits_for_bit_length:
  assumes "n \<le> 2 ^ 64"
  shows "bits_for n = bit_length (n - 1)"
proof (cases "n \<le> 1")
  case False
  then have "n - 1 < 2 ^ 64" using assms by simp
  then have "bit_length (n - 1) \<le> 64" by (rule bit_length_least)
  with False show ?thesis by (simp add: bits_for_def leading_zeros_def)
qed (auto simp: bits_for_def)

lemma bits_for_enough: "n \<le> 2 ^ 64 \<Longrightarrow> n \<le> 2 ^ bits_for n"
  using bit_length_less [of "n - 1"] by (auto simp: bits_for_bit_length)

lemma bits_for_least: "n \<le> 2 ^ 64 \<Longrightarrow> n \<le> 2 ^ b \<Longrightarrow> bits_for n \<le> b"
  using bit_length_least [of "n - 1" b]
  by (cases "n = 0") (auto simp: bits_for_bit_length)

lemma bits_for_mono: "m \<le> n \<Longrightarrow> n \<le> 2 ^ 64 \<Longrightarrow> bits_for m \<le> bits_for n"
  by (meson bits_for_enough bits_for_least order_trans)

lemma bits_for_0_iff: "bits_for n = 0 \<longleftrightarrow> n \<le> 1" if "n \<le> 2 ^ 64"
proof
  show "n \<le> 1" if "bits_for n = 0"
    using bits_for_enough [OF \<open>n \<le> 2 ^ 64\<close>] that by simp
qed (simp add: bits_for_def)

section \<open>Bit-level facts\<close>

lemma entry_mask_eq: "bits \<le> 64 \<Longrightarrow> entry_mask bits = mask bits"
  by (rule bit_word_eqI)
    (auto simp: entry_mask_def bit_drop_bit_eq bit_minus_1_iff bit_mask_iff possible_bit_word)

lemma bit_entry_mask [pack_simps]: "bits \<le> 64 \<Longrightarrow> bit (entry_mask bits) j \<longleftrightarrow> j < bits"
  by (auto simp: entry_mask_eq bit_mask_iff possible_bit_word)

lemma Suc_unat_entry_mask: "bits \<le> 16 \<Longrightarrow> Suc (unat (entry_mask bits)) = 2 ^ bits"
proof -
  assume "bits \<le> 16"
  then have "unat (entry_mask bits) = mask bits"
    by (intro bit_eqI) (auto simp: bit_unsigned_iff bit_entry_mask bit_mask_iff)
  then show ?thesis by (simp add: Suc_mask_eq_exp)
qed

lemma le_entry_mask: "bits \<le> 16 \<Longrightarrow> v \<le> unat (entry_mask bits) \<longleftrightarrow> v < 2 ^ bits"
  by (metis Suc_unat_entry_mask less_Suc_eq_le)

text \<open>Where bit \<open>j\<close> of the entry at \<open>index\<close> lives.\<close>

lemma flat_same_word:
  fixes off :: nat
  assumes "off mod 64 + j < 64"
  shows "(off + j) div 64 = off div 64" and "(off + j) mod 64 = off mod 64 + j"
proof -
  have eq: "off + j = 64 * (off div 64) + (off mod 64 + j)" by simp
  from eq assms show "(off + j) div 64 = off div 64"
    by (metis add_cancel_right_right div_less div_mult_self4 zero_neq_numeral)
  from eq assms show "(off + j) mod 64 = off mod 64 + j"
    by (metis mod_less mod_mult_self4)
qed

lemma flat_next_word:
  fixes off :: nat
  assumes "64 \<le> off mod 64 + j" and "j \<le> 64"
  shows "(off + j) div 64 = off div 64 + 1" and "(off + j) mod 64 = off mod 64 + j - 64"
proof -
  have eq: "off + j = 64 * (off div 64 + 1) + (off mod 64 + j - 64)" using assms by simp
  have "off mod 64 < 64" by simp
  then have lt: "off mod 64 + j - 64 < 64" using assms by linarith
  from eq lt show "(off + j) div 64 = off div 64 + 1"
    by (metis div_mult_self4 div_less add_cancel_right_right zero_neq_numeral)
  from eq lt show "(off + j) mod 64 = off mod 64 + j - 64"
    by (metis mod_less mod_mult_self4)
qed

lemma straddle_bound:
  fixes off :: nat
  assumes "64 < off mod 64 + b"
  shows "64 * (off div 64 + 1) < off + b"
proof -
  have "off = 64 * (off div 64) + off mod 64" by simp
  then have "64 * (off div 64) + 64 < off + b" using assms by linarith
  then show ?thesis by simp
qed

text \<open>Which bits of which word the range \<open>[off, off + b)\<close> covers.\<close>

lemma range_in_words:
  fixes off k b :: nat
  assumes "b \<le> 64"
  shows "k div 64 = off div 64 \<Longrightarrow>
      (off \<le> k \<and> k < off + b) = (off mod 64 \<le> k mod 64 \<and> k mod 64 < off mod 64 + b)"
    and "k div 64 = off div 64 + 1 \<Longrightarrow>
      (off \<le> k \<and> k < off + b) = (64 - off mod 64 + k mod 64 < b)"
    and "k div 64 \<noteq> off div 64 \<Longrightarrow> k div 64 \<noteq> off div 64 + 1 \<Longrightarrow> \<not> (off \<le> k \<and> k < off + b)"
    and "k div 64 = off div 64 \<Longrightarrow> k - off = k mod 64 - off mod 64"
    and "k div 64 = off div 64 + 1 \<Longrightarrow> k - off = 64 - off mod 64 + k mod 64"
proof -
  define q r w s where "q = k div 64" "r = k mod 64" "w = off div 64" "s = off mod 64"
  note fold = q_r_w_s_def [symmetric]
  have k: "k = 64 * q + r" "r < 64" and off: "off = 64 * w + s" "s < 64"
    by (simp_all add: q_r_w_s_def)
  show "(off \<le> k \<and> k < off + b) = (off mod 64 \<le> k mod 64 \<and> k mod 64 < off mod 64 + b)"
    if "k div 64 = off div 64"
    using that k off unfolding fold by auto
  show "(off \<le> k \<and> k < off + b) = (64 - off mod 64 + k mod 64 < b)"
    if "k div 64 = off div 64 + 1"
    using that k off assms unfolding fold by auto
  show "\<not> (off \<le> k \<and> k < off + b)" if "k div 64 \<noteq> off div 64" "k div 64 \<noteq> off div 64 + 1"
  proof -
    have "64 * q + 64 \<le> 64 * w \<or> 64 * w + 128 \<le> 64 * q" using that unfolding fold by linarith
    then show ?thesis using k off assms by auto
  qed
  show "k - off = k mod 64 - off mod 64" if "k div 64 = off div 64"
    using that k off unfolding fold by auto
  show "k - off = 64 - off mod 64 + k mod 64" if "k div 64 = off div 64 + 1"
    using that k off unfolding fold by auto
qed

lemma flat_list_update:
  "w < length ws \<Longrightarrow> flat (ws[w := x]) k = (if k div 64 = w then bit x (k mod 64) else flat ws k)"
  by (simp add: flat_def nth_list_update)

lemma div_ceil_bound: "n \<le> 64 * ((n + 63) div 64)" for n :: nat
proof -
  have "n + 63 = 64 * ((n + 63) div 64) + (n + 63) mod 64" by simp
  moreover have "(n + 63) mod 64 < 64" by simp
  ultimately show ?thesis by linarith
qed

lemma words_needed_bound:
  assumes "index < len" and "bits \<noteq> 0"
  shows "index * bits + bits \<le> 64 * words_needed len bits"
proof -
  have "index * bits + bits = Suc index * bits" by simp
  also have "\<dots> \<le> len * bits" using assms by (intro mult_le_mono1) simp
  also have "\<dots> \<le> 64 * ((len * bits + 63) div 64)" by (rule div_ceil_bound)
  finally show ?thesis using assms by (simp add: words_needed_def)
qed

text \<open>Small values through the word conversions.\<close>

lemma nat_less_exp_bit: "(v :: nat) < 2 ^ n \<longleftrightarrow> (\<forall>j\<ge>n. \<not> bit v j)"
proof
  assume "v < 2 ^ n"
  then have "take_bit n v = v" by (simp add: take_bit_nat_eq_self)
  then show "\<forall>j\<ge>n. \<not> bit v j" by (metis bit_take_bit_iff not_less)
next
  assume "\<forall>j\<ge>n. \<not> bit v j"
  then have "take_bit n v = v"
    by (intro bit_eqI) (metis bit_take_bit_iff not_le)
  then show "v < 2 ^ n" by (metis take_bit_nat_less_exp)
qed

lemma bit_entry_value [pack_simps]:
  "bit (unat (ucast (w :: u64) :: u32)) j \<longleftrightarrow> j < 32 \<and> bit w j"
  by (auto simp: bit_unsigned_iff)

lemma bit_value_word [pack_simps]: "bit (of_nat v :: u64) j \<longleftrightarrow> j < 64 \<and> bit v j"
  by (simp add: bit_of_nat_iff)

section \<open>Reads and writes\<close>

text \<open>Reading an entry yields exactly its \<open>bits\<close> bits of the flat bit string.\<close>

lemma ba_get_flat:
  assumes "ba_inv a" and "index < ba_len a" and "bits_per_entry a \<noteq> 0"
  obtains v where "ba_get a index = Some v"
    and "\<And>j. bit v j \<longleftrightarrow> j < bits_per_entry a \<and> flat (ba_words a) (index * bits_per_entry a + j)"
proof -
  let ?b = "bits_per_entry a" and ?ws = "ba_words a"
  let ?off = "index * ?b"
  let ?m = "entry_mask ?b" and ?sh = "?off mod 64" and ?wd = "?off div 64"
  have b: "0 < ?b" "?b \<le> 16" using assms by (auto simp: ba_inv_def)
  have bound: "?off + ?b \<le> 64 * length ?ws"
    using assms words_needed_bound by (simp add: ba_inv_def)
  have w0: "?wd < length ?ws" using bound b by (simp add: div_less_iff_less_mult)
  have sh: "?sh < 64" by simp
  let ?lo = "drop_bit ?sh (?ws ! ?wd) AND ?m"
  show thesis
  proof (cases "?sh + ?b > 64")
    case True
    have w1: "?wd + 1 < length ?ws"
    proof -
      have "64 * (?wd + 1) < 64 * length ?ws" using straddle_bound [OF True] bound by (rule less_le_trans)
      then show ?thesis by simp
    qed
    let ?v = "?lo OR (push_bit (64 - ?sh) (?ws ! (?wd + 1)) AND ?m)"
    have "ba_get a index = Some (unat (ucast ?v :: u32))"
      using assms b w0 w1 True by (simp add: ba_get_def Let_def vec_simps)
    moreover have "bit (unat (ucast ?v :: u32)) j \<longleftrightarrow> j < ?b \<and> flat ?ws (?off + j)" for j
    proof (cases "?sh + j < 64")
      case lt: True
      show ?thesis using lt b sh flat_same_word [OF lt]
        by (auto simp: pack_simps bit_and_iff bit_or_iff bit_push_bit_iff bit_drop_bit_eq flat_def)
    next
      case ge: False
      show ?thesis
      proof (cases "j < ?b")
        case True
        then show ?thesis using ge b sh flat_next_word [of ?off j]
          by (auto simp: pack_simps bit_and_iff bit_or_iff bit_push_bit_iff bit_drop_bit_eq flat_def
              add.commute dest: bit_imp_le_length)
      qed (use b in \<open>auto simp: pack_simps bit_and_iff bit_or_iff\<close>)
    qed
    ultimately show thesis by (rule that)
  next
    case False
    have "ba_get a index = Some (unat (ucast ?lo :: u32))"
      using assms b w0 False by (simp add: ba_get_def Let_def vec_simps)
    moreover have "bit (unat (ucast ?lo :: u32)) j \<longleftrightarrow> j < ?b \<and> flat ?ws (?off + j)" for j
    proof (cases "j < ?b")
      case True
      then have lt: "?sh + j < 64" using False by simp
      show ?thesis using True lt b flat_same_word [OF lt]
        by (auto simp: pack_simps bit_and_iff bit_drop_bit_eq flat_def)
    qed (use b in \<open>auto simp: pack_simps bit_and_iff\<close>)
    ultimately show thesis by (rule that)
  qed
qed

text \<open>The two halves of a write: the part of the entry in the first word, and the part carried
  into the next.\<close>

definition write_low :: "nat \<Rightarrow> nat \<Rightarrow> nat \<Rightarrow> u64 \<Rightarrow> u64" where
  "write_low b s v w = (w AND NOT (push_bit s (entry_mask b))) OR push_bit s (of_nat v)"

definition write_high :: "nat \<Rightarrow> nat \<Rightarrow> nat \<Rightarrow> u64 \<Rightarrow> u64" where
  "write_high b s v w = (w AND NOT (drop_bit (64 - s) (entry_mask b))) OR drop_bit (64 - s) (of_nat v)"

lemma bit_write_low [pack_simps]:
  assumes "b \<le> 16" and "v < 2 ^ b" and "m < 64"
  shows "bit (write_low b s v w) m \<longleftrightarrow> (if s \<le> m \<and> m < s + b then bit v (m - s) else bit w m)"
proof -
  have "bit v j \<Longrightarrow> j < b" for j using assms(2) nat_less_exp_bit not_le by blast
  from this [of "m - s"] assms(1,3) show ?thesis
    by (auto simp: write_low_def bit_entry_mask bit_value_word bit_and_iff bit_or_iff bit_not_iff
        bit_push_bit_iff)
qed

lemma bit_write_high [pack_simps]:
  assumes "b \<le> 16" and "v < 2 ^ b" and "m < 64"
  shows "bit (write_high b s v w) m \<longleftrightarrow>
    (if 64 - s + m < b then bit v (64 - s + m) else bit w m)"
proof -
  have "bit v j \<Longrightarrow> j < b" for j using assms(2) nat_less_exp_bit not_le by blast
  from this [of "64 - s + m"] assms(1,3) show ?thesis
    by (auto simp: write_high_def bit_entry_mask bit_value_word bit_and_iff bit_or_iff bit_not_iff
        bit_drop_bit_eq)
qed

lemma flat_write_one:
  fixes off :: nat
  assumes b: "b \<le> 16" and v: "v < 2 ^ b" and w: "off div 64 < length ws" and fits: "off mod 64 + b \<le> 64"
  shows "flat (ws[off div 64 := write_low b (off mod 64) v (ws ! (off div 64))]) k \<longleftrightarrow>
    (if off \<le> k \<and> k < off + b then bit v (k - off) else flat ws k)"
proof -
  have b64: "b \<le> 64" using b by simp
  show ?thesis
  proof (cases "k div 64 = off div 64")
    case same: True
    show ?thesis unfolding flat_list_update [OF w] range_in_words(1,4) [OF b64 same]
      using same by (simp add: bit_write_low [OF b v] flat_def)
  next
    case other: False
    then have "\<not> (off \<le> k \<and> k < off + b)"
      using range_in_words(2,3) [OF b64, of k off] fits by fastforce
    then show ?thesis unfolding flat_list_update [OF w] using other by auto
  qed
qed

lemma flat_write_two:
  fixes off :: nat
  assumes b: "b \<le> 16" and v: "v < 2 ^ b" and w: "off div 64 + 1 < length ws"
  shows "flat (ws[off div 64 := write_low b (off mod 64) v (ws ! (off div 64)),
                  off div 64 + 1 := write_high b (off mod 64) v (ws ! (off div 64 + 1))]) k \<longleftrightarrow>
    (if off \<le> k \<and> k < off + b then bit v (k - off) else flat ws k)"
proof -
  have b64: "b \<le> 64" using b by simp
  have w0: "off div 64 < length ws" using w by simp
  have w1: "off div 64 + 1 < length (ws[off div 64 := x])" for x using w by simp
  note upd = flat_list_update [OF w1] flat_list_update [OF w0]
  consider "k div 64 = off div 64" | "k div 64 = off div 64 + 1"
    | "k div 64 \<noteq> off div 64" "k div 64 \<noteq> off div 64 + 1" by blast
  then show ?thesis
  proof cases
    case same: 1
    show ?thesis unfolding upd range_in_words(1,4) [OF b64 same]
      using same by (simp add: bit_write_low [OF b v] flat_def)
  next
    case nxt: 2
    show ?thesis unfolding upd range_in_words(2,5) [OF b64 nxt]
      using nxt by (simp add: bit_write_high [OF b v] flat_def)
  next
    case 3
    then show ?thesis unfolding upd using range_in_words(3) [OF b64 3] by auto
  qed
qed

text \<open>Writing an entry replaces exactly its \<open>bits\<close> bits of the flat bit string.\<close>

lemma ba_set_flat:
  assumes "ba_inv a" and "index < ba_len a" and "bits_per_entry a \<noteq> 0"
    and v: "v < 2 ^ bits_per_entry a"
  obtains ws where "ba_set a index v = Some (a\<lparr>ba_words := ws\<rparr>)"
    and "length ws = length (ba_words a)"
    and "\<And>k. flat ws k \<longleftrightarrow>
      (if index * bits_per_entry a \<le> k \<and> k < index * bits_per_entry a + bits_per_entry a
       then bit v (k - index * bits_per_entry a) else flat (ba_words a) k)"
proof -
  let ?b = "bits_per_entry a" and ?ws = "ba_words a"
  define off where "off = index * ?b"
  have b: "?b \<le> 16" using assms by (auto simp: ba_inv_def)
  have bound: "off + ?b \<le> 64 * length ?ws"
    using assms words_needed_bound by (simp add: ba_inv_def off_def)
  have w0: "off div 64 < length ?ws" using bound assms(3) by (simp add: div_less_iff_less_mult)
  have vm: "v \<le> unat (entry_mask ?b)" using v b by (simp add: le_entry_mask)
  let ?lo = "write_low ?b (off mod 64) v (?ws ! (off div 64))"
  show thesis
  proof (cases "off mod 64 + ?b > 64")
    case True
    have "64 * (off div 64 + 1) < 64 * length ?ws"
      using straddle_bound [OF True] bound by (rule less_le_trans)
    then have w1: "off div 64 + 1 < length ?ws" by simp
    let ?hi = "write_high ?b (off mod 64) v (?ws ! (off div 64 + 1))"
    have "ba_set a index v = Some (a\<lparr>ba_words := ?ws[off div 64 := ?lo, off div 64 + 1 := ?hi]\<rparr>)"
      using assms w0 w1 vm True
      by (simp add: ba_set_def Let_def vec_simps write_low_def write_high_def flip: off_def)
    then show thesis
      by (rule that) (simp_all only: flat_write_two [OF b v w1] length_list_update flip: off_def)
  next
    case False
    then have fits: "off mod 64 + ?b \<le> 64" by simp
    have "ba_set a index v = Some (a\<lparr>ba_words := ?ws[off div 64 := ?lo]\<rparr>)"
      using assms w0 vm False
      by (simp add: ba_set_def Let_def vec_simps write_low_def flip: off_def)
    then show thesis
      by (rule that) (simp_all only: flat_write_one [OF b v w0 fits] length_list_update flip: off_def)
  qed
qed

section \<open>The contract\<close>

text \<open>What a user of a packed array relies on: entries in range can be read and are below
  \<open>2 ^ width\<close>; a value of that width can be stored in range, and storing it changes that entry
  and nothing else.\<close>

locale packed_store =
  fixes get :: "'s \<Rightarrow> nat \<Rightarrow> nat option"
    and put :: "'s \<Rightarrow> nat \<Rightarrow> nat \<Rightarrow> 's option"
    and size_of :: "'s \<Rightarrow> nat"
    and width :: "'s \<Rightarrow> nat"
    and invar :: "'s \<Rightarrow> bool"
  assumes get_in_range: "invar s \<Longrightarrow> i < size_of s \<Longrightarrow> \<exists>v. get s i = Some v \<and> v < 2 ^ width s"
    and put_in_range: "invar s \<Longrightarrow> i < size_of s \<Longrightarrow> v < 2 ^ width s \<Longrightarrow>
      \<exists>s'. put s i v = Some s' \<and> invar s' \<and> size_of s' = size_of s \<and> width s' = width s \<and>
        (\<forall>j < size_of s. get s' j = (if j = i then Some v else get s j))"
begin

lemma putE:
  assumes "invar s" and "i < size_of s" and "v < 2 ^ width s"
  obtains s' where "put s i v = Some s'" and "invar s'" and "size_of s' = size_of s"
    and "width s' = width s" and "get s' i = Some v"
    and "\<And>j. j < size_of s \<Longrightarrow> j \<noteq> i \<Longrightarrow> get s' j = get s j"
  using put_in_range [OF assms] assms(2) by force

text \<open>A loop that rewrites distinct entries, each from its own current value, neither fails nor
  disturbs an entry outside the list.\<close>

lemma write_all_correct:
  assumes "invar s" and "distinct is" and "\<forall>i \<in> set is. i < size_of s"
    and "\<And>t i. invar t \<Longrightarrow> size_of t = size_of s \<Longrightarrow> width t = width s \<Longrightarrow> i \<in> set is \<Longrightarrow>
      get t i = get s i \<Longrightarrow> f t i = Some (g i) \<and> g i < 2 ^ width s"
  shows "\<exists>s'. write_all put f is s = Some s' \<and> invar s' \<and> size_of s' = size_of s \<and>
    width s' = width s \<and>
    (\<forall>j < size_of s. get s' j = (if j \<in> set is then Some (g j) else get s j))"
  using assms
proof (induction "is" arbitrary: s)
  case Nil
  then show ?case by simp
next
  case (Cons i "is")
  have f: "f s i = Some (g i)" and g: "g i < 2 ^ width s"
    using Cons.prems(1) Cons.prems(4) [of s i] by auto
  obtain s1 where s1: "put s i (g i) = Some s1" "invar s1" "size_of s1 = size_of s"
      "width s1 = width s" "get s1 i = Some (g i)"
      "\<And>j. j < size_of s \<Longrightarrow> j \<noteq> i \<Longrightarrow> get s1 j = get s j"
    using putE [OF Cons.prems(1) _ g] Cons.prems(3) by auto
  have "\<exists>s'. write_all put f is s1 = Some s' \<and> invar s' \<and> size_of s' = size_of s1 \<and>
    width s' = width s1 \<and>
    (\<forall>j < size_of s1. get s' j = (if j \<in> set is then Some (g j) else get s1 j))"
  proof (rule Cons.IH)
    show "f t j = Some (g j) \<and> g j < 2 ^ width s1"
      if "invar t" "size_of t = size_of s1" "width t = width s1" "j \<in> set is" "get t j = get s1 j"
      for t j
    proof -
      have "j \<noteq> i" "j < size_of s" using Cons.prems(2,3) that(4) by auto
      then have "get t j = get s j" using that(5) s1(6) by simp
      then show ?thesis using Cons.prems(4) [of t j] that s1 by auto
    qed
  qed (use Cons.prems s1 in auto)
  then show ?case using f s1 by (fastforce split: if_splits)
qed

end

lemma ba_get_width_0: "bits_per_entry a = 0 \<Longrightarrow> i < ba_len a \<Longrightarrow> ba_get a i = Some 0"
  by (simp add: ba_get_def)

lemma ba_get_after_set:
  assumes inv: "ba_inv a" and i: "i < ba_len a" and b: "bits_per_entry a \<noteq> 0"
    and v: "v < 2 ^ bits_per_entry a"
  shows "\<exists>a'. ba_set a i v = Some a' \<and> ba_inv a' \<and> ba_len a' = ba_len a \<and>
    bits_per_entry a' = bits_per_entry a \<and>
    (\<forall>j < ba_len a. ba_get a' j = (if j = i then Some v else ba_get a j))"
proof -
  let ?b = "bits_per_entry a"
  obtain ws where ws: "ba_set a i v = Some (a\<lparr>ba_words := ws\<rparr>)" "length ws = length (ba_words a)"
      "\<And>k. flat ws k \<longleftrightarrow> (if i * ?b \<le> k \<and> k < i * ?b + ?b then bit v (k - i * ?b)
        else flat (ba_words a) k)"
    using ba_set_flat [OF inv i b v] by metis
  let ?a = "a\<lparr>ba_words := ws\<rparr>"
  have inv': "ba_inv ?a" using inv ws(2) by (simp add: ba_inv_def)
  have "ba_get ?a j = (if j = i then Some v else ba_get a j)" if j: "j < ba_len a" for j
  proof -
    obtain x where x: "ba_get ?a j = Some x" "\<And>m. bit x m \<longleftrightarrow> m < ?b \<and> flat ws (j * ?b + m)"
      using ba_get_flat [OF inv', of j] j b by auto
    obtain y where y: "ba_get a j = Some y" "\<And>m. bit y m \<longleftrightarrow> m < ?b \<and> flat (ba_words a) (j * ?b + m)"
      using ba_get_flat [OF inv j b] by auto
    have vb: "bit v m \<Longrightarrow> m < ?b" for m using v nat_less_exp_bit not_le by blast
    show ?thesis
    proof (cases "j = i")
      case True
      then have "x = v" using vb by (intro bit_eqI) (auto simp: x(2) ws(3))
      then show ?thesis using True x by simp
    next
      case False
      have "\<not> (i * ?b \<le> j * ?b + m \<and> j * ?b + m < i * ?b + ?b)" if "m < ?b" for m
      proof (cases "j < i")
        case True
        then have "Suc j * ?b \<le> i * ?b" by (intro mult_le_mono1) simp
        then show ?thesis using that by simp
      next
        case False
        with \<open>j \<noteq> i\<close> have "Suc i * ?b \<le> j * ?b" by (intro mult_le_mono1) simp
        then show ?thesis by simp
      qed
      then have "x = y" by (intro bit_eqI) (auto simp: x(2) y(2) ws(3))
      then show ?thesis using False x y by simp
    qed
  qed
  then show ?thesis using ws(1) inv' by auto
qed

interpretation bitarr: packed_store ba_get ba_set ba_len bits_per_entry ba_inv
proof unfold_locales
  fix a i assume inv: "ba_inv a" and i: "i < ba_len a"
  show "\<exists>v. ba_get a i = Some v \<and> v < 2 ^ bits_per_entry a"
  proof (cases "bits_per_entry a = 0")
    case False
    then obtain v where "ba_get a i = Some v" "\<And>j. bit v j \<Longrightarrow> j < bits_per_entry a"
      using ba_get_flat [OF inv i] by metis
    then show ?thesis using nat_less_exp_bit not_le by blast
  qed (simp add: ba_get_width_0 i)
next
  fix a i and v :: nat assume inv: "ba_inv a" and i: "i < ba_len a" and v: "v < 2 ^ bits_per_entry a"
  show "\<exists>a'. ba_set a i v = Some a' \<and> ba_inv a' \<and> ba_len a' = ba_len a \<and>
    bits_per_entry a' = bits_per_entry a \<and>
    (\<forall>j < ba_len a. ba_get a' j = (if j = i then Some v else ba_get a j))"
  proof (cases "bits_per_entry a = 0")
    case True
    then show ?thesis using inv i v by (auto simp: ba_set_def entry_mask_def ba_get_width_0)
  qed (rule ba_get_after_set [OF inv i _ v])
qed

section \<open>Construction, resizing, remapping\<close>

lemma ba_new_correct:
  assumes "bits \<le> 16"
  shows "\<exists>a. ba_new len bits = Some a \<and> ba_inv a \<and> ba_len a = len \<and> bits_per_entry a = bits"
  using assms by (auto simp: ba_new_def ba_inv_def)

text \<open>The values an array holds, as a list: the abstraction the chunk's proofs use.\<close>

definition ba_list :: "bit_array \<Rightarrow> nat list" where
  "ba_list a = map (\<lambda>i. the (ba_get a i)) [0..<ba_len a]"

lemma length_ba_list [simp]: "length (ba_list a) = ba_len a"
  by (simp add: ba_list_def)

lemma ba_get_list: "ba_inv a \<Longrightarrow> i < ba_len a \<Longrightarrow> ba_get a i = Some (ba_list a ! i)"
  using bitarr.get_in_range [of a i] by (auto simp: ba_list_def)

lemma ba_list_bound: "ba_inv a \<Longrightarrow> i < ba_len a \<Longrightarrow> ba_list a ! i < 2 ^ bits_per_entry a"
  using bitarr.get_in_range [of a i] ba_get_list [of a i] by auto

lemma ba_listI:
  assumes "ba_len a = length xs" and "\<And>j. j < length xs \<Longrightarrow> ba_get a j = Some (xs ! j)"
  shows "ba_list a = xs"
  using assms by (auto simp: ba_list_def intro: nth_equalityI)

lemma ba_set_list:
  assumes "ba_inv a" and "i < ba_len a" and "v < 2 ^ bits_per_entry a"
  shows "\<exists>a'. ba_set a i v = Some a' \<and> ba_inv a' \<and> ba_len a' = ba_len a \<and>
    bits_per_entry a' = bits_per_entry a \<and> ba_list a' = (ba_list a)[i := v]"
proof -
  obtain a' where a': "ba_set a i v = Some a'" "ba_inv a'" "ba_len a' = ba_len a"
      "bits_per_entry a' = bits_per_entry a" "ba_get a' i = Some v"
      "\<And>j. j < ba_len a \<Longrightarrow> j \<noteq> i \<Longrightarrow> ba_get a' j = ba_get a j"
    using bitarr.putE [OF assms] by metis
  have "ba_list a' = (ba_list a)[i := v]"
    using a' assms by (intro ba_listI) (auto simp: nth_list_update ba_get_list)
  with a' show ?thesis by blast
qed

lemma ba_resized_correct:
  assumes inv: "ba_inv a" and bits: "bits \<le> 16"
    and fits: "\<forall>v \<in> set (ba_list a). v < 2 ^ bits"
  shows "\<exists>a'. ba_resized a bits = Some a' \<and> ba_inv a' \<and> ba_len a' = ba_len a \<and>
    bits_per_entry a' = bits \<and> ba_list a' = ba_list a"
proof -
  obtain r where r: "ba_new (ba_len a) bits = Some r" "ba_inv r" "ba_len r = ba_len a"
      "bits_per_entry r = bits"
    using ba_new_correct [OF bits] by blast
  have lt: "ba_list a ! i < 2 ^ bits" if "i < ba_len a" for i
    using fits that by (metis length_ba_list nth_mem)
  show ?thesis
  proof (cases "bits > 0")
    case True
    have "\<exists>a'. write_all ba_set (\<lambda>_ i. ba_get a i) [0..<ba_len a] r = Some a' \<and> ba_inv a' \<and>
        ba_len a' = ba_len r \<and> bits_per_entry a' = bits_per_entry r \<and>
        (\<forall>j < ba_len r. ba_get a' j =
          (if j \<in> set [0..<ba_len a] then Some (ba_list a ! j) else ba_get r j))"
      by (rule bitarr.write_all_correct) (use r lt ba_get_list [OF inv] in auto)
    then show ?thesis using True r by (auto simp: ba_resized_def intro!: ba_listI)
  next
    case False
    then have "ba_list r = ba_list a"
      using r lt by (intro ba_listI) (auto simp: ba_get_width_0)
    then show ?thesis using False r by (simp add: ba_resized_def)
  qed
qed

lemma ba_remap_correct:
  assumes inv: "ba_inv a"
    and remap: "\<And>v. v \<in> set (ba_list a) \<Longrightarrow> remap v = Some (g v) \<and> g v < 2 ^ bits_per_entry a"
  shows "\<exists>a'. ba_remap a remap = Some a' \<and> ba_inv a' \<and> ba_len a' = ba_len a \<and>
    bits_per_entry a' = bits_per_entry a \<and>
    (bits_per_entry a \<noteq> 0 \<longrightarrow> ba_list a' = map g (ba_list a))"
proof (cases "bits_per_entry a = 0")
  case False
  have g: "remap (ba_list a ! i) = Some (g (ba_list a ! i))" "g (ba_list a ! i) < 2 ^ bits_per_entry a"
    if "i < ba_len a" for i
    using remap that by (metis length_ba_list nth_mem)+
  have "\<exists>a'. write_all ba_set (\<lambda>s i. do { v \<leftarrow> ba_get s i; remap v }) [0..<ba_len a] a = Some a' \<and>
      ba_inv a' \<and> ba_len a' = ba_len a \<and> bits_per_entry a' = bits_per_entry a \<and>
      (\<forall>j < ba_len a. ba_get a' j =
        (if j \<in> set [0..<ba_len a] then Some (g (ba_list a ! j)) else ba_get a j))"
    by (rule bitarr.write_all_correct) (use inv g ba_get_list [OF inv] in auto)
  then show ?thesis using False by (auto simp: ba_remap_def intro!: ba_listI)
qed (simp add: ba_remap_def inv)

lemma from_words_inv: "from_words len bits ws = Inr a \<Longrightarrow> ba_inv a \<and> ba_len a = len"
  by (auto simp: from_words_def ba_inv_def split: if_splits)

lemma from_words_words: "ba_inv a \<Longrightarrow> from_words (ba_len a) (bits_per_entry a) (ba_words a) = Inr a"
  by (simp add: from_words_def ba_inv_def)

lemma ba_new_zero:
  assumes "ba_new len bits = Some a"
  shows "ba_list a = replicate len 0"
proof -
  have a: "ba_inv a" "ba_len a = len" "bits_per_entry a = bits" "ba_words a = replicate (words_needed len bits) 0"
    using assms by (auto simp: ba_new_def ba_inv_def split: if_splits)
  have "ba_get a i = Some 0" if i: "i < len" for i
  proof (cases "bits = 0")
    case True
    then show ?thesis using a i by (simp add: ba_get_width_0)
  next
    case False
    obtain v where v: "ba_get a i = Some v"
        "\<And>j. bit v j \<longleftrightarrow> j < bits \<and> flat (ba_words a) (i * bits + j)"
      using ba_get_flat [OF a(1)] a(2,3) i False by metis
    have "\<not> flat (ba_words a) (i * bits + j)" if "j < bits" for j
    proof -
      have "i * bits + j < words_needed len bits * 64" using words_needed_bound [OF i False] that by linarith
      then have "(i * bits + j) div 64 < words_needed len bits" by (rule less_mult_imp_div_less)
      then show ?thesis by (simp add: a(4) flat_def)
    qed
    then have "v = 0" using v(2) by (intro bit_eqI) auto
    then show ?thesis using v(1) by simp
  qed
  then show ?thesis using a(2) by (intro ba_listI) auto
qed

end
