(* ===== verification/Material.thy ===== *)
theory Material
  imports Prelude
begin

text \<open>
  Material identity, from \<^verbatim>\<open>crates/core/src/material.rs\<close>: the numeric ids of a session and the
  table that interns string ids as numbers. The invariant says that the two halves of the table
  are inverse to each other and that ids 0 and 1 are the engine's.
\<close>

type_synonym material_id = u16

definition AIR :: material_id where "AIR = 0"
definition UNKNOWN :: material_id where "UNKNOWN = 1"

definition is_air :: "material_id \<Rightarrow> bool" where
  [simp]: "is_air m \<longleftrightarrow> m = AIR"

definition AIR_NAME :: string where "AIR_NAME = ''engine:air''"
definition UNKNOWN_NAME :: string where "UNKNOWN_NAME = ''engine:unknown''"

datatype registry_error = Exhausted nat | Reserved string

record registry =
  reg_names :: "string list"
  reg_ids :: "string \<rightharpoonup> material_id"

definition MAX_MATERIALS :: nat where
  [simp]: "MAX_MATERIALS = 65535 + 1"

definition registry_new :: registry where
  "registry_new = \<lparr>reg_names = [AIR_NAME, UNKNOWN_NAME],
     reg_ids = [AIR_NAME \<mapsto> AIR, UNKNOWN_NAME \<mapsto> UNKNOWN]\<rparr>"

definition register :: "registry \<Rightarrow> string \<Rightarrow> (registry_error + material_id) \<times> registry" where
  "register r name =
     (case reg_ids r name of
        Some existing \<Rightarrow>
          if existing = AIR \<or> existing = UNKNOWN then (Inl (Reserved name), r)
          else (Inr existing, r)
      | None \<Rightarrow>
          if length (reg_names r) \<ge> MAX_MATERIALS then (Inl (Exhausted MAX_MATERIALS), r)
          else
            (let i = of_nat (length (reg_names r))
             in (Inr i, \<lparr>reg_names = reg_names r @ [name], reg_ids = (reg_ids r)(name \<mapsto> i)\<rparr>)))"

definition id_of :: "registry \<Rightarrow> string \<Rightarrow> material_id option" where
  "id_of r name = reg_ids r name"

definition name_of :: "registry \<Rightarrow> material_id \<Rightarrow> string option" where
  "name_of r i = vec_get (reg_names r) (unat i)"

definition id_or_unknown :: "registry \<Rightarrow> string \<Rightarrow> material_id" where
  "id_or_unknown r name = (case id_of r name of Some i \<Rightarrow> i | None \<Rightarrow> UNKNOWN)"

section \<open>Invariant\<close>

definition registry_inv :: "registry \<Rightarrow> bool" where
  "registry_inv r \<longleftrightarrow>
     2 \<le> length (reg_names r) \<and> length (reg_names r) \<le> MAX_MATERIALS \<and>
     reg_names r ! 0 = AIR_NAME \<and> reg_names r ! 1 = UNKNOWN_NAME \<and>
     (\<forall>name i. reg_ids r name = Some i \<longleftrightarrow> name_of r i = Some name)"

lemma unat_u16_less [simp]: "unat (i :: u16) < 65536"
  using unsigned_less [of i] by simp

lemma registry_inv_new: "registry_inv registry_new"
proof -
  have names: "AIR_NAME \<noteq> UNKNOWN_NAME" by (simp add: AIR_NAME_def UNKNOWN_NAME_def)
  have u: "unat AIR = 0" "unat UNKNOWN = 1" by (simp_all add: AIR_def UNKNOWN_def)
  have nm: "name_of registry_new i =
      (if i = AIR then Some AIR_NAME else if i = UNKNOWN then Some UNKNOWN_NAME else None)" for i
  proof -
    have "unat i < 2 \<longleftrightarrow> i = AIR \<or> i = UNKNOWN"
      using word_unat_eq_iff [of i AIR] word_unat_eq_iff [of i UNKNOWN] u by linarith
    then show ?thesis using u by (auto simp: name_of_def registry_new_def vec_get_def)
  qed
  have "AIR \<noteq> UNKNOWN" by (simp add: AIR_def UNKNOWN_def)
  then have "reg_ids registry_new name = Some i \<longleftrightarrow> name_of registry_new i = Some name" for name i
    unfolding nm using names by (auto simp: registry_new_def)
  then show ?thesis by (simp add: registry_inv_def registry_new_def)
qed

lemma unat_of_nat_u16: "n < 65536 \<Longrightarrow> unat (of_nat n :: u16) = n"
  by (simp add: unat_of_nat)

lemma registry_inv_register:
  assumes "registry_inv r"
  shows "registry_inv (snd (register r name))"
proof (cases "reg_ids r name = None \<and> length (reg_names r) < MAX_MATERIALS")
  case True
  let ?n = "length (reg_names r)"
  let ?r = "snd (register r name)"
  have r': "?r = \<lparr>reg_names = reg_names r @ [name], reg_ids = (reg_ids r)(name \<mapsto> of_nat ?n)\<rparr>"
    using True by (simp add: register_def Let_def)
  have n: "unat (of_nat ?n :: u16) = ?n" using True by (intro unat_of_nat_u16) simp
  have eq: "reg_ids r nm = Some i \<longleftrightarrow> unat i < ?n \<and> reg_names r ! unat i = nm" for nm i
    using assms by (auto simp: registry_inv_def name_of_def vec_get_def split: if_splits)
  have fresh: "name \<notin> set (reg_names r)"
  proof
    assume "name \<in> set (reg_names r)"
    then obtain k where k: "k < ?n" "reg_names r ! k = name" by (auto simp: in_set_conv_nth)
    then have "unat (of_nat k :: u16) = k" using True by (intro unat_of_nat_u16) simp
    then show False using eq [of name "of_nat k"] k True by simp
  qed
  have "reg_ids ?r nm = Some i \<longleftrightarrow> name_of ?r i = Some nm" for nm i
    using eq [of nm i] fresh n word_unat_eq_iff [of i "of_nat ?n"]
    by (auto simp: r' name_of_def vec_get_def nth_append less_Suc_eq)
  then show ?thesis using assms True by (auto simp: registry_inv_def r' nth_append)
next
  case False
  then have "snd (register r name) = r"
    by (auto simp: register_def Let_def split: option.splits)
  then show ?thesis using assms by simp
qed

lemma registry_name_inj: "registry_inv r \<Longrightarrow> name_of r i = Some n \<Longrightarrow> name_of r j = Some n \<Longrightarrow> i = j"
  unfolding registry_inv_def by (metis option.inject)

text \<open>An id already issued keeps its name whatever is registered later.\<close>

lemma register_keeps_names:
  "name_of r i = Some n \<Longrightarrow> name_of (snd (register r name)) i = Some n"
  by (auto simp: register_def Let_def name_of_def nth_append split: option.splits)

end
