(* ===== verification/Block.thy ===== *)
theory Block
  imports Coords Material
begin

text \<open>
  What occupies one block, from \<^verbatim>\<open>crates/core/src/block.rs\<close>: the index of the 27 cells, the
  three storage forms, the canonicaliser, and the questions asked of a block. The central fact
  is \<open>canonical_eq_cells\<close>: the canonical form of a value is a function of its 27 cells alone, so
  equal contents have one representation.
\<close>

type_synonym cells = "material_id list"
type_synonym slot_index = nat

definition SUBNODES_PER_BLOCK :: nat where
  [simp]: "SUBNODES_PER_BLOCK = UNITS_PER_BLOCK"

definition OCCUPANCY_FULL :: u32 where
  "OCCUPANCY_FULL = push_bit SUBNODES_PER_BLOCK 1 - 1"

definition OCCUPANCY_EMPTY :: u32 where
  [simp]: "OCCUPANCY_EMPTY = 0"

definition EMPTY_CELLS :: cells where
  "EMPTY_CELLS = replicate SUBNODES_PER_BLOCK AIR"

definition subnode_index :: "nat \<Rightarrow> nat \<Rightarrow> nat \<Rightarrow> nat" where
  "subnode_index x y z = x + 3 * y + 9 * z"

definition subnode_offset :: "nat \<Rightarrow> nat \<times> nat \<times> nat" where
  "subnode_offset index = (index mod 3, (index div 3) mod 3, index div 9)"

datatype block_content = Uniform material_id | Partial material_id u32 | Mixed slot_index

datatype block_value = VUniform material_id | VPartial material_id u32 | VCells cells

datatype block_view = WUniform material_id | WPartial material_id u32 | WMixed cells

definition content_AIR :: block_content where "content_AIR = Uniform AIR"

fun content_is_air :: "block_content \<Rightarrow> bool" where
  "content_is_air (Uniform m) = is_air m"
| "content_is_air _ = False"

definition value_AIR :: block_value where
  [simp]: "value_AIR = VUniform AIR"

section \<open>Canonical form\<close>

definition canonical_partial :: "material_id \<Rightarrow> u32 \<Rightarrow> block_value" where
  "canonical_partial material occ =
     (let occupancy = occ AND OCCUPANCY_FULL
      in if is_air material \<or> occupancy = OCCUPANCY_EMPTY then value_AIR
         else if occupancy = OCCUPANCY_FULL then VUniform material
         else VPartial material occupancy)"

text \<open>The loop of \<open>canonical_cells\<close>; \<open>None\<close> is its early return, taken at the second distinct
  solid material.\<close>

fun canonical_loop ::
  "nat \<Rightarrow> cells \<Rightarrow> material_id option \<Rightarrow> u32 \<Rightarrow> (material_id option \<times> u32) option" where
  "canonical_loop index [] solid occupancy = Some (solid, occupancy)"
| "canonical_loop index (material # rest) solid occupancy =
     (if is_air material then canonical_loop (Suc index) rest solid occupancy
      else
        (let occupancy' = occupancy OR push_bit index 1
         in case solid of
              None \<Rightarrow> canonical_loop (Suc index) rest (Some material) occupancy'
            | Some existing \<Rightarrow>
                if existing = material then canonical_loop (Suc index) rest solid occupancy'
                else None))"

definition canonical_cells :: "cells \<Rightarrow> block_value" where
  "canonical_cells cs =
     (case canonical_loop 0 cs None OCCUPANCY_EMPTY of
        None \<Rightarrow> VCells cs
      | Some (None, _) \<Rightarrow> value_AIR
      | Some (Some material, occupancy) \<Rightarrow> canonical_partial material occupancy)"

fun canonical :: "block_value \<Rightarrow> block_value" where
  "canonical (VUniform m) = VUniform m"
| "canonical (VPartial m occ) = canonical_partial m occ"
| "canonical (VCells cs) = canonical_cells cs"

definition is_canonical :: "block_value \<Rightarrow> bool" where
  "is_canonical v \<longleftrightarrow> canonical v = v"

fun value_cells :: "block_value \<Rightarrow> cells" where
  "value_cells (VUniform m) = replicate SUBNODES_PER_BLOCK m"
| "value_cells (VPartial m occ) =
     map (\<lambda>(index, cell). if occ AND push_bit index 1 \<noteq> 0 then m else cell)
       (enumerate 0 EMPTY_CELLS)"
| "value_cells (VCells cs) = cs"

fun value_occupied_units :: "block_value \<Rightarrow> nat" where
  "value_occupied_units (VUniform m) = (if is_air m then 0 else UNITS_PER_BLOCK)"
| "value_occupied_units (VPartial _ occ) = count_ones (occ AND OCCUPANCY_FULL)"
| "value_occupied_units (VCells cs) = length (filter (\<lambda>c. \<not> is_air c) cs)"

section \<open>Views\<close>

fun value_view :: "block_value \<Rightarrow> block_view" where
  "value_view (VUniform m) = WUniform m"
| "value_view (VPartial m occ) = WPartial m occ"
| "value_view (VCells cs) = WMixed cs"

fun view_to_value :: "block_view \<Rightarrow> block_value" where
  "view_to_value (WUniform m) = VUniform m"
| "view_to_value (WPartial m occ) = VPartial m occ"
| "view_to_value (WMixed cs) = VCells cs"

fun view_is_empty :: "block_view \<Rightarrow> bool" where
  "view_is_empty (WUniform m) = is_air m"
| "view_is_empty (WPartial m occ) = (occ = 0 \<or> is_air m)"
| "view_is_empty (WMixed cs) = list_all is_air cs"

fun view_filled_cells :: "block_view \<Rightarrow> nat" where
  "view_filled_cells (WUniform m) = (if is_air m then 0 else SUBNODES_PER_BLOCK)"
| "view_filled_cells (WPartial m occ) = (if is_air m then 0 else count_ones occ)"
| "view_filled_cells (WMixed cs) = length (filter (\<lambda>m. \<not> is_air m) cs)"

fun view_blocking_cells :: "(material_id \<Rightarrow> bool) \<Rightarrow> block_view \<Rightarrow> nat" where
  "view_blocking_cells passable (WUniform m) =
     (if is_air m \<or> passable m then 0 else SUBNODES_PER_BLOCK)"
| "view_blocking_cells passable (WPartial m occ) =
     (if is_air m \<or> passable m then 0 else count_ones occ)"
| "view_blocking_cells passable (WMixed cs) =
     length (filter (\<lambda>m. \<not> is_air m \<and> \<not> passable m) cs)"

text \<open>For \<open>index < 27\<close>, the domain the code debug-asserts.\<close>

fun view_subnode :: "block_view \<Rightarrow> nat \<Rightarrow> material_id" where
  "view_subnode (WUniform m) index = m"
| "view_subnode (WPartial m occ) index = (if occ AND push_bit index 1 \<noteq> 0 then m else AIR)"
| "view_subnode (WMixed cs) index = cs ! index"

definition view_subnode_at :: "block_view \<Rightarrow> nat \<Rightarrow> nat \<Rightarrow> nat \<Rightarrow> material_id" where
  "view_subnode_at v x y z = view_subnode v (subnode_index x y z)"

fun view_cells :: "block_view \<Rightarrow> cells" where
  "view_cells (WUniform m) = replicate SUBNODES_PER_BLOCK m"
| "view_cells (WPartial m occ) = value_cells (view_to_value (WPartial m occ))"
| "view_cells (WMixed cs) = cs"

fun view_occupied_units :: "block_view \<Rightarrow> nat" where
  "view_occupied_units (WUniform m) = (if is_air m then 0 else UNITS_PER_BLOCK)"
| "view_occupied_units (WPartial _ occ) = count_ones occ"
| "view_occupied_units (WMixed cs) = length (filter (\<lambda>c. \<not> is_air c) cs)"

fun view_is_air :: "block_view \<Rightarrow> bool" where
  "view_is_air (WUniform m) = is_air m"
| "view_is_air _ = False"

section \<open>Well-formed values\<close>

text \<open>A \<open>Cells\<close> array has exactly 27 entries (its Rust type says so).\<close>

fun wf_value :: "block_value \<Rightarrow> bool" where
  "wf_value (VCells cs) \<longleftrightarrow> length cs = SUBNODES_PER_BLOCK"
| "wf_value _ \<longleftrightarrow> True"

section \<open>Sub-node indices\<close>

lemma subnode_index_less: "x < 3 \<Longrightarrow> y < 3 \<Longrightarrow> z < 3 \<Longrightarrow> subnode_index x y z < 27"
  by (simp add: subnode_index_def)

lemma subnode_offset_index:
  "x < 3 \<Longrightarrow> y < 3 \<Longrightarrow> z < 3 \<Longrightarrow> subnode_offset (subnode_index x y z) = (x, y, z)"
  using radix_mod [of x 3 y z] radix_div [of x 3 y z]
  by (simp add: subnode_index_def subnode_offset_def div_mult2_eq [of _ 3 3, simplified])

lemma subnode_index_offset: "subnode_offset i = (x, y, z) \<Longrightarrow> subnode_index x y z = i"
  using radix_recompose [of i 3] by (auto simp: subnode_index_def subnode_offset_def)

lemma subnode_offset_less: "i < 27 \<Longrightarrow> subnode_offset i = (x, y, z) \<Longrightarrow> x < 3 \<and> y < 3 \<and> z < 3"
  by (auto simp: subnode_offset_def intro: less_mult_imp_div_less)

section \<open>Masks\<close>

lemma and_exp_0_iff [simp]: "(occ :: u32) AND 2 ^ i = 0 \<longleftrightarrow> \<not> bit occ i"
  by (simp add: and_exp_eq_0_iff_not_bit)

lemma OCCUPANCY_FULL_mask: "OCCUPANCY_FULL = mask 27"
  by (simp add: OCCUPANCY_FULL_def mask_eq_exp_minus_1 push_bit_of_1)

lemma bit_OCCUPANCY_FULL [simp]: "bit OCCUPANCY_FULL i \<longleftrightarrow> i < 27"
  by (auto simp: OCCUPANCY_FULL_mask bit_mask_iff)

lemma partial_cells: "value_cells (VPartial m occ) = map (\<lambda>i. if bit occ i then m else AIR) [0..<27]"
  by (auto simp: EMPTY_CELLS_def enumerate_eq_zip intro!: nth_equalityI)

declare value_cells.simps(2) [simp del]

lemma length_value_cells [simp]: "wf_value v \<Longrightarrow> length (value_cells v) = 27"
  by (cases v) (auto simp: partial_cells)

lemma occupancy_nth: "i < 27 \<Longrightarrow> value_cells (VPartial m occ) ! i = (if bit occ i then m else AIR)"
  by (simp add: partial_cells)

section \<open>The canonicaliser\<close>

text \<open>The non-air materials of an array.\<close>

definition solids :: "cells \<Rightarrow> material_id set" where
  "solids cs = set cs - {AIR}"

lemma solids_Nil [simp]: "solids [] = {}"
  by (simp add: solids_def)

lemma solids_Cons [simp]: "solids (m # cs) = (if m = AIR then solids cs else insert m (solids cs))"
  by (auto simp: solids_def)

text \<open>At most one material is present.\<close>

definition single :: "'a set \<Rightarrow> bool" where
  "single A \<longleftrightarrow> (\<forall>a \<in> A. \<forall>b \<in> A. a = b)"

lemma single_insert: "single (insert a A) \<longleftrightarrow> A \<subseteq> {a}"
  by (auto simp: single_def)

lemma canonical_loop_None:
  "canonical_loop k cs solid occ = None \<longleftrightarrow> \<not> single (set_option solid \<union> solids cs)"
proof (induction k cs solid occ rule: canonical_loop.induct)
  case (1 index solid occupancy)
  then show ?case by (cases solid) (auto simp: single_def)
next
  case (2 index material rest solid occupancy)
  show ?case
  proof (cases "material = AIR")
    case True
    then show ?thesis using 2(1) by simp
  next
    case False
    show ?thesis
    proof (cases solid)
      case None
      with False 2(2) show ?thesis by (simp add: Let_def)
    next
      case (Some m)
      with False 2(3) show ?thesis by (simp add: Let_def single_insert)
    qed
  qed
qed

lemma nth_shift:
  "(index \<le> j \<and> j - index < length (x # xs) \<and> P ((x # xs) ! (j - index))) \<longleftrightarrow>
     (j = index \<and> P x \<or> Suc index \<le> j \<and> j - Suc index < length xs \<and> P (xs ! (j - Suc index)))"
proof (cases "j \<le> index")
  case False
  then have "j - index = Suc (j - Suc index)" by simp
  with False show ?thesis by auto
qed auto

lemma canonical_loop_Some:
  "canonical_loop k cs solid occ = Some (s, occ') \<Longrightarrow>
     set_option s = set_option solid \<union> solids cs \<and>
     (\<forall>j < 32. bit occ' j \<longleftrightarrow> bit occ j \<or> k \<le> j \<and> j - k < length cs \<and> cs ! (j - k) \<noteq> AIR)"
proof (induction k cs solid occ rule: canonical_loop.induct)
  case (1 index solid occupancy)
  then show ?case by auto
next
  case (2 index material rest solid occupancy)
  note shift = nth_shift [of index _ material rest "\<lambda>m. m \<noteq> AIR"]
  show ?case
  proof (cases "material = AIR")
    case True
    then show ?thesis using 2(1,4) unfolding shift by simp
  next
    case False
    show ?thesis
    proof (cases solid)
      case None
      then show ?thesis using False 2(2,4) unfolding shift
        by (auto simp: Let_def bit_or_iff bit_exp_iff)
    next
      case (Some m)
      then show ?thesis using False 2(3,4) unfolding shift
        by (auto simp: Let_def bit_or_iff bit_exp_iff split: if_splits)
    qed
  qed
qed

text \<open>The three outcomes of the canonicaliser on an array of 27 cells.\<close>

lemma canonical_cells_cases [consumes 1]:
  assumes "length cs = 27"
  obtains (mixed) "\<not> single (solids cs)" "canonical_cells cs = VCells cs"
    | (air) "solids cs = {}" "canonical_cells cs = VUniform AIR"
    | (one) m occ where "solids cs = {m}" "canonical_cells cs = canonical_partial m occ"
        "\<And>j. j < 32 \<Longrightarrow> bit occ j \<longleftrightarrow> j < 27 \<and> cs ! j \<noteq> AIR"
proof (cases "canonical_loop 0 cs None OCCUPANCY_EMPTY")
  case None
  then show ?thesis using canonical_loop_None [of 0 cs None OCCUPANCY_EMPTY]
    by (intro mixed) (simp_all add: canonical_cells_def)
next
  case (Some r)
  obtain s occ where r: "r = (s, occ)" by (cases r)
  have spec: "set_option s = solids cs"
    "\<forall>j < 32. bit occ j \<longleftrightarrow> j < 27 \<and> cs ! j \<noteq> AIR"
    using canonical_loop_Some [OF Some [unfolded r]] assms by simp_all
  show ?thesis
  proof (cases s)
    case None
    then show ?thesis using spec Some r by (intro air) (simp_all add: canonical_cells_def)
  next
    case (Some m)
    then show ?thesis using spec \<open>canonical_loop _ _ _ _ = _\<close> r
      by (intro one [of m occ]) (simp_all add: canonical_cells_def)
  qed
qed

lemma canonical_partial_cells: "value_cells (canonical_partial m occ) = value_cells (VPartial m occ)"
proof -
  have b: "bit (occ AND OCCUPANCY_FULL) i = bit occ i" if "i < 27" for i
    using that by (simp add: bit_and_iff)
  have "value_cells (VPartial m (occ AND OCCUPANCY_FULL)) = value_cells (VPartial m occ)"
    by (auto simp: partial_cells b)
  moreover have "value_cells (VPartial m occ) = replicate 27 m" if "occ AND OCCUPANCY_FULL = OCCUPANCY_FULL"
    using b unfolding that by (auto simp: partial_cells intro!: nth_equalityI)
  moreover have "value_cells (VPartial m occ) = replicate 27 AIR" if "m = AIR \<or> occ AND OCCUPANCY_FULL = 0"
    using that b by (auto simp: partial_cells intro!: nth_equalityI)
  ultimately show ?thesis by (auto simp: canonical_partial_def Let_def)
qed

lemma solids_single_nth: "solids cs = {m} \<Longrightarrow> i < length cs \<Longrightarrow> cs ! i \<noteq> AIR \<Longrightarrow> cs ! i = m"
  unfolding solids_def by (metis Diff_iff empty_iff insertE insert_iff nth_mem)

lemma canonical_cells_cells:
  assumes len: "length cs = 27"
  shows "value_cells (canonical_cells cs) = cs"
  using len
proof (cases rule: canonical_cells_cases)
  case (one m occ)
  have "value_cells (VPartial m occ) ! i = cs ! i" if "i < 27" for i
    using that one(3) [of i] solids_single_nth [OF one(1), of i] len by (auto simp: occupancy_nth)
  then show ?thesis using one(2) len
    by (auto simp: canonical_partial_cells intro!: nth_equalityI)
next
  case air
  have "cs ! i = AIR" if "i < 27" for i
    using air(1) that len by (metis Diff_eq_empty_iff nth_mem solids_def singletonD subsetD)
  then show ?thesis using air(2) len by (auto intro!: nth_equalityI)
qed auto

text \<open>The canonical form depends on the contents only.\<close>

lemma solids_replicate: "solids (replicate 27 m) = (if m = AIR then {} else {m})"
  by (auto simp: solids_def)

lemma canonical_partial_mask:
  assumes "\<And>j. j < 27 \<Longrightarrow> bit occ j = bit occ' j"
  shows "canonical_partial m occ = canonical_partial m occ'"
proof -
  have "occ AND OCCUPANCY_FULL = occ' AND OCCUPANCY_FULL"
    by (rule bit_word_eqI) (auto simp: bit_and_iff assms)
  then show ?thesis by (simp add: canonical_partial_def)
qed

lemma canonical_eq_cells: "wf_value v \<Longrightarrow> canonical v = canonical_cells (value_cells v)"
proof (cases v)
  case (VUniform m)
  have len: "length (replicate 27 m) = 27" by simp
  from len show ?thesis
  proof (cases rule: canonical_cells_cases)
    case (one n occ)
    then have "n = m" "m \<noteq> AIR" by (auto simp: solids_replicate split: if_splits)
    moreover have "canonical_partial m occ = canonical_partial m OCCUPANCY_FULL"
      by (rule canonical_partial_mask) (use one(3) \<open>m \<noteq> AIR\<close> in auto)
    moreover have "OCCUPANCY_FULL \<noteq> 0" by (metis bit_0_eq bit_OCCUPANCY_FULL bot_apply bot_bool_def zero_less_numeral)
    ultimately show ?thesis using one(2) VUniform by (simp add: canonical_partial_def Let_def)
  qed (auto simp: VUniform solids_replicate single_def split: if_splits)
next
  case (VPartial m occ)
  have len: "length (value_cells v) = 27" using VPartial by simp
  have sub: "solids (value_cells v) \<subseteq> {m}" by (auto simp: VPartial partial_cells solids_def)
  from len show ?thesis
  proof (cases rule: canonical_cells_cases)
    case mixed
    then show ?thesis using sub by (auto simp: single_def)
  next
    case air
    have "m \<in> set (value_cells v)" if "j < 27" "bit occ j" for j
      using that by (auto simp: VPartial partial_cells image_iff intro!: bexI [of _ j])
    then have "m = AIR \<or> (\<forall>j < 27. \<not> bit occ j)"
      using air(1) unfolding solids_def by blast
    then have "m = AIR \<or> canonical_partial m occ = canonical_partial m 0"
      by (auto intro: canonical_partial_mask)
    then show ?thesis using air(2) VPartial by (auto simp: canonical_partial_def Let_def split: if_splits)
  next
    case (one n occ')
    then have n: "n = m" "m \<noteq> AIR" using sub by (auto simp: solids_def)
    have "canonical_partial m occ = canonical_partial m occ'"
      by (rule canonical_partial_mask) (use one(3) n in \<open>auto simp: VPartial occupancy_nth\<close>)
    then show ?thesis using one(2) VPartial n by simp
  qed
qed simp

lemma wf_canonical_cells: "length cs = 27 \<Longrightarrow> wf_value (canonical_cells cs)"
  by (cases rule: canonical_cells_cases) (auto simp: canonical_partial_def Let_def)

lemma wf_canonical [simp]: "wf_value v \<Longrightarrow> wf_value (canonical v)"
  by (simp add: canonical_eq_cells wf_canonical_cells)

lemma canonical_value_cells: "wf_value v \<Longrightarrow> value_cells (canonical v) = value_cells v"
  by (simp add: canonical_eq_cells canonical_cells_cells)

lemma canonical_idem: "wf_value v \<Longrightarrow> canonical (canonical v) = canonical v"
  by (metis canonical_eq_cells canonical_value_cells wf_canonical)

lemma canonical_unique:
  "wf_value v \<Longrightarrow> wf_value w \<Longrightarrow> canonical v = canonical w \<longleftrightarrow> value_cells v = value_cells w"
  by (metis canonical_eq_cells canonical_value_cells)

text \<open>Counting: the units of a value are its non-air cells, for every canonical value.\<close>

definition solid_count :: "cells \<Rightarrow> nat" where
  "solid_count cs = length (filter (\<lambda>m. m \<noteq> AIR) cs)"

lemma solid_count_replicate [simp]: "solid_count (replicate n m) = (if m = AIR then 0 else n)"
  by (simp add: solid_count_def)

lemma solid_count_le: "solid_count cs \<le> length cs"
  by (simp add: solid_count_def)

lemma count_ones_27:
  "count_ones (occ AND OCCUPANCY_FULL) = length (filter (bit occ) [0..<27])"
proof -
  have "[0..<32] = [0..<27] @ [27..<(32::nat)]" by (simp add: upt_add_eq_append [of 0 27 5, simplified])
  moreover have "filter (bit (occ AND OCCUPANCY_FULL)) [0..<27] = filter (bit occ) [0..<27]"
    by (rule filter_cong) (simp_all add: bit_and_iff)
  ultimately show ?thesis by (simp add: count_ones_def bit_and_iff del: upt_rec_numeral)
qed

lemma solid_count_partial:
  "solid_count (value_cells (VPartial m occ)) = (if m = AIR then 0 else count_ones (occ AND OCCUPANCY_FULL))"
  by (simp add: solid_count_def partial_cells count_ones_27 filter_map o_def if_distrib
      cong: filter_cong)

lemma canonical_partial_occupancy:
  assumes "canonical (VPartial m occ) = VPartial m occ"
  shows "m \<noteq> AIR" and "occ AND OCCUPANCY_FULL = occ" and "occ \<noteq> 0" and "occ \<noteq> OCCUPANCY_FULL"
  using assms by (auto simp: canonical_partial_def Let_def split: if_splits)

lemma value_occupied_units_canonical:
  assumes "is_canonical v"
  shows "value_occupied_units v = solid_count (value_cells v)"
proof (cases v)
  case (VPartial m occ)
  then show ?thesis using assms canonical_partial_occupancy [of m occ]
    by (simp add: is_canonical_def solid_count_partial)
qed (auto simp: solid_count_def)

text \<open>Views and values describe the same contents.\<close>

lemma view_cells_value_cells [simp]: "view_cells w = value_cells (view_to_value w)"
  by (cases w) auto

lemma view_to_value_view [simp]: "view_to_value (value_view v) = v"
  by (cases v) auto

lemma view_subnode_cells: "i < 27 \<Longrightarrow> view_subnode w i = view_cells w ! i"
  by (cases w) (auto simp: occupancy_nth)

lemma view_counts_canonical:
  assumes "is_canonical (view_to_value w)"
  shows "view_filled_cells w = solid_count (view_cells w)"
    and "view_occupied_units w = solid_count (view_cells w)"
proof -
  have "view_filled_cells w = solid_count (view_cells w) \<and>
    view_occupied_units w = solid_count (view_cells w)"
  proof (cases w)
    case (WPartial m occ)
    then show ?thesis using assms canonical_partial_occupancy [of m occ]
      by (simp add: is_canonical_def solid_count_partial)
  qed (auto simp: solid_count_def)
  then show "view_filled_cells w = solid_count (view_cells w)"
    and "view_occupied_units w = solid_count (view_cells w)" by simp_all
qed

lemma view_is_empty_iff:
  assumes "is_canonical (view_to_value w)"
  shows "view_is_empty w \<longleftrightarrow> solid_count (view_cells w) = 0"
proof (cases w)
  case (WPartial m occ)
  then show ?thesis using assms canonical_partial_occupancy [of m occ]
    by (simp add: is_canonical_def solid_count_partial)
qed (auto simp: solid_count_def filter_empty_conv list_all_iff)

end
