(* ===== verification/Light.thy ===== *)
theory Light
  imports Block
begin

text \<open>
  Light levels and face permeability, from \<^verbatim>\<open>crates/core/src/light/mod.rs\<close>: four 4-bit channels
  packed in a \<open>u16\<close>, and the rule that light passes a face of a block exactly when the 3x3 layer
  of cells at that face is not fully occupied.
\<close>

type_synonym light = u16
type_synonym faces = u8

definition MAX_LEVEL :: u8 where [simp]: "MAX_LEVEL = 15"
definition ATTENUATION :: u8 where [simp]: "ATTENUATION = 1"
definition FACE_COUNT :: nat where [simp]: "FACE_COUNT = 6"
definition CHANNELS :: nat where [simp]: "CHANNELS = 4"

definition face_negative :: "nat \<Rightarrow> nat" where "face_negative axis = axis * 2"
definition face_positive :: "nat \<Rightarrow> nat" where "face_positive axis = axis * 2 + 1"

definition face_offset :: "nat \<Rightarrow> int list" where
  "face_offset face =
     (let axis = face div 2; step = (if face mod 2 = 0 then - 1 else 1)
      in [0, 0, 0][axis := step])"

definition opposite :: "nat \<Rightarrow> nat" where
  "opposite face = face XOR 1"

section \<open>Packed levels\<close>

definition light_clamp :: "u8 \<Rightarrow> u8" where
  "light_clamp level = (if level > MAX_LEVEL then MAX_LEVEL else level)"

definition light_new :: "u8 \<Rightarrow> u8 \<Rightarrow> u8 \<Rightarrow> u8 \<Rightarrow> light" where
  "light_new sun red green blue =
     push_bit 12 (ucast (light_clamp sun)) OR push_bit 8 (ucast (light_clamp red)) OR
     push_bit 4 (ucast (light_clamp green)) OR ucast (light_clamp blue)"

definition DARK :: light where [simp]: "DARK = 0"
definition DAYLIGHT :: light where "DAYLIGHT = light_new MAX_LEVEL 0 0 0"

definition light_sun :: "light \<Rightarrow> u8" where "light_sun l = ucast (drop_bit 12 l)"
definition light_red :: "light \<Rightarrow> u8" where "light_red l = ucast (drop_bit 8 l AND 0xF)"
definition light_green :: "light \<Rightarrow> u8" where "light_green l = ucast (drop_bit 4 l AND 0xF)"
definition light_blue :: "light \<Rightarrow> u8" where "light_blue l = ucast (l AND 0xF)"

definition light_channel :: "light \<Rightarrow> nat \<Rightarrow> u8" where
  "light_channel l channel = ucast (drop_bit (12 - channel * 4) l AND 0xF)"

definition with_channel :: "light \<Rightarrow> nat \<Rightarrow> u8 \<Rightarrow> light" where
  "with_channel l channel level =
     (let level' = (if level > MAX_LEVEL then MAX_LEVEL else level);
          shift = 12 - channel * 4
      in (l AND NOT (push_bit shift 0xF)) OR push_bit shift (ucast level'))"

definition is_dark :: "light \<Rightarrow> bool" where
  "is_dark l \<longleftrightarrow> l = 0"

definition light_max :: "light \<Rightarrow> light \<Rightarrow> light" where
  "light_max a b =
     fold (\<lambda>channel out. with_channel out channel (max (light_channel a channel) (light_channel b channel)))
       [0..<CHANNELS] DARK"

section \<open>Faces\<close>

definition OPAQUE :: faces where "OPAQUE = 0"
definition OPEN :: faces where "OPEN = 0b00111111"

definition passes :: "faces \<Rightarrow> nat \<Rightarrow> bool" where
  "passes f face \<longleftrightarrow> f AND push_bit face 1 \<noteq> 0"

definition layer_is_full :: "block_view \<Rightarrow> nat \<Rightarrow> bool" where
  "layer_is_full block face =
     (let axis = face div 2; fixed = (if face mod 2 = 0 then 0 else 2)
      in \<forall>a \<in> set [0..<3]. \<forall>b \<in> set [0..<3].
           (let (x, y, z) = (if axis = 0 then (fixed, a, b)
                             else if axis = 1 then (a, fixed, b) else (a, b, fixed))
            in view_subnode block (subnode_index x y z) \<noteq> AIR))"

definition permeability :: "block_view \<Rightarrow> faces" where
  "permeability block =
     (case block of
        WUniform material \<Rightarrow> if is_air material then OPEN else OPAQUE
      | _ \<Rightarrow> fold (\<lambda>face bits. if \<not> layer_is_full block face then bits OR push_bit face 1 else bits)
               [0..<FACE_COUNT] 0)"

section \<open>Lemmas on levels\<close>

lemma bit_0xF [simp]: "bit (15 :: 'a::len word) i \<longleftrightarrow> i < LENGTH('a) \<and> i < 4"
proof -
  have eq: "(15 :: 'a word) = mask 4" by (simp add: mask_eq_exp_minus_1)
  show ?thesis unfolding eq bit_mask_iff by auto
qed

lemma bit_0xF_int [simp]: "bit (15 :: int) i \<longleftrightarrow> i < 4"
proof -
  have eq: "(15 :: int) = mask 4" by (simp add: mask_eq_exp_minus_1)
  show ?thesis unfolding eq bit_mask_iff by auto
qed

lemma bit_OPEN: "bit OPEN i \<longleftrightarrow> i < 6"
proof -
  have eq: "OPEN = mask 6" by (simp add: OPEN_def mask_eq_exp_minus_1)
  show ?thesis unfolding eq bit_mask_iff by auto
qed

lemma bit_light_channel:
  "c < 4 \<Longrightarrow> bit (light_channel l c) j \<longleftrightarrow> j < 4 \<and> bit l (12 - c * 4 + j)"
  by (auto simp: light_channel_def bit_and_iff bit_ucast_iff bit_drop_bit_eq)

lemma light_channel_sun: "light_channel l 0 = light_sun l"
  by (rule bit_word_eqI)
    (auto simp: light_channel_def light_sun_def bit_and_iff bit_ucast_iff bit_drop_bit_eq
      dest: bit_imp_le_length)

lemma light_channel_colours:
  "light_channel l 1 = light_red l" "light_channel l 2 = light_green l" "light_channel l 3 = light_blue l"
  by (simp_all add: light_channel_def light_red_def light_green_def light_blue_def)

lemma light_clamp_bit: "bit (light_clamp v) j \<Longrightarrow> j < 4"
proof -
  have "unat (light_clamp v) \<le> 15"
    by (auto simp: light_clamp_def word_less_nat_alt)
  then have "unat (light_clamp v) < 2 ^ 4" by simp
  then have "take_bit 4 (unat (light_clamp v)) = unat (light_clamp v)"
    by (simp add: take_bit_nat_eq_self)
  moreover assume "bit (light_clamp v) j"
  then have "bit (unat (light_clamp v)) j" by (simp add: bit_unsigned_iff)
  ultimately show ?thesis by (metis bit_take_bit_iff)
qed

lemma bit_with_channel:
  assumes "c < 4"
  shows "bit (with_channel l c v) i \<longleftrightarrow> i < 16 \<and>
    (if 12 - c * 4 \<le> i \<and> i < 12 - c * 4 + 4 then bit (light_clamp v) (i - (12 - c * 4)) else bit l i)"
proof -
  have "with_channel l c v =
      (l AND NOT (push_bit (12 - c * 4) 0xF)) OR push_bit (12 - c * 4) (ucast (light_clamp v))"
    by (simp add: with_channel_def light_clamp_def Let_def)
  then show ?thesis using light_clamp_bit [of v "i - (12 - c * 4)"]
    by (auto simp: bit_or_iff bit_and_iff bit_not_iff bit_push_bit_iff bit_ucast_iff
        dest: bit_imp_le_length)
qed

lemma channel_with_channel:
  assumes c: "c < 4" and d: "d < 4"
  shows "light_channel (with_channel l c v) d = (if d = c then light_clamp v else light_channel l d)"
proof (cases "d = c")
  case True
  have "bit (light_channel (with_channel l c v) c) j = bit (light_clamp v) j" for j
  proof -
    define s where "s = 12 - c * 4"
    have "s \<le> 12" by (simp add: s_def)
    then show ?thesis
      using light_clamp_bit [of v j]
      unfolding bit_light_channel [OF c] bit_with_channel [OF c] s_def [symmetric] by auto
  qed
  with True show ?thesis by (simp add: bit_word_eqI)
next
  case False
  have "\<not> (12 - c * 4 \<le> 12 - d * 4 + j \<and> 12 - d * 4 + j < 12 - c * 4 + 4)" if "j < 4" for j
    using False c d that by linarith
  moreover have "12 - d * 4 + j < 16" if "j < 4" for j using that by linarith
  ultimately have "bit (light_channel (with_channel l c v) d) j = bit (light_channel l d) j" for j
    unfolding bit_light_channel [OF d] bit_with_channel [OF c] by auto
  with False show ?thesis by (simp add: bit_word_eqI)
qed

text \<open>A level is determined by its four channels.\<close>

lemma light_eqI:
  assumes "\<And>c. c < 4 \<Longrightarrow> light_channel a c = light_channel b c"
  shows "a = b"
proof (rule bit_word_eqI)
  fix i :: nat assume "i < LENGTH(16)"
  then have i: "i < 16" by simp
  define c where "c = 3 - i div 4"
  have c: "c < 4" by (simp add: c_def)
  have "i div 4 \<le> 3" using i by (simp add: less_Suc_eq_le div_le_mono [of i 15 4, simplified])
  then have "12 - c * 4 = 4 * (i div 4)" by (simp add: c_def)
  then have i: "12 - c * 4 + i mod 4 = i" by simp
  have "bit (light_channel a c) (i mod 4) = bit (light_channel b c) (i mod 4)"
    using assms [OF c] by simp
  then show "bit a i = bit b i" by (simp add: bit_light_channel [OF c] i)
qed

lemma light_clamp_channel: "c < 4 \<Longrightarrow> light_clamp (light_channel l c) = light_channel l c"
proof -
  assume c: "c < 4"
  have "take_bit 4 (light_channel l c) = light_channel l c"
    by (rule bit_word_eqI) (auto simp: bit_take_bit_iff bit_light_channel [OF c])
  then have "light_channel l c = light_channel l c AND 15"
    by (simp add: take_bit_eq_mask mask_eq_exp_minus_1)
  then have "light_channel l c \<le> 15" by (metis word_and_le1)
  then show ?thesis by (auto simp: light_clamp_def)
qed

lemma channel_light_max:
  assumes "c < 4"
  shows "light_channel (light_max a b) c = max (light_channel a c) (light_channel b c)"
proof -
  have clamp: "light_clamp (max (light_channel a c) (light_channel b c)) =
      max (light_channel a c) (light_channel b c)"
    using light_clamp_channel [OF assms, of a] light_clamp_channel [OF assms, of b]
    by (simp add: max_def)
  have "c = 0 \<or> c = 1 \<or> c = 2 \<or> c = 3" using assms by linarith
  then show ?thesis using clamp
    by (auto simp: light_max_def upt_rec numeral_eq_Suc channel_with_channel)
qed

section \<open>Lemmas on faces\<close>

lemma permeability_Uniform:
  "permeability (WUniform m) = (if m = AIR then OPEN else OPAQUE)"
  by (simp add: permeability_def)

lemma fold_set_bits:
  "bit (fold (\<lambda>i bits. if P i then bits OR push_bit i 1 else bits) is (w :: u8)) j \<longleftrightarrow>
     bit w j \<or> j < 8 \<and> j \<in> set is \<and> P j"
  by (induction "is" arbitrary: w) (auto simp: bit_or_iff bit_exp_iff)

text \<open>The rule, for every form of block: a face passes iff its layer is not full. The
  \<open>Uniform\<close> shortcut agrees with the face test.\<close>

lemma layer_is_full_cells:
  "layer_is_full block face \<longleftrightarrow>
     (\<forall>a < 3. \<forall>b < 3.
        (let (x, y, z) = (if face div 2 = 0 then (if even face then 0 else 2, a, b)
                          else if face div 2 = 1 then (a, if even face then 0 else 2, b)
                          else (a, b, if even face then 0 else 2))
         in view_cells block ! subnode_index x y z \<noteq> AIR))"
proof -
  have "subnode_index x y z < 27" if "x < 3" "y < 3" "z < 3" for x y z
    using subnode_index_less that by blast
  then show ?thesis
    unfolding layer_is_full_def Let_def
    by (auto simp: view_subnode_cells even_iff_mod_2_eq_zero simp del: view_cells_value_cells)
qed

lemma layer_full_uniform: "layer_is_full (WUniform m) face \<longleftrightarrow> m \<noteq> AIR"
proof
  assume "layer_is_full (WUniform m) face"
  then have "\<forall>a \<in> set [0..<3]. \<forall>b \<in> set [0..<(3::nat)]. m \<noteq> AIR"
    by (simp add: layer_is_full_def Let_def split: prod.splits)
  moreover have "(0::nat) \<in> set [0..<3]" by simp
  ultimately show "m \<noteq> AIR" by blast
qed (simp add: layer_is_full_def Let_def split: prod.splits)

lemma passes_bit: "passes f face \<longleftrightarrow> bit f face"
  by (simp add: passes_def and_exp_eq_0_iff_not_bit)

lemma passes_fold:
  assumes "face < 6"
  shows "passes (fold (\<lambda>face bits. if \<not> layer_is_full block face then bits OR push_bit face 1 else bits)
      [0..<FACE_COUNT] 0) face \<longleftrightarrow> \<not> layer_is_full block face"
  unfolding passes_bit fold_set_bits using assms by simp

lemma passes_permeability:
  assumes "face < 6"
  shows "passes (permeability block) face \<longleftrightarrow> \<not> layer_is_full block face"
proof (cases block)
  case (WUniform m)
  have "passes OPEN face" using assms by (simp add: passes_bit bit_OPEN)
  moreover have "\<not> passes OPAQUE face" by (simp add: passes_bit OPAQUE_def)
  ultimately show ?thesis unfolding WUniform permeability_Uniform layer_full_uniform by simp
next
  case (WPartial m occ)
  then show ?thesis using passes_fold [OF assms, of block] by (simp add: permeability_def)
next
  case (WMixed cs)
  then show ?thesis using passes_fold [OF assms, of block] by (simp add: permeability_def)
qed

text \<open>Permeability depends on the contents alone, whatever form they are stored in.\<close>

lemma bit_permeability_ge: "6 \<le> j \<Longrightarrow> \<not> bit (permeability block) j"
proof (cases block)
  case (WUniform m)
  assume "6 \<le> j"
  then show ?thesis by (simp add: WUniform permeability_Uniform OPAQUE_def bit_OPEN)
qed (simp_all add: permeability_def fold_set_bits del: push_bit_of_1 upt_rec_numeral)

lemma permeability_cells:
  assumes "view_cells a = view_cells b"
  shows "permeability a = permeability b"
proof (rule bit_word_eqI)
  fix j :: nat
  have "layer_is_full a j = layer_is_full b j" using assms by (simp only: layer_is_full_cells)
  then show "bit (permeability a) j = bit (permeability b) j"
    using passes_permeability [of j a] passes_permeability [of j b] bit_permeability_ge [of j]
    by (cases "j < 6") (auto simp: passes_bit)
qed

end
