(* ===== verification/Foundations.thy ===== *)
theory Foundations
  imports Coords Bitpack Material Light
begin

text \<open>
  The properties of the data the engine is built on: coordinates, packed arrays, the material
  registry, block values and light levels.
\<close>

section \<open>Coordinates\<close>

lemma div_mod_int16: "16 * (x div 16) + int (nat (x mod 16)) = (x :: int)"
  by simp

lemma in_world_i32:
  "in_extent 3750 x y z \<Longrightarrow> i32 (x * 16) = x * 16 \<and> i32 (y * 16) = y * 16 \<and> i32 (z * 16) = z * 16"
  by (simp add: in_extent_def i32_lit)

lemma extent_16: "(- 60000 \<le> x \<and> x < 60000) \<longleftrightarrow> (- 3750 \<le> x div 16 \<and> x div 16 < 3750)" for x :: int
  by linarith

lemma extent_3: "(- 180000 \<le> x \<and> x < 180000) \<longleftrightarrow> (- 60000 \<le> x div 3 \<and> x div 3 < 60000)" for x :: int
  by linarith

text \<open>
  C32. A block of the world is its chunk's corner plus its local offset, its chunk lies in the world
  and its offset is in range.
\<close>

theorem block_decomposition:
  assumes "block_in_world b"
  shows "bp_x b = bp_x (from_chunk_corner (block_chunk b)) + int (lb_x (block_local b)) \<and>
    bp_y b = bp_y (from_chunk_corner (block_chunk b)) + int (lb_y (block_local b)) \<and>
    bp_z b = bp_z (from_chunk_corner (block_chunk b)) + int (lb_z (block_local b)) \<and>
    chunk_in_world (block_chunk b) \<and> local_valid (block_local b)"
proof (cases b)
  case (BlockPos x y z)
  have ext: "in_extent 3750 (x div 16) (y div 16) (z div 16)"
    using assms extent_16 [of x] extent_16 [of y] extent_16 [of z]
    by (simp add: BlockPos in_extent_def)
  then show ?thesis using in_world_i32 [OF ext] by (simp add: BlockPos nat_less_iff)
qed

theorem block_decomposition_witness:
  "bp_x (BlockPos (-17) 5 100) = bp_x (from_chunk_corner (block_chunk (BlockPos (-17) 5 100))) +
     int (lb_x (block_local (BlockPos (-17) 5 100))) \<and> block_chunk (BlockPos (-17) 5 100) = ChunkPos (-2) 0 6"
  using block_decomposition [of "BlockPos (-17) 5 100"] by (simp add: in_extent_def)

text \<open>
  C33. The three resolutions agree on the world: a sub-node is in the world exactly when its block
  is, a block exactly when its chunk is, and a sub-node's chunk is the chunk of its block.
\<close>

theorem resolutions_agree:
  "(subnode_in_world p \<longleftrightarrow> block_in_world (subnode_block p)) \<and>
   (block_in_world b \<longleftrightarrow> chunk_in_world (block_chunk b)) \<and>
   block_chunk (subnode_block p) = subnode_chunk p"
proof (intro conjI)
  obtain x y z where b: "b = BlockPos x y z" by (cases b)
  show "block_in_world b \<longleftrightarrow> chunk_in_world (block_chunk b)"
    using extent_16 [of x] extent_16 [of y] extent_16 [of z]
    by (simp add: b in_extent_def) blast
  obtain u v w where p: "p = SubNodePos u v w" by (cases p)
  show "subnode_in_world p \<longleftrightarrow> block_in_world (subnode_block p)"
    using extent_3 [of u] extent_3 [of v] extent_3 [of w]
    by (simp add: p in_extent_def) blast
qed (rule subnode_chunk_block)

text \<open>
  The sub-node of a block of the world at an offset in \<open>0..3\<close> lies in that block, at that offset.
\<close>

theorem subnode_of_block_round_trip:
  assumes "block_in_world b" and "dx < 3" and "dy < 3" and "dz < 3"
  shows "subnode_block (block_subnode b (int dx) (int dy) (int dz)) = b \<and>
    subnode_local (block_subnode b (int dx) (int dy) (int dz)) = (dx, dy, dz) \<and>
    subnode_in_world (block_subnode b (int dx) (int dy) (int dz))"
proof (cases b)
  case (BlockPos x y z)
  have ax: "i32 (i32 (v * 3) + int d) = v * 3 + int d \<and> (v * 3 + int d) div 3 = v \<and> nat ((v * 3 + int d) mod 3) = d \<and>
      - 180000 \<le> v * 3 + int d \<and> v * 3 + int d < 180000"
    if "- 60000 \<le> v" "v < 60000" "d < 3" for v :: int and d :: nat
  proof -
    have "i32 (v * 3) = v * 3" using that by (intro i32_lit) linarith+
    moreover have "i32 (v * 3 + int d) = v * 3 + int d" using that by (intro i32_lit) linarith+
    ultimately show ?thesis using that by simp
  qed
  show ?thesis using assms ax [of x dx] ax [of y dy] ax [of z dz] by (simp add: BlockPos in_extent_def)
qed

theorem subnode_of_block_round_trip_witness:
  "subnode_block (block_subnode (BlockPos (-60000) 0 59999) 2 1 0) = BlockPos (-60000) 0 59999"
  using subnode_of_block_round_trip [of "BlockPos (-60000) 0 59999" 2 1 0] by (simp add: in_extent_def)

section \<open>Packed arrays\<close>

text \<open>
  \<open>bits_for\<close> is the least width whose codes can name every one of the given number of values.
\<close>

theorem bits_for_is_least:
  assumes "n \<le> 2 ^ 64"
  shows "n \<le> 2 ^ bits_for n \<and> (\<forall>b. n \<le> 2 ^ b \<longrightarrow> bits_for n \<le> b)"
  using bits_for_enough [OF assms] bits_for_least [OF assms] by blast

theorem bits_for_is_least_witness: "(257 :: nat) \<le> 2 ^ bits_for 257 \<and> bits_for 257 \<le> 9"
  using bits_for_is_least [of 257] by simp

text \<open>
  C34. A write to a packed array succeeds exactly for an index in range and a value that fits; it then
  reads back, and every other entry, even one sharing a word with it, is unchanged.
\<close>

theorem packed_write_read:
  assumes "ba_inv a"
  shows "if i < ba_len a \<and> v < 2 ^ bits_per_entry a
    then \<exists>a'. ba_set a i v = Some a' \<and> ba_inv a' \<and> ba_len a' = ba_len a \<and>
      (\<forall>j < ba_len a. ba_get a' j = (if j = i then Some v else ba_get a j))
    else ba_set a i v = None"
proof (cases "i < ba_len a \<and> v < 2 ^ bits_per_entry a")
  case True
  then show ?thesis using bitarr.put_in_range [OF assms] by fastforce
next
  case False
  moreover have "bits_per_entry a \<le> 16" using assms by (simp add: ba_inv_def)
  ultimately have "\<not> (i < ba_len a \<and> v \<le> unat (entry_mask (bits_per_entry a)))" using le_entry_mask by blast
  then have "ba_set a i v = None" unfolding ba_set_def Let_def by (simp only: if_False)
  then show ?thesis using False by simp
qed

theorem packed_write_read_witness:
  "\<exists>a a'. ba_new 100 5 = Some a \<and> ba_set a 12 21 = Some a' \<and> ba_get a' 12 = Some 21 \<and> ba_get a' 13 = ba_get a 13"
proof -
  obtain a where a: "ba_new 100 5 = Some a" "ba_inv a" "ba_len a = 100" "bits_per_entry a = 5"
    using ba_new_correct [of 5 100] by auto
  from packed_write_read [OF a(2), of 12 21] show ?thesis using a by auto
qed

text \<open>
  Resizing a packed array to a width every value fits keeps every value.
\<close>

theorem resize_keeps_values:
  assumes "ba_inv a" and "bits \<le> 16" and "\<forall>v \<in> set (ba_list a). v < 2 ^ bits"
  shows "\<exists>a'. ba_resized a bits = Some a' \<and> ba_inv a' \<and> bits_per_entry a' = bits \<and>
    (\<forall>i < ba_len a. ba_get a' i = ba_get a i)"
  using ba_resized_correct [OF assms] ba_get_list assms(1) by (metis length_ba_list)

theorem resize_keeps_values_witness:
  "\<exists>a a'. ba_new 70 3 = Some a \<and> ba_resized a 7 = Some a' \<and> ba_get a' 21 = ba_get a 21"
proof -
  obtain a where a: "ba_new 70 3 = Some a" "ba_inv a" "ba_len a = 70" using ba_new_correct [of 3 70] by auto
  have "\<forall>v \<in> set (ba_list a). v < 2 ^ 7" using ba_new_zero [OF a(1)] by simp
  from resize_keeps_values [OF a(2) _ this] show ?thesis using a by auto
qed


section \<open>Materials\<close>

text \<open>
  C36. Registering a name keeps the registry's invariant and has one of four outcomes: a name already
  registered gets the id it has, a reserved name and a full registry are refused without a change,
  and a new name gets the next id, which then resolves both ways.
\<close>

theorem register_outcome:
  assumes "registry_inv r"
  shows "registry_inv (snd (register r name)) \<and>
    (case id_of r name of
       Some i \<Rightarrow> register r name = ((if i = AIR \<or> i = UNKNOWN then Inl (Reserved name) else Inr i), r)
     | None \<Rightarrow>
         if length (reg_names r) = MAX_MATERIALS then register r name = (Inl (Exhausted MAX_MATERIALS), r)
         else \<exists>i r'. register r name = (Inr i, r') \<and> unat i = length (reg_names r) \<and>
           id_of r' name = Some i \<and> name_of r' i = Some name)"
proof (cases "id_of r name")
  case (Some i)
  then show ?thesis using registry_inv_register [OF assms, of name] by (simp add: register_def id_of_def)
next
  case None
  show ?thesis
  proof (cases "length (reg_names r) = MAX_MATERIALS")
    case True
    then show ?thesis using None assms registry_inv_register [OF assms, of name]
      by (simp add: register_def id_of_def)
  next
    case False
    then have lt: "length (reg_names r) < MAX_MATERIALS" using assms by (simp add: registry_inv_def)
    then have "unat (of_nat (length (reg_names r)) :: u16) = length (reg_names r)"
      by (intro unat_of_nat_u16) simp
    then show ?thesis using None False lt registry_inv_register [OF assms, of name]
      by (simp add: register_def id_of_def name_of_def Let_def)
  qed
qed

theorem register_outcome_witness:
  "\<exists>i r'. register registry_new ''core:stone'' = (Inr i, r') \<and> unat i = 2 \<and> name_of r' i = Some ''core:stone''"
proof -
  have "id_of registry_new ''core:stone'' = None" "length (reg_names registry_new) = 2"
    by (simp_all add: id_of_def registry_new_def AIR_NAME_def UNKNOWN_NAME_def)
  then show ?thesis using register_outcome [OF registry_inv_new, of "''core:stone''"] by auto
qed

text \<open>
  C37. However many names are registered afterwards, an id keeps the name it was issued for, no two
  ids share a name, and names and ids resolve to each other.
\<close>

theorem ids_stable:
  assumes "registry_inv r" and "name_of r i = Some n"
  shows "let r' = fold (\<lambda>name r. snd (register r name)) names r
    in name_of r' i = Some n \<and> id_of r' n = Some i \<and> (\<forall>j. name_of r' j = Some n \<longrightarrow> j = i)"
proof -
  let ?r = "fold (\<lambda>name r. snd (register r name)) names r"
  have "registry_inv ?r \<and> name_of ?r i = Some n"
    using assms by (induction names arbitrary: r) (auto intro: registry_inv_register register_keeps_names)
  then show ?thesis using registry_name_inj [of ?r] by (auto simp: registry_inv_def id_of_def Let_def)
qed

theorem ids_stable_witness:
  "name_of (fold (\<lambda>name r. snd (register r name)) [''a:b'', ''c:d''] registry_new) UNKNOWN = Some UNKNOWN_NAME"
proof -
  have "name_of registry_new UNKNOWN = Some UNKNOWN_NAME"
    by (simp add: name_of_def registry_new_def UNKNOWN_def)
  from ids_stable [OF registry_inv_new this, of "[''a:b'', ''c:d'']"] show ?thesis by (simp add: Let_def)
qed

section \<open>Block values\<close>

text \<open>
  C38. Canonical form is unique: two values have the same canonical form exactly when they describe
  the same 27 cells.
\<close>

theorem canonical_form_unique:
  assumes "wf_value v" and "wf_value w"
  shows "canonical v = canonical w \<longleftrightarrow> value_cells v = value_cells w"
  using canonical_unique [OF assms] .

theorem canonical_form_unique_witness:
  "canonical (VPartial 5 0x7FFFFFF) = canonical (VCells (replicate 27 5))"
proof -
  have "value_cells (VPartial 5 0x7FFFFFF) = value_cells (VCells (replicate 27 5))" by code_simp
  then show ?thesis using canonical_form_unique [of "VPartial 5 0x7FFFFFF" "VCells (replicate 27 5)"] by simp
qed

text \<open>
  C39. Canonicalising keeps the cells, is idempotent, and makes the unit count the number of non-air
  cells.
\<close>

theorem canonical_preserves:
  assumes "wf_value v"
  shows "value_cells (canonical v) = value_cells v \<and> is_canonical (canonical v) \<and>
    value_occupied_units (canonical v) = length (filter (\<lambda>m. m \<noteq> AIR) (value_cells v))"
proof -
  have "is_canonical (canonical v)" using canonical_idem [OF assms] by (simp add: is_canonical_def)
  then show ?thesis
    using value_occupied_units_canonical [of "canonical v"] canonical_value_cells [OF assms]
    by (simp add: solid_count_def)
qed

theorem canonical_preserves_witness: "value_occupied_units (canonical (VPartial 3 0b10110)) = 3"
proof -
  have "length (filter (\<lambda>m. m \<noteq> AIR) (value_cells (VPartial 3 0b10110))) = 3" by code_simp
  then show ?thesis using canonical_preserves [of "VPartial 3 0b10110"] by simp
qed

section \<open>Light\<close>

text \<open>
  Setting one channel of a light level stores the level clamped to 15 and leaves the other three
  channels alone.
\<close>

theorem channel_write_read:
  assumes "c < 4" and "d < 4"
  shows "light_channel (with_channel l c v) d = (if d = c then min v 15 else light_channel l d)"
  using channel_with_channel [OF assms, of l v] by (auto simp: light_clamp_def min_def)

theorem channel_write_read_witness:
  "light_channel (with_channel 0x1234 1 9) 1 = 9 \<and> light_channel (with_channel 0x1234 1 200) 1 = 15 \<and>
   light_channel (with_channel 0x1234 1 9) 2 = light_channel 0x1234 2"
  using channel_write_read [of 1 1 "0x1234" 9] channel_write_read [of 1 1 "0x1234" 200]
    channel_write_read [of 1 2 "0x1234" 9] by simp

text \<open>
  The brightest of two levels is taken channel by channel, and does not depend on their order.
\<close>

theorem brightest_per_channel:
  "(\<forall>c < 4. light_channel (light_max a b) c = max (light_channel a c) (light_channel b c)) \<and>
   light_max a b = light_max b a \<and> light_max a a = a"
proof (intro conjI)
  show "\<forall>c < 4. light_channel (light_max a b) c = max (light_channel a c) (light_channel b c)"
    using channel_light_max by blast
  show "light_max a b = light_max b a" by (rule light_eqI) (simp add: channel_light_max max.commute)
  show "light_max a a = a" by (rule light_eqI) (simp add: channel_light_max)
qed

theorem brightest_per_channel_witness: "light_channel (light_max 0x1F00 0x2300) 0 = 2"
proof -
  have "light_channel (light_max 0x1F00 0x2300) 0 = max (light_channel 0x1F00 0) (light_channel 0x2300 0)"
    by (rule brightest_per_channel [THEN conjunct1, rule_format]) simp
  moreover have "max (light_channel 0x1F00 0) (light_channel 0x2300 0) = 2" by code_simp
  ultimately show ?thesis by simp
qed

text \<open>
  C40. Light passes through a face of a block exactly when some cell of that face's layer is air,
  whatever form the block is stored in.
\<close>

theorem permeability_rule:
  assumes "axis < 3"
  shows "(passes (permeability block) (face_negative axis) \<longleftrightarrow>
      (\<exists>a < 3. \<exists>b < 3. view_cells block ! (let (x, y, z) =
        [(0, a, b), (a, 0, b), (a, b, 0)] ! axis in subnode_index x y z) = AIR)) \<and>
    (passes (permeability block) (face_positive axis) \<longleftrightarrow>
      (\<exists>a < 3. \<exists>b < 3. view_cells block ! (let (x, y, z) =
        [(2, a, b), (a, 2, b), (a, b, 2)] ! axis in subnode_index x y z) = AIR))"
proof -
  have f: "face_negative axis < 6" "face_positive axis < 6" "face_negative axis div 2 = axis"
      "face_positive axis div 2 = axis" "even (face_negative axis)" "\<not> even (face_positive axis)"
    using assms by (auto simp: face_negative_def face_positive_def)
  have ax: "axis = 0 \<or> axis = 1 \<or> axis = 2" using assms by linarith
  show ?thesis
    unfolding passes_permeability [OF f(1)] passes_permeability [OF f(2)] layer_is_full_cells f(3,4)
    using ax f(5,6) by (elim disjE) (auto simp: Let_def)
qed

theorem permeability_rule_witness:
  "passes (permeability (WPartial 5 0x7FFFFFE)) (face_negative 0) \<and>
   \<not> passes (permeability (WPartial 5 0x7FFFFFE)) (face_positive 0)"
proof -
  have neg: "view_cells (WPartial 5 0x7FFFFFE) ! subnode_index 0 0 0 = AIR" by code_simp
  have pos: "\<forall>a \<in> {..<3}. \<forall>b \<in> {..<3}. view_cells (WPartial 5 0x7FFFFFE) ! subnode_index 2 a b \<noteq> AIR" by code_simp
  show ?thesis using permeability_rule [of 0 "WPartial 5 0x7FFFFFE"] neg pos by (auto simp: Let_def)
qed

end
