(* ===== verification/Chunk.thy ===== *)
theory Chunk
  imports Bitpack Light
begin

text \<open>
  Palette-compressed storage of a 16x16x16-block chunk, from \<^verbatim>\<open>crates/core/src/chunk.rs\<close>: the
  reference-counted palette, the packed indices, the interned table of mixed cell arrays with
  its FNV-1a lookup, and every operation that changes them. The specification of a chunk is the
  map from block index to its canonical value, \<open>chunk_value\<close>; \<open>chunk_inv\<close> is what the operations keep.
  Every definition returns an \<open>option\<close>, with \<open>None\<close> for a panic of the code (an index out of
  range, a counter below zero, a failed \<open>expect\<close>).
\<close>

section \<open>Data\<close>

record palette_entry =
  pe_content :: block_content
  pe_refs :: nat
  pe_faces :: faces

record mixed_table =
  mt_cells :: "cells list"
  mt_free :: "nat list"
  mt_lookup :: "u64 \<rightharpoonup> nat"
  mt_live :: nat

record chunk =
  ch_pos :: chunk_pos
  ch_palette :: "palette_entry list"
  ch_free :: "nat list"
  ch_live_entries :: nat
  ch_indices :: bit_array
  ch_mixed :: mixed_table

record chunk_parts =
  pt_palette :: "(block_content \<times> nat) list"
  pt_bits_per_index :: nat
  pt_index_words :: "u64 list"
  pt_mixed_cells :: "cells list"
  pt_mixed_free :: "nat list"

datatype corrupt_chunk =
    EmptyPalette
  | PaletteTooLarge nat
  | MixedTableTooLarge nat
  | IndexTooNarrow nat nat
  | Indices bit_array_error
  | IndexOutOfRange nat nat nat
  | IndexToFreeSlot nat nat
  | RefcountMismatch nat nat nat
  | DanglingMixedSlot nat nat
  | NonCanonicalPartial nat

datatype not_in_chunk = NotInChunk chunk_pos

section \<open>The mixed table\<close>

definition to_le_bytes_u16 :: "u16 \<Rightarrow> u8 list" where
  "to_le_bytes_u16 m = [ucast m, ucast (drop_bit 8 m)]"

definition mixed_hash :: "cells \<Rightarrow> u64" where
  "mixed_hash cs =
     fold (\<lambda>cell hash.
        fold (\<lambda>byte hash. (hash XOR ucast byte) * 0x00000100000001b3) (to_le_bytes_u16 cell) hash)
       cs 0xcbf29ce484222325"

definition mixed_default :: mixed_table where
  "mixed_default = \<lparr>mt_cells = [], mt_free = [], mt_lookup = Map.empty, mt_live = 0\<rparr>"

definition mixed_get :: "mixed_table \<Rightarrow> nat \<Rightarrow> cells option" where
  "mixed_get t slot = vec_get (mt_cells t) slot"

definition mixed_find :: "mixed_table \<Rightarrow> cells \<Rightarrow> nat option option" where
  "mixed_find t cs =
     (case mt_lookup t (mixed_hash cs) of
        None \<Rightarrow> Some None
      | Some slot \<Rightarrow> do {
          found \<leftarrow> vec_get (mt_cells t) slot;
          Some (if found = cs then Some slot else None)
        })"

definition mixed_insert :: "mixed_table \<Rightarrow> cells \<Rightarrow> (nat \<times> mixed_table) option" where
  "mixed_insert t cs = do {
     existing \<leftarrow> mixed_find t cs;
     case existing of
       Some slot \<Rightarrow> Some (slot, t)
     | None \<Rightarrow> do {
         (slot, t') \<leftarrow>
           (case vec_pop (mt_free t) of
              Some (reused, free) \<Rightarrow> do {
                table \<leftarrow> vec_set (mt_cells t) reused cs;
                Some (reused, t\<lparr>mt_cells := table, mt_free := free\<rparr>)
              }
            | None \<Rightarrow>
                if length (mt_cells t) < 65536
                then Some (length (mt_cells t), t\<lparr>mt_cells := mt_cells t @ [cs]\<rparr>)
                else None);
         Some (slot, t'\<lparr>mt_lookup := (mt_lookup t')(mixed_hash cs \<mapsto> slot),
                        mt_live := mt_live t' + 1\<rparr>)
       }
   }"

definition mixed_remove :: "mixed_table \<Rightarrow> nat \<Rightarrow> mixed_table option" where
  "mixed_remove t slot = do {
     cs \<leftarrow> vec_get (mt_cells t) slot;
     let hash = mixed_hash cs;
     let lookup = (if mt_lookup t hash = Some slot then (mt_lookup t)(hash := None) else mt_lookup t);
     live \<leftarrow> dec (mt_live t);
     Some (t\<lparr>mt_lookup := lookup, mt_free := mt_free t @ [slot], mt_live := live\<rparr>)
   }"

section \<open>Reads\<close>

definition content_view :: "mixed_table \<Rightarrow> block_content \<Rightarrow> block_view option" where
  "content_view t content =
     (case content of
        Uniform material \<Rightarrow> Some (WUniform material)
      | Partial material occupancy \<Rightarrow> Some (WPartial material occupancy)
      | Mixed slot \<Rightarrow> do { cs \<leftarrow> mixed_get t slot; Some (WMixed cs) })"

definition faces_of :: "block_content \<Rightarrow> mixed_table \<Rightarrow> faces option" where
  "faces_of content mixed = do { view \<leftarrow> content_view mixed content; Some (permeability view) }"

definition contains_block :: "chunk \<Rightarrow> block_pos \<Rightarrow> bool" where
  "contains_block c pos \<longleftrightarrow> block_chunk pos = ch_pos c"

definition contains_subnode :: "chunk \<Rightarrow> subnode_pos \<Rightarrow> bool" where
  "contains_subnode c pos \<longleftrightarrow> subnode_chunk pos = ch_pos c"

definition content_at :: "chunk \<Rightarrow> nat \<Rightarrow> block_content option" where
  "content_at c index = do {
     slot \<leftarrow> ba_get (ch_indices c) index;
     entry \<leftarrow> vec_get (ch_palette c) slot;
     Some (pe_content entry)
   }"

definition chunk_view :: "chunk \<Rightarrow> block_content \<Rightarrow> block_view option" where
  "chunk_view c content = content_view (ch_mixed c) content"

definition get_block_local :: "chunk \<Rightarrow> local_block \<Rightarrow> block_view option" where
  "get_block_local c l = do { content \<leftarrow> content_at c (local_index l); chunk_view c content }"

definition get_block :: "chunk \<Rightarrow> block_pos \<Rightarrow> block_view option option" where
  "get_block c pos =
     (if contains_block c pos
      then do { view \<leftarrow> get_block_local c (block_local pos); Some (Some view) }
      else Some None)"

definition get_subnode :: "chunk \<Rightarrow> subnode_pos \<Rightarrow> material_id option option" where
  "get_subnode c pos =
     (if \<not> contains_subnode c pos then Some None
      else
        (let (x, y, z) = subnode_local pos
         in do {
           view \<leftarrow> get_block_local c (block_local (subnode_block pos));
           Some (Some (view_subnode_at view x y z))
         }))"

definition chunk_faces :: "chunk \<Rightarrow> local_block \<Rightarrow> faces option" where
  "chunk_faces c l = do {
     slot \<leftarrow> ba_get (ch_indices c) (local_index l);
     entry \<leftarrow> vec_get (ch_palette c) slot;
     Some (pe_faces entry)
   }"

definition is_uniform :: "chunk \<Rightarrow> material_id option" where
  "is_uniform c =
     (if ch_live_entries c \<noteq> 1 then None
      else case position (\<lambda>entry. pe_refs entry > 0) (ch_palette c) of
             None \<Rightarrow> None
           | Some slot \<Rightarrow>
               (case pe_content (ch_palette c ! slot) of
                  Uniform material \<Rightarrow> Some material
                | _ \<Rightarrow> None))"

definition block_cells :: "chunk \<Rightarrow> local_block \<Rightarrow> cells option" where
  "block_cells c l = do { view \<leftarrow> get_block_local c l; Some (view_cells view) }"

section \<open>Construction and palette management\<close>

definition chunk_new :: "chunk_pos \<Rightarrow> material_id \<Rightarrow> chunk option" where
  "chunk_new pos fill = do {
     indices \<leftarrow> ba_new BLOCKS_PER_CHUNK 0;
     Some \<lparr>ch_pos = pos,
       ch_palette = [\<lparr>pe_content = Uniform fill, pe_refs = BLOCKS_PER_CHUNK,
                      pe_faces = permeability (WUniform fill)\<rparr>],
       ch_free = [], ch_live_entries = 1, ch_indices = indices, ch_mixed = mixed_default\<rparr>
   }"

definition chunk_air :: "chunk_pos \<Rightarrow> chunk option" where
  "chunk_air pos = chunk_new pos AIR"

definition grow_indices_if_needed :: "chunk \<Rightarrow> chunk option" where
  "grow_indices_if_needed c =
     (let needed = bits_for (length (ch_palette c))
      in if needed > bits_per_entry (ch_indices c)
         then do { indices \<leftarrow> ba_resized (ch_indices c) needed; Some (c\<lparr>ch_indices := indices\<rparr>) }
         else Some c)"

text \<open>The first half of \<open>intern\<close>: the content a value is stored as.\<close>

definition intern_content :: "mixed_table \<Rightarrow> block_value \<Rightarrow> (block_content \<times> mixed_table) option" where
  "intern_content t v =
     (case v of
        VUniform material \<Rightarrow> Some (Uniform material, t)
      | VPartial material occupancy \<Rightarrow> Some (Partial material occupancy, t)
      | VCells cs \<Rightarrow> do {
          found \<leftarrow> mixed_find t cs;
          case found of
            Some slot \<Rightarrow> Some (Mixed slot, t)
          | None \<Rightarrow> do { (slot, t') \<leftarrow> mixed_insert t cs; Some (Mixed slot, t') }
        })"

definition intern :: "chunk \<Rightarrow> block_value \<Rightarrow> (nat \<times> chunk) option" where
  "intern c v = do {
     (content, mixed) \<leftarrow> intern_content (ch_mixed c) v;
     let c = c\<lparr>ch_mixed := mixed\<rparr>;
     case position (\<lambda>entry. pe_refs entry > 0 \<and> pe_content entry = content) (ch_palette c) of
       Some slot \<Rightarrow> do {
         entry \<leftarrow> vec_get (ch_palette c) slot;
         palette \<leftarrow> vec_set (ch_palette c) slot (entry\<lparr>pe_refs := pe_refs entry + 1\<rparr>);
         Some (as_u16 slot, c\<lparr>ch_palette := palette\<rparr>)
       }
     | None \<Rightarrow> do {
         faces \<leftarrow> faces_of content (ch_mixed c);
         let entry = \<lparr>pe_content = content, pe_refs = 1, pe_faces = faces\<rparr>;
         (slot, c') \<leftarrow>
           (case vec_pop (ch_free c) of
              Some (reused, free) \<Rightarrow> do {
                palette \<leftarrow> vec_set (ch_palette c) reused entry;
                Some (reused, c\<lparr>ch_palette := palette, ch_free := free\<rparr>)
              }
            | None \<Rightarrow>
                if length (ch_palette c) < 65536 then do {
                  c' \<leftarrow> grow_indices_if_needed (c\<lparr>ch_palette := ch_palette c @ [entry]\<rparr>);
                  Some (length (ch_palette c), c')
                } else None);
         Some (slot, c'\<lparr>ch_live_entries := ch_live_entries c' + 1\<rparr>)
       }
   }"

fun repack_loop ::
  "mixed_table \<Rightarrow> palette_entry list \<Rightarrow> nat \<Rightarrow> nat list \<Rightarrow> palette_entry list \<Rightarrow> mixed_table \<Rightarrow>
     (nat list \<times> palette_entry list \<times> mixed_table) option" where
  "repack_loop old [] old_slot remap packed mixed = Some (remap, packed, mixed)"
| "repack_loop old (entry # rest) old_slot remap packed mixed =
     (if pe_refs entry = 0 then repack_loop old rest (Suc old_slot) remap packed mixed
      else do {
        (content, mixed') \<leftarrow>
          (case pe_content entry of
             Mixed slot \<Rightarrow> do {
               cs \<leftarrow> mixed_get old slot;
               (slot', m) \<leftarrow> mixed_insert mixed cs;
               Some (Mixed slot', m)
             }
           | other \<Rightarrow> Some (other, mixed));
        remap' \<leftarrow> vec_set remap old_slot (as_u16 (length packed));
        repack_loop old rest (Suc old_slot) remap'
          (packed @ [\<lparr>pe_content = content, pe_refs = pe_refs entry, pe_faces = pe_faces entry\<rparr>])
          mixed'
      })"

definition repack_indices :: "bit_array \<Rightarrow> nat list \<Rightarrow> nat \<Rightarrow> bit_array option" where
  "repack_indices a remap bits =
     (if bits = bits_per_entry a then ba_remap a (\<lambda>slot. vec_get remap slot)
      else do {
        narrowed \<leftarrow> ba_new BLOCKS_PER_CHUNK bits;
        if bits > 0
        then write_all ba_set (\<lambda>_ index. do { slot \<leftarrow> ba_get a index; vec_get remap slot })
               [0..<BLOCKS_PER_CHUNK] narrowed
        else Some narrowed
      })"

definition repack :: "chunk \<Rightarrow> chunk option" where
  "repack c = do {
     (remap, packed, mixed) \<leftarrow>
       repack_loop (ch_mixed c) (ch_palette c) 0 (replicate (length (ch_palette c)) 65535) []
         mixed_default;
     let bits = bits_for (length packed);
     indices \<leftarrow> repack_indices (ch_indices c) remap bits;
     Some (c\<lparr>ch_indices := indices, ch_palette := packed, ch_free := [], ch_mixed := mixed\<rparr>)
   }"

definition release :: "chunk \<Rightarrow> nat \<Rightarrow> chunk option" where
  "release c slot = do {
     entry \<leftarrow> vec_get (ch_palette c) slot;
     refs \<leftarrow> dec (pe_refs entry);
     palette \<leftarrow> vec_set (ch_palette c) slot (entry\<lparr>pe_refs := refs\<rparr>);
     let c = c\<lparr>ch_palette := palette\<rparr>;
     if refs > 0 then Some c
     else do {
       mixed \<leftarrow> (case pe_content entry of
                  Mixed mixed_slot \<Rightarrow> mixed_remove (ch_mixed c) mixed_slot
                | _ \<Rightarrow> Some (ch_mixed c));
       live \<leftarrow> dec (ch_live_entries c);
       let c = c\<lparr>ch_mixed := mixed, ch_free := ch_free c @ [slot], ch_live_entries := live\<rparr>;
       if bits_for live < bits_per_entry (ch_indices c) then repack c else Some c
     }
   }"

section \<open>Writes\<close>

definition set_block_local :: "chunk \<Rightarrow> local_block \<Rightarrow> block_value \<Rightarrow> chunk option" where
  "set_block_local c l v = do {
     let v = canonical v;
     let index = local_index l;
     (new_slot, c) \<leftarrow> intern c v;
     old \<leftarrow> ba_get (ch_indices c) index;
     let old_slot = as_u16 old;
     if old_slot = new_slot then do {
       entry \<leftarrow> vec_get (ch_palette c) new_slot;
       refs \<leftarrow> dec (pe_refs entry);
       palette \<leftarrow> vec_set (ch_palette c) new_slot (entry\<lparr>pe_refs := refs\<rparr>);
       Some (c\<lparr>ch_palette := palette\<rparr>)
     } else do {
       indices \<leftarrow> ba_set (ch_indices c) index new_slot;
       release (c\<lparr>ch_indices := indices\<rparr>) old_slot
     }
   }"

definition set_block :: "chunk \<Rightarrow> block_pos \<Rightarrow> block_value \<Rightarrow> (not_in_chunk + chunk) option" where
  "set_block c pos v =
     (if \<not> contains_block c pos then Some (Inl (NotInChunk (ch_pos c)))
      else do { c' \<leftarrow> set_block_local c (block_local pos) v; Some (Inr c') })"

definition set_subnode ::
  "chunk \<Rightarrow> subnode_pos \<Rightarrow> material_id \<Rightarrow> (not_in_chunk + chunk) option" where
  "set_subnode c pos material =
     (if \<not> contains_subnode c pos then Some (Inl (NotInChunk (ch_pos c)))
      else
        (let l = block_local (subnode_block pos);
             (x, y, z) = subnode_local pos;
             cell = subnode_index x y z
         in do {
           cs \<leftarrow> block_cells c l;
           current \<leftarrow> vec_get cs cell;
           if current = material then Some (Inr c)
           else do {
             cs' \<leftarrow> vec_set cs cell material;
             c' \<leftarrow> set_block_local c l (VCells cs');
             Some (Inr c')
           }
         }))"

fun subnode_origin :: "chunk_pos \<Rightarrow> subnode_pos" where
  "subnode_origin (ChunkPos x y z) =
     SubNodePos (i32 (x * int CHUNK_SUBNODES)) (i32 (y * int CHUNK_SUBNODES)) (i32 (z * int CHUNK_SUBNODES))"

definition block_subnode_origin :: "chunk_pos \<Rightarrow> local_block \<Rightarrow> subnode_pos" where
  "block_subnode_origin pos l =
     (let origin = subnode_origin pos
      in SubNodePos (i32 (sp_x origin + int (lb_x l * SUBNODES_PER_AXIS)))
           (i32 (sp_y origin + int (lb_y l * SUBNODES_PER_AXIS)))
           (i32 (sp_z origin + int (lb_z l * SUBNODES_PER_AXIS))))"

text \<open>The overlap of a clipped region with one axis of a block, in block-local offsets.\<close>

definition overlap :: "int \<Rightarrow> int \<Rightarrow> int \<Rightarrow> nat \<times> nat" where
  "overlap lo hi origin = (as_u32 (max (i32 (lo - origin)) 0), as_u32 (min (i32 (hi - origin)) 2))"

text \<open>The body of the loop of \<open>fill_region\<close>, for one block and the region clipped to the chunk.\<close>

definition fill_block ::
  "subnode_pos \<Rightarrow> subnode_pos \<Rightarrow> material_id \<Rightarrow> local_block \<Rightarrow> chunk \<Rightarrow> chunk option" where
  "fill_block lo hi material l c =
     (let origin = block_subnode_origin (ch_pos c) l;
          (lo_x, hi_x) = overlap (sp_x lo) (sp_x hi) (sp_x origin);
          (lo_y, hi_y) = overlap (sp_y lo) (sp_y hi) (sp_y origin);
          (lo_z, hi_z) = overlap (sp_z lo) (sp_z hi) (sp_z origin)
      in if lo_x = 0 \<and> hi_x = 2 \<and> lo_y = 0 \<and> hi_y = 2 \<and> lo_z = 0 \<and> hi_z = 2
         then set_block_local c l (VUniform material)
         else do {
           cs \<leftarrow> block_cells c l;
           cs' \<leftarrow> for_each (\<lambda>(z, y, x) cs. vec_set cs (subnode_index x y z) material)
             (nested (incl lo_z hi_z) (incl lo_y hi_y) (incl lo_x hi_x)) cs;
           set_block_local c l (VCells cs')
         })"

definition clip_lo :: "subnode_pos \<Rightarrow> subnode_pos \<Rightarrow> subnode_pos \<Rightarrow> subnode_pos" where
  "clip_lo p q origin =
     SubNodePos (max (min (sp_x p) (sp_x q)) (sp_x origin))
       (max (min (sp_y p) (sp_y q)) (sp_y origin))
       (max (min (sp_z p) (sp_z q)) (sp_z origin))"

definition clip_hi :: "subnode_pos \<Rightarrow> subnode_pos \<Rightarrow> subnode_pos \<Rightarrow> subnode_pos" where
  "clip_hi p q origin =
     (let extent = int CHUNK_SUBNODES - 1
      in SubNodePos (min (max (sp_x p) (sp_x q)) (i32 (sp_x origin + extent)))
           (min (max (sp_y p) (sp_y q)) (i32 (sp_y origin + extent)))
           (min (max (sp_z p) (sp_z q)) (i32 (sp_z origin + extent))))"

definition blocks_between :: "local_block \<Rightarrow> local_block \<Rightarrow> local_block list" where
  "blocks_between a b =
     map (\<lambda>(bz, b_y, bx). LocalBlock bx b_y bz)
       (nested (incl (min (lb_z b) (lb_z a)) (max (lb_z b) (lb_z a)))
         (incl (min (lb_y b) (lb_y a)) (max (lb_y b) (lb_y a)))
         (incl (min (lb_x b) (lb_x a)) (max (lb_x b) (lb_x a))))"

definition fill_region :: "chunk \<Rightarrow> subnode_pos \<Rightarrow> subnode_pos \<Rightarrow> material_id \<Rightarrow> chunk option" where
  "fill_region c p q material =
     (let origin = subnode_origin (ch_pos c);
          lo = clip_lo p q origin;
          hi = clip_hi p q origin
      in if sp_x lo > sp_x hi \<or> sp_y lo > sp_y hi \<or> sp_z lo > sp_z hi then Some c
         else for_each (fill_block lo hi material)
                (blocks_between (block_local (subnode_block lo)) (block_local (subnode_block hi))) c)"

end
