(* ===== verification/Chunk_Mixed.thy ===== *)
theory Chunk_Mixed
  imports Chunk
begin

text \<open>
  The interning table of mixed cell arrays: its invariant relative to the set of slots in use,
  and what find, insert and remove do under it. The lookup index is keyed by a 64-bit hash, so
  inserting keeps the invariant when no array in use collides with the new one.
\<close>

definition mixed_inv :: "mixed_table \<Rightarrow> nat set \<Rightarrow> bool" where
  "mixed_inv t L \<longleftrightarrow>
     length (mt_cells t) \<le> 65536 \<and> L \<subseteq> {..<length (mt_cells t)} \<and>
     distinct (mt_free t) \<and> set (mt_free t) = {..<length (mt_cells t)} - L \<and>
     mt_live t = card L \<and>
     (\<forall>m \<in> L. mt_lookup t (mixed_hash (mt_cells t ! m)) = Some m) \<and>
     (\<forall>h m. mt_lookup t h = Some m \<longrightarrow> m \<in> L \<and> mixed_hash (mt_cells t ! m) = h)"

text \<open>No array in use has the hash of a different array \<open>cs\<close>.\<close>

definition no_collision :: "mixed_table \<Rightarrow> nat set \<Rightarrow> cells \<Rightarrow> bool" where
  "no_collision t L cs \<longleftrightarrow> (\<forall>m \<in> L. mixed_hash (mt_cells t ! m) = mixed_hash cs \<longrightarrow> mt_cells t ! m = cs)"

lemma mixed_inv_default: "mixed_inv mixed_default {}"
  by (simp add: mixed_inv_def mixed_default_def)

lemma mixed_inv_finite: "mixed_inv t L \<Longrightarrow> finite L"
  by (auto simp: mixed_inv_def intro: finite_subset)

lemma mixed_inv_lookup:
  "mixed_inv t L \<Longrightarrow> mt_lookup t h = Some m \<longleftrightarrow> m \<in> L \<and> mixed_hash (mt_cells t ! m) = h"
  by (auto simp: mixed_inv_def)

lemma mixed_inv_inj:
  "mixed_inv t L \<Longrightarrow> m \<in> L \<Longrightarrow> k \<in> L \<Longrightarrow>
     mixed_hash (mt_cells t ! m) = mixed_hash (mt_cells t ! k) \<Longrightarrow> m = k"
  unfolding mixed_inv_def by (metis option.inject)

lemma mixed_find_correct:
  assumes "mixed_inv t L"
  shows "mixed_find t cs =
    Some (if \<exists>m \<in> L. mt_cells t ! m = cs then mt_lookup t (mixed_hash cs) else None)"
    and "m \<in> L \<Longrightarrow> mt_cells t ! m = cs \<Longrightarrow> mixed_find t cs = Some (Some m)"
proof -
  have lt: "m < length (mt_cells t)" if "m \<in> L" for m using assms that by (auto simp: mixed_inv_def)
  show "mixed_find t cs =
    Some (if \<exists>m \<in> L. mt_cells t ! m = cs then mt_lookup t (mixed_hash cs) else None)"
  proof (cases "mt_lookup t (mixed_hash cs)")
    case None
    then show ?thesis by (simp add: mixed_find_def)
  next
    case (Some m)
    then have m: "m \<in> L" "mixed_hash (mt_cells t ! m) = mixed_hash cs"
      using mixed_inv_lookup [OF assms] by auto
    then have "(\<exists>k \<in> L. mt_cells t ! k = cs) \<longleftrightarrow> mt_cells t ! m = cs"
      using mixed_inv_inj [OF assms, of _ m] by metis
    then show ?thesis using Some lt [OF m(1)] by (simp add: mixed_find_def vec_simps)
  qed
  then show "m \<in> L \<Longrightarrow> mt_cells t ! m = cs \<Longrightarrow> mixed_find t cs = Some (Some m)"
    using mixed_inv_lookup [OF assms] by auto
qed

lemma mixed_insert_correct:
  assumes inv: "mixed_inv t L" and fresh: "\<forall>m \<in> L. mt_cells t ! m \<noteq> cs"
    and hash: "no_collision t L cs" and room: "card L < 65536"
  shows "\<exists>m t'. mixed_insert t cs = Some (m, t') \<and> m \<notin> L \<and> mixed_inv t' (insert m L) \<and>
    mt_cells t' ! m = cs \<and> m < length (mt_cells t') \<and> (\<forall>k \<in> L. mt_cells t' ! k = mt_cells t ! k) \<and>
    length (mt_cells t) \<le> length (mt_cells t')"
proof -
  have find: "mixed_find t cs = Some None" using mixed_find_correct(1) [OF inv] fresh by auto
  have nohash: "mixed_hash (mt_cells t ! k) \<noteq> mixed_hash cs" if "k \<in> L" for k
    using hash fresh that by (auto simp: no_collision_def)
  note L = inv [unfolded mixed_inv_def]
  have key: "mixed_inv t' (insert m L)"
    if "m \<notin> L" "m < length (mt_cells t')" "mt_cells t' ! m = cs"
      "\<And>k. k \<in> L \<Longrightarrow> mt_cells t' ! k = mt_cells t ! k"
      "length (mt_cells t) \<le> length (mt_cells t')" "length (mt_cells t') \<le> 65536"
      "distinct (mt_free t')" "set (mt_free t') = {..<length (mt_cells t')} - insert m L"
      "mt_lookup t' = (mt_lookup t)(mixed_hash cs \<mapsto> m)" "mt_live t' = mt_live t + 1"
    for m t'
    using that L mixed_inv_finite [OF inv] nohash unfolding mixed_inv_def
    by (intro conjI) (auto split: if_splits)
  show ?thesis
  proof (cases "vec_pop (mt_free t)")
    case (Some p)
    obtain m fr where p: "p = (m, fr)" by (cases p)
    have free: "mt_free t = fr @ [m]" using Some p by (simp add: vec_pop_Some)
    then have "set fr \<union> {m} = {..<length (mt_cells t)} - L" "m \<notin> set fr"
      using L by auto
    then have m: "m \<notin> L" "m < length (mt_cells t)" "set fr = {..<length (mt_cells t)} - insert m L"
      "distinct fr" using L free by auto
    let ?t = "t\<lparr>mt_cells := (mt_cells t)[m := cs], mt_free := fr,
      mt_lookup := (mt_lookup t)(mixed_hash cs \<mapsto> m), mt_live := mt_live t + 1\<rparr>"
    have "mixed_insert t cs = Some (m, ?t)"
      using Some p m by (simp add: mixed_insert_def find vec_simps)
    moreover have "mixed_inv ?t (insert m L)"
      using m L by (intro key) (auto simp: nth_list_update)
    ultimately show ?thesis using m by (auto simp: nth_list_update)
  next
    case None
    let ?m = "length (mt_cells t)"
    have L': "L = {..<?m}" using None L by auto
    let ?t = "t\<lparr>mt_cells := mt_cells t @ [cs],
      mt_lookup := (mt_lookup t)(mixed_hash cs \<mapsto> ?m), mt_live := mt_live t + 1\<rparr>"
    have "mixed_insert t cs = Some (?m, ?t)"
      using None room L' by (simp add: mixed_insert_def find)
    moreover have "mixed_inv ?t (insert ?m L)"
      using None L' room by (intro key) (auto simp: nth_append)
    ultimately show ?thesis using L' by (auto simp: nth_append)
  qed
qed

lemma mixed_remove_correct:
  assumes inv: "mixed_inv t L" and m: "m \<in> L"
  shows "\<exists>t'. mixed_remove t m = Some t' \<and> mixed_inv t' (L - {m}) \<and> mt_cells t' = mt_cells t"
proof -
  note L = inv [unfolded mixed_inv_def]
  have fin: "finite L" by (rule mixed_inv_finite [OF inv])
  have lt: "m < length (mt_cells t)" using L m by auto
  have lk: "mt_lookup t (mixed_hash (mt_cells t ! m)) = Some m" using L m by auto
  have live: "0 < mt_live t" using L m fin by (auto simp: card_gt_0_iff)
  let ?t = "t\<lparr>mt_lookup := (mt_lookup t)(mixed_hash (mt_cells t ! m) := None),
    mt_free := mt_free t @ [m], mt_live := mt_live t - 1\<rparr>"
  have "mixed_remove t m = Some ?t"
    using lt lk live by (simp add: mixed_remove_def vec_simps Let_def)
  moreover have "mixed_inv ?t (L - {m})"
    unfolding mixed_inv_def
  proof (intro conjI)
    show "\<forall>k \<in> L - {m}. mt_lookup ?t (mixed_hash (mt_cells ?t ! k)) = Some k"
      using L mixed_inv_inj [OF inv _ m] by auto
  qed (use L m fin lt in \<open>auto split: if_splits\<close>)
  ultimately show ?thesis by auto
qed

end
