(* ===== verification/Chunk_Palette.thy ===== *)
theory Chunk_Palette
  imports Chunk_Mixed
begin

text \<open>
  The invariant of a chunk and its preservation by the palette operations: interning a value,
  releasing a reference, and repacking. Reference counts are compared with the number of
  blocks that use a slot through \<open>refs_of\<close>, which is 0 outside the palette.
\<close>

section \<open>Contents as values\<close>

definition content_value :: "mixed_table \<Rightarrow> block_content \<Rightarrow> block_value" where
  "content_value t content =
     (case content of
        Uniform m \<Rightarrow> VUniform m
      | Partial m occ \<Rightarrow> VPartial m occ
      | Mixed k \<Rightarrow> VCells (mt_cells t ! k))"

definition content_ok :: "mixed_table \<Rightarrow> block_content \<Rightarrow> bool" where
  "content_ok t content \<longleftrightarrow>
     (\<forall>k. content = Mixed k \<longrightarrow> k < length (mt_cells t)) \<and>
     wf_value (content_value t content) \<and> is_canonical (content_value t content)"

lemma content_view_ok: "content_ok t ct \<Longrightarrow> content_view t ct = Some (value_view (content_value t ct))"
  by (cases ct) (auto simp: content_ok_def content_view_def content_value_def mixed_get_def vec_simps)

lemma faces_of_ok:
  "content_ok t ct \<Longrightarrow> faces_of ct t = Some (permeability (value_view (content_value t ct)))"
  by (simp add: faces_of_def content_view_ok)

text \<open>Contents that agree on the slots they name have the same value in both tables.\<close>

lemma content_value_cong:
  "(\<And>k. ct = Mixed k \<Longrightarrow> mt_cells t' ! k = mt_cells t ! k) \<Longrightarrow> content_value t' ct = content_value t ct"
  by (cases ct) (auto simp: content_value_def)

section \<open>The invariant\<close>

definition refs_of :: "palette_entry list \<Rightarrow> nat \<Rightarrow> nat" where
  "refs_of pal s = (if s < length pal then pe_refs (pal ! s) else 0)"

definition live_slots :: "palette_entry list \<Rightarrow> nat set" where
  "live_slots pal = {s. 0 < refs_of pal s}"

definition mixed_slots :: "palette_entry list \<Rightarrow> nat set" where
  "mixed_slots pal = {k. \<exists>s \<in> live_slots pal. pe_content (pal ! s) = Mixed k}"

definition slot_value :: "palette_entry list \<Rightarrow> mixed_table \<Rightarrow> nat \<Rightarrow> block_value" where
  "slot_value pal t s = content_value t (pe_content (pal ! s))"

definition entry_ok :: "mixed_table \<Rightarrow> palette_entry \<Rightarrow> bool" where
  "entry_ok t e \<longleftrightarrow> content_ok t (pe_content e) \<and> faces_of (pe_content e) t = Some (pe_faces e)"

definition palette_inv :: "palette_entry list \<Rightarrow> mixed_table \<Rightarrow> bool" where
  "palette_inv pal t \<longleftrightarrow>
     (\<forall>s \<in> live_slots pal. entry_ok t (pal ! s)) \<and>
     inj_on (slot_value pal t) (live_slots pal) \<and>
     mixed_inv t (mixed_slots pal)"

text \<open>Even an entry out of use names a cell array of the table.\<close>

definition contents_in_table :: "palette_entry list \<Rightarrow> mixed_table \<Rightarrow> bool" where
  "contents_in_table pal t \<longleftrightarrow>
     (\<forall>e \<in> set pal. \<forall>k. pe_content e = Mixed k \<longrightarrow> k < length (mt_cells t))"

definition slots_inv :: "chunk \<Rightarrow> bool" where
  "slots_inv c \<longleftrightarrow>
     palette_inv (ch_palette c) (ch_mixed c) \<and> contents_in_table (ch_palette c) (ch_mixed c) \<and>
     distinct (ch_free c) \<and>
     set (ch_free c) = {..<length (ch_palette c)} - live_slots (ch_palette c) \<and>
     ch_live_entries c = card (live_slots (ch_palette c))"

abbreviation entries :: "chunk \<Rightarrow> nat list" where
  "entries c \<equiv> ba_list (ch_indices c)"

definition index_inv :: "chunk \<Rightarrow> bool" where
  "index_inv c \<longleftrightarrow>
     ba_inv (ch_indices c) \<and> ba_len (ch_indices c) = 4096 \<and>
     (\<forall>s \<in> set (entries c). s < length (ch_palette c)) \<and>
     length (ch_palette c) \<le> 2 ^ bits_per_entry (ch_indices c)"

definition chunk_inv :: "chunk \<Rightarrow> bool" where
  "chunk_inv c \<longleftrightarrow>
     slots_inv c \<and> index_inv c \<and> length (ch_palette c) \<le> 4096 \<and>
     refs_of (ch_palette c) = count_list (entries c)"

text \<open>The abstraction: the canonical value of every block.\<close>

definition chunk_value :: "chunk \<Rightarrow> nat \<Rightarrow> block_value" where
  "chunk_value c i = slot_value (ch_palette c) (ch_mixed c) (entries c ! i)"

lemma live_slots_less: "s \<in> live_slots pal \<Longrightarrow> s < length pal"
  by (auto simp: live_slots_def refs_of_def split: if_splits)

lemma finite_live_slots [simp]: "finite (live_slots pal)"
  by (rule finite_subset [of _ "{..<length pal}"]) (auto dest: live_slots_less)

lemma card_live_slots: "card (live_slots pal) \<le> length pal"
proof -
  have "live_slots pal \<subseteq> {..<length pal}" by (auto dest: live_slots_less)
  from card_mono [OF _ this] show ?thesis by simp
qed

lemma mixed_slots_image:
  "mixed_slots pal \<subseteq> (\<lambda>s. case pe_content (pal ! s) of Mixed k \<Rightarrow> k | _ \<Rightarrow> 0) ` live_slots pal"
  by (force simp: mixed_slots_def)

lemma card_mixed_slots: "card (mixed_slots pal) \<le> card (live_slots pal)"
  by (meson card_image_le card_mono finite_imageI finite_live_slots mixed_slots_image order_trans)

lemma palette_inv_value:
  assumes "palette_inv pal t" and "s \<in> live_slots pal"
  shows "wf_value (slot_value pal t s)" and "canonical (slot_value pal t s) = slot_value pal t s"
  using assms by (auto simp: palette_inv_def entry_ok_def content_ok_def slot_value_def is_canonical_def)

lemma mixed_slotsI: "s \<in> live_slots pal \<Longrightarrow> pe_content (pal ! s) = Mixed k \<Longrightarrow> k \<in> mixed_slots pal"
  by (auto simp: mixed_slots_def)

lemma entry_ok_cong:
  assumes "entry_ok t e" and "content_value t' (pe_content e') = content_value t (pe_content e)"
    and "pe_faces e' = pe_faces e" and "\<And>k. pe_content e' = Mixed k \<Longrightarrow> k < length (mt_cells t')"
  shows "entry_ok t' e'"
proof -
  have "content_ok t' (pe_content e')" using assms by (simp add: entry_ok_def content_ok_def)
  moreover have "permeability (value_view (content_value t (pe_content e))) = pe_faces e"
    using assms(1) by (auto simp: entry_ok_def faces_of_ok)
  ultimately show ?thesis using assms by (simp add: entry_ok_def faces_of_ok)
qed

text \<open>One lemma for every way a palette gains a reference: a count goes up, a free slot is reused,
  or an entry is pushed.\<close>

lemma palette_inv_extend:
  assumes inv: "palette_inv pal t" and live: "live_slots pal' = insert s (live_slots pal)"
    and same: "\<And>r. r \<in> live_slots pal \<Longrightarrow>
      pe_content (pal' ! r) = pe_content (pal ! r) \<and> pe_faces (pal' ! r) = pe_faces (pal ! r)"
    and cells: "\<forall>k \<in> mixed_slots pal. mt_cells t' ! k = mt_cells t ! k"
    and mi: "mixed_inv t' (mixed_slots pal \<union> {k. pe_content (pal' ! s) = Mixed k})"
    and new: "entry_ok t' (pal' ! s)"
    and fresh: "s \<notin> live_slots pal \<Longrightarrow> \<forall>r \<in> live_slots pal. slot_value pal t r \<noteq> slot_value pal' t' s"
  shows "palette_inv pal' t'" and "\<forall>r \<in> live_slots pal. slot_value pal' t' r = slot_value pal t r"
proof -
  have lt: "k < length (mt_cells t')" if "k \<in> mixed_slots pal" for k
    using mi that by (auto simp: mixed_inv_def)
  have val: "slot_value pal' t' r = slot_value pal t r" if "r \<in> live_slots pal" for r
    using same [OF that] cells mixed_slotsI [OF that] unfolding slot_value_def
    by (auto intro!: content_value_cong)
  then show "\<forall>r \<in> live_slots pal. slot_value pal' t' r = slot_value pal t r" by blast
  have ok: "entry_ok t' (pal' ! r)" if "r \<in> live_slots pal" for r
    by (rule entry_ok_cong [of t "pal ! r"])
      (use inv that same [OF that] val [OF that] lt mixed_slotsI [OF that] in
        \<open>auto simp: palette_inv_def slot_value_def\<close>)
  have ms: "mixed_slots pal' = mixed_slots pal \<union> {k. pe_content (pal' ! s) = Mixed k}"
    using live same by (auto simp: mixed_slots_def)
  have "inj_on (slot_value pal' t') (insert s (live_slots pal))"
  proof (cases "s \<in> live_slots pal")
    case True
    then have "insert s (live_slots pal) = live_slots pal" by blast
    moreover have "inj_on (slot_value pal' t') (live_slots pal)"
      using inv val by (simp add: palette_inv_def cong: inj_on_cong)
    ultimately show ?thesis by (simp only:)
  next
    case False
    then show ?thesis using inv val fresh
      by (auto simp: palette_inv_def image_iff cong: inj_on_cong)
  qed
  with ok new mi ms live show "palette_inv pal' t'" by (auto simp: palette_inv_def)
qed

section \<open>Interning a value\<close>

text \<open>What the caller of \<open>intern\<close> has to know of the hash: the new array collides with none in use.\<close>

definition collision_free :: "chunk \<Rightarrow> block_value \<Rightarrow> bool" where
  "collision_free c v \<longleftrightarrow>
     (\<forall>cs. v = VCells cs \<longrightarrow> no_collision (ch_mixed c) (mixed_slots (ch_palette c)) cs)"

lemma intern_content_correct:
  assumes inv: "palette_inv pal t" and v: "wf_value v" "is_canonical v"
    and coll: "\<And>cs. v = VCells cs \<Longrightarrow> no_collision t (mixed_slots pal) cs"
    and room: "card (live_slots pal) < 65536"
  shows "\<exists>ct t'. intern_content t v = Some (ct, t') \<and> content_ok t' ct \<and> content_value t' ct = v \<and>
    (\<forall>k \<in> mixed_slots pal. mt_cells t' ! k = mt_cells t ! k) \<and>
    length (mt_cells t) \<le> length (mt_cells t') \<and>
    mixed_inv t' (mixed_slots pal \<union> {k. ct = Mixed k}) \<and>
    (\<forall>s \<in> live_slots pal. pe_content (pal ! s) = ct \<longleftrightarrow> slot_value pal t s = v)"
proof (cases v)
  case (VUniform m)
  then show ?thesis using inv v
    by (auto simp: intern_content_def content_ok_def content_value_def slot_value_def palette_inv_def
        split: block_content.splits)
next
  case (VPartial m occ)
  then show ?thesis using inv v
    by (auto simp: intern_content_def content_ok_def content_value_def slot_value_def palette_inv_def
        split: block_content.splits)
next
  case (VCells cs)
  let ?L = "mixed_slots pal"
  have mi: "mixed_inv t ?L" using inv by (simp add: palette_inv_def)
  have val: "slot_value pal t s = v \<longleftrightarrow> (\<exists>k. pe_content (pal ! s) = Mixed k \<and> mt_cells t ! k = cs)" for s
    by (auto simp: slot_value_def content_value_def VCells split: block_content.splits)
  show ?thesis
  proof (cases "\<exists>m \<in> ?L. mt_cells t ! m = cs")
    case True
    then obtain m where m: "m \<in> ?L" "mt_cells t ! m = cs" by blast
    have "intern_content t v = Some (Mixed m, t)"
      using mixed_find_correct(2) [OF mi m] by (simp add: intern_content_def VCells)
    moreover have "content_ok t (Mixed m)"
      using m mi v VCells by (auto simp: content_ok_def content_value_def mixed_inv_def)
    moreover have "content_value t (Mixed m) = v" using m by (simp add: content_value_def VCells)
    moreover have "k = m" if "k \<in> ?L" "mt_cells t ! k = cs" for k
      using mixed_inv_inj [OF mi that(1) m(1)] that(2) m(2) by simp
    then have "pe_content (pal ! s) = Mixed m \<longleftrightarrow> slot_value pal t s = v" if "s \<in> live_slots pal" for s
      using that m(2) val by (blast dest: mixed_slotsI)
    moreover have "?L \<union> {k. Mixed m = Mixed k} = ?L" using m(1) by auto
    ultimately show ?thesis using mi by (intro exI [of _ "Mixed m"] exI [of _ t]) simp
  next
    case False
    have find: "mixed_find t cs = Some None" using mixed_find_correct(1) [OF mi] False by simp
    have "card ?L < 65536" using room card_mixed_slots [of pal] by linarith
    then obtain m t' where ins: "mixed_insert t cs = Some (m, t')" "m \<notin> ?L" "mixed_inv t' (insert m ?L)"
        "mt_cells t' ! m = cs" "m < length (mt_cells t')" "\<forall>k \<in> ?L. mt_cells t' ! k = mt_cells t ! k"
        "length (mt_cells t) \<le> length (mt_cells t')"
      using mixed_insert_correct [OF mi _ coll [OF VCells]] False by blast
    have "intern_content t v = Some (Mixed m, t')"
      by (simp add: intern_content_def VCells find ins(1))
    moreover have "content_ok t' (Mixed m)" "content_value t' (Mixed m) = v"
      using ins(4,5) v by (simp_all add: content_ok_def content_value_def VCells)
    moreover have "?L \<union> {k. Mixed m = Mixed k} = insert m ?L" by auto
    moreover have "pe_content (pal ! s) = Mixed m \<longleftrightarrow> slot_value pal t s = v" if "s \<in> live_slots pal" for s
      using that ins(2) False val by (auto dest: mixed_slotsI)
    ultimately show ?thesis using ins(3,6,7)
      by (intro exI [of _ "Mixed m"] exI [of _ t']) simp
  qed
qed

lemma refs_of_update: "s < length pal \<Longrightarrow> refs_of (pal[s := e]) = (refs_of pal)(s := pe_refs e)"
  by (auto simp: refs_of_def nth_list_update)

lemma refs_of_push: "refs_of (pal @ [e]) = (refs_of pal)(length pal := pe_refs e)"
  by (auto simp: refs_of_def nth_append)

lemma live_slots_upd:
  "refs_of pal' = (refs_of pal)(s := Suc n) \<Longrightarrow> live_slots pal' = insert s (live_slots pal)"
  by (auto simp: live_slots_def)

lemma grow_indices_correct:
  assumes "ba_inv (ch_indices c)" and "ba_len (ch_indices c) = 4096"
    and ent: "\<forall>s \<in> set (entries c). s < length (ch_palette c)" and len: "length (ch_palette c) \<le> 65536"
  shows "\<exists>a. grow_indices_if_needed c = Some (c\<lparr>ch_indices := a\<rparr>) \<and>
    index_inv (c\<lparr>ch_indices := a\<rparr>) \<and> ba_list a = entries c"
proof -
  let ?n = "bits_for (length (ch_palette c))"
  have n: "length (ch_palette c) \<le> 2 ^ ?n" "?n \<le> 16"
    using len bits_for_enough [of "length (ch_palette c)"] bits_for_least [of "length (ch_palette c)" 16]
    by auto
  show ?thesis
  proof (cases "?n > bits_per_entry (ch_indices c)")
    case True
    obtain a where a: "ba_resized (ch_indices c) ?n = Some a" "ba_inv a" "ba_len a = 4096"
        "bits_per_entry a = ?n" "ba_list a = entries c"
      using ba_resized_correct [OF assms(1) n(2)] assms n(1) by (metis less_le_trans)
    then show ?thesis using True ent n by (auto simp: grow_indices_if_needed_def index_inv_def Let_def)
  next
    case False
    then have "2 ^ ?n \<le> (2 :: nat) ^ bits_per_entry (ch_indices c)" by simp
    then have "length (ch_palette c) \<le> 2 ^ bits_per_entry (ch_indices c)" using n by linarith
    then show ?thesis using False assms
      by (intro exI [of _ "ch_indices c"]) (auto simp: grow_indices_if_needed_def index_inv_def Let_def)
  qed
qed

text \<open>What \<open>intern\<close> promises: one more reference on the slot it returns, which holds the value, and
  every other value in use unchanged. The palette may exceed 4096 entries by one, with none free,
  until the caller releases the reference the new one replaces.\<close>

definition interned :: "chunk \<Rightarrow> block_value \<Rightarrow> nat \<Rightarrow> chunk \<Rightarrow> bool" where
  "interned c v slot c' \<longleftrightarrow>
     slots_inv c' \<and> index_inv c' \<and> entries c' = entries c \<and> ch_pos c' = ch_pos c \<and>
     refs_of (ch_palette c') = (refs_of (ch_palette c))(slot := Suc (refs_of (ch_palette c) slot)) \<and>
     slot_value (ch_palette c') (ch_mixed c') slot = v \<and>
     (\<forall>r \<in> live_slots (ch_palette c).
        slot_value (ch_palette c') (ch_mixed c') r = slot_value (ch_palette c) (ch_mixed c) r) \<and>
     (length (ch_palette c') \<le> 4096 \<or> length (ch_palette c') = 4097 \<and> ch_free c' = []) \<and>
     slot < length (ch_palette c')"

lemma interned_existing:
  assumes si: "slots_inv c" and ii: "index_inv c" and len: "length (ch_palette c) \<le> 4096"
    and s: "s < length (ch_palette c)" "0 < pe_refs (ch_palette c ! s)"
      "pe_content (ch_palette c ! s) = ct"
    and ct: "content_ok t' ct" "content_value t' ct = v" "slot_value (ch_palette c) (ch_mixed c) s = v"
      "\<forall>k \<in> mixed_slots (ch_palette c). mt_cells t' ! k = mt_cells (ch_mixed c) ! k"
      "mixed_inv t' (mixed_slots (ch_palette c) \<union> {k. ct = Mixed k})"
      "length (mt_cells (ch_mixed c)) \<le> length (mt_cells t')"
  shows "interned c v s (c\<lparr>ch_mixed := t',
    ch_palette := (ch_palette c)[s := (ch_palette c ! s)\<lparr>pe_refs := pe_refs (ch_palette c ! s) + 1\<rparr>]\<rparr>)"
proof -
  let ?pal = "ch_palette c" and ?t = "ch_mixed c"
  let ?pal' = "?pal[s := (?pal ! s)\<lparr>pe_refs := pe_refs (?pal ! s) + 1\<rparr>]"
  have pinv: "palette_inv ?pal ?t" using si by (simp add: slots_inv_def)
  have sl: "s \<in> live_slots ?pal" using s by (simp add: live_slots_def refs_of_def)
  have refs: "refs_of ?pal' = (refs_of ?pal)(s := Suc (refs_of ?pal s))"
    using s(1) by (simp add: refs_of_update) (simp add: refs_of_def)
  have live: "live_slots ?pal' = insert s (live_slots ?pal)" using live_slots_upd [OF refs] .
  then have live': "live_slots ?pal' = live_slots ?pal" using sl by auto
  have "entry_ok t' (?pal ! s)"
    by (rule entry_ok_cong [of ?t "?pal ! s"])
      (use pinv sl ct s in \<open>auto simp: palette_inv_def content_ok_def slot_value_def\<close>)
  then have ok: "entry_ok t' (?pal' ! s)" using s(1) by (simp add: entry_ok_def)
  have same: "pe_content (?pal' ! r) = pe_content (?pal ! r) \<and> pe_faces (?pal' ! r) = pe_faces (?pal ! r)" for r
    using s(1) by (cases "r = s") auto
  note ext = palette_inv_extend [OF pinv live same ct(4) _ ok]
  have mi: "mixed_inv t' (mixed_slots ?pal \<union> {k. pe_content (?pal' ! s) = Mixed k})"
    using ct(5) s(1,3) by simp
  have "palette_inv ?pal' t'" "\<forall>r \<in> live_slots ?pal. slot_value ?pal' t' r = slot_value ?pal ?t r"
    using ext [OF mi] sl by blast+
  moreover have "contents_in_table ?pal' t'"
  proof -
    have "e \<in> set ?pal \<or> pe_content e = ct" if "e \<in> set ?pal'" for e
      using set_update_subset_insert [of ?pal s] that s(3) by fastforce
    then show ?thesis using si ct(1,6) by (fastforce simp: slots_inv_def contents_in_table_def content_ok_def)
  qed
  ultimately show ?thesis using si ii refs live' s ct len sl
    by (simp add: interned_def slots_inv_def index_inv_def)
qed

lemma palette_inv_new:
  assumes pinv: "palette_inv pal t" and fresh: "\<forall>r \<in> live_slots pal. slot_value pal t r \<noteq> v"
    and ct: "content_ok t' ct" "content_value t' ct = v"
      "\<forall>k \<in> mixed_slots pal. mt_cells t' ! k = mt_cells t ! k"
      "mixed_inv t' (mixed_slots pal \<union> {k. ct = Mixed k})"
    and refs: "refs_of pal' = (refs_of pal)(s := 1)"
    and entry: "pal' ! s = \<lparr>pe_content = ct, pe_refs = 1, pe_faces = permeability (value_view v)\<rparr>"
    and same: "\<And>r. r \<in> live_slots pal \<Longrightarrow> pal' ! r = pal ! r"
  shows "palette_inv pal' t'" "\<forall>r \<in> live_slots pal. slot_value pal' t' r = slot_value pal t r"
    "slot_value pal' t' s = v" "live_slots pal' = insert s (live_slots pal)"
proof -
  show live: "live_slots pal' = insert s (live_slots pal)" using live_slots_upd refs by simp
  show sv: "slot_value pal' t' s = v" using entry ct(2) by (simp add: slot_value_def)
  have ok: "entry_ok t' (pal' ! s)" using entry ct by (simp add: entry_ok_def faces_of_ok)
  have mi: "mixed_inv t' (mixed_slots pal \<union> {k. pe_content (pal' ! s) = Mixed k})"
    using ct(4) entry by simp
  have same': "pe_content (pal' ! r) = pe_content (pal ! r) \<and> pe_faces (pal' ! r) = pe_faces (pal ! r)"
    if "r \<in> live_slots pal" for r using same [OF that] by simp
  show "palette_inv pal' t'" "\<forall>r \<in> live_slots pal. slot_value pal' t' r = slot_value pal t r"
    using palette_inv_extend [OF pinv live same' ct(3) mi ok] fresh sv by blast+
qed

lemma interned_fresh:
  assumes si: "slots_inv c" and ii: "index_inv c" and len: "length (ch_palette c) \<le> 4096"
    and fresh: "\<forall>r \<in> live_slots (ch_palette c). slot_value (ch_palette c) (ch_mixed c) r \<noteq> v"
    and ct: "content_ok t' ct" "content_value t' ct = v"
      "\<forall>k \<in> mixed_slots (ch_palette c). mt_cells t' ! k = mt_cells (ch_mixed c) ! k"
      "mixed_inv t' (mixed_slots (ch_palette c) \<union> {k. ct = Mixed k})"
    and grow: "length (mt_cells (ch_mixed c)) \<le> length (mt_cells t')"
      "\<And>e. e \<in> set (ch_palette c') \<Longrightarrow> e \<in> set (ch_palette c) \<or> pe_content e = ct"
    and refs: "refs_of (ch_palette c') = (refs_of (ch_palette c))(s := 1)" "s \<notin> live_slots (ch_palette c)"
      "s < length (ch_palette c')"
    and entry: "ch_palette c' ! s = \<lparr>pe_content = ct, pe_refs = 1, pe_faces = permeability (value_view v)\<rparr>"
    and same: "\<And>r. r \<in> live_slots (ch_palette c) \<Longrightarrow> ch_palette c' ! r = ch_palette c ! r"
    and c': "ch_mixed c' = t'" "index_inv c'" "entries c' = entries c" "ch_pos c' = ch_pos c"
      "ch_live_entries c' = ch_live_entries c + 1" "distinct (ch_free c')"
      "set (ch_free c') = {..<length (ch_palette c')} - insert s (live_slots (ch_palette c))"
      "length (ch_palette c') \<le> 4096 \<or> length (ch_palette c') = 4097 \<and> ch_free c' = []"
  shows "interned c v s c'"
proof -
  have pinv: "palette_inv (ch_palette c) (ch_mixed c)" using si by (simp add: slots_inv_def)
  note new = palette_inv_new [OF pinv fresh ct refs(1) entry same]
  have "ch_live_entries c' = card (insert s (live_slots (ch_palette c)))"
    using si c'(5) refs(2) by (simp add: slots_inv_def)
  moreover have "contents_in_table (ch_palette c') t'"
    using si ct(1) grow by (fastforce simp: slots_inv_def contents_in_table_def content_ok_def)
  ultimately have "slots_inv c'" using new c' by (simp add: slots_inv_def)
  moreover have "refs_of (ch_palette c) s = 0" using refs(2) by (simp add: live_slots_def)
  ultimately show ?thesis using new c' refs by (simp add: interned_def)
qed

lemma intern_correct:
  assumes si: "slots_inv c" and ii: "index_inv c" and len: "length (ch_palette c) \<le> 4096"
    and v: "wf_value v" "is_canonical v" and coll: "collision_free c v"
  obtains slot c' where "intern c v = Some (slot, c')" "interned c v slot c'"
proof -
  let ?pal = "ch_palette c" and ?t = "ch_mixed c"
  let ?P = "\<lambda>ct entry. pe_refs entry > 0 \<and> pe_content entry = ct"
  have pinv: "palette_inv ?pal ?t" using si by (simp add: slots_inv_def)
  have "card (live_slots ?pal) < 65536" using len card_live_slots [of ?pal] by linarith
  then obtain ct t' where ct: "intern_content ?t v = Some (ct, t')" "content_ok t' ct"
      "content_value t' ct = v" "\<forall>k \<in> mixed_slots ?pal. mt_cells t' ! k = mt_cells ?t ! k"
      "length (mt_cells ?t) \<le> length (mt_cells t')"
      "mixed_inv t' (mixed_slots ?pal \<union> {k. ct = Mixed k})"
      "\<forall>s \<in> live_slots ?pal. pe_content (?pal ! s) = ct \<longleftrightarrow> slot_value ?pal ?t s = v"
    using intern_content_correct [OF pinv v] coll unfolding collision_free_def by metis
  show thesis
  proof (cases "position (?P ct) ?pal")
    case (Some s)
    then have s: "s < length ?pal" "0 < pe_refs (?pal ! s)" "pe_content (?pal ! s) = ct"
      using position_Some by fastforce+
    moreover from s have "slot_value ?pal ?t s = v"
      using ct(7) by (simp add: live_slots_def refs_of_def)
    ultimately show thesis
      by (intro that [OF _ interned_existing [OF si ii len s ct(2,3) _ ct(4,6,5)]])
        (use ct(1) Some len in \<open>simp_all add: intern_def Let_def vec_simps\<close>)
  next
    case None
    then have "\<not> ?P ct (?pal ! r)" if "r < length ?pal" for r
      using nth_mem [OF that] by (simp add: position_None)
    then have "pe_content (?pal ! r) \<noteq> ct" if "r \<in> live_slots ?pal" for r
      using that live_slots_less [OF that] by (fastforce simp: live_slots_def refs_of_def)
    then have fresh: "\<forall>r \<in> live_slots ?pal. slot_value ?pal ?t r \<noteq> v" using ct(7) by blast
    let ?e = "\<lparr>pe_content = ct, pe_refs = 1, pe_faces = permeability (value_view v)\<rparr>"
    have fo: "faces_of ct t' = Some (permeability (value_view v))" using ct(2,3) by (simp add: faces_of_ok)
    note fresh_c = interned_fresh [OF si ii len fresh ct(2-4,6,5)]
    show thesis
    proof (cases "vec_pop (ch_free c)")
      case (Some p)
      then obtain s fr where p: "vec_pop (ch_free c) = Some (s, fr)" by (cases p) auto
      then have free: "ch_free c = fr @ [s]" by (simp add: vec_pop_Some)
      then have "insert s (set fr) = {..<length ?pal} - live_slots ?pal" "s \<notin> set fr" "distinct fr"
        using si by (auto simp: slots_inv_def)
      then have s: "s < length ?pal" "s \<notin> live_slots ?pal" "distinct fr"
          "set fr = {..<length ?pal} - insert s (live_slots ?pal)" by auto
      let ?c = "c\<lparr>ch_mixed := t', ch_palette := ?pal[s := ?e], ch_free := fr,
        ch_live_entries := ch_live_entries c + 1\<rparr>"
      have "intern c v = Some (s, ?c)"
        using ct(1) None p fo s by (simp add: intern_def Let_def vec_simps)
      moreover have "interned c v s ?c"
        by (rule fresh_c) (use s ii len set_update_subset_insert [of ?pal s ?e] in \<open>auto simp: refs_of_update index_inv_def nth_list_update\<close>)
      ultimately show thesis by (rule that)
    next
      case pop: None
      then have all: "live_slots ?pal = {..<length ?pal}"
        using si live_slots_less by (auto simp: slots_inv_def)
      let ?c1 = "c\<lparr>ch_mixed := t', ch_palette := ?pal @ [?e]\<rparr>"
      have "ba_inv (ch_indices ?c1)" "ba_len (ch_indices ?c1) = 4096" "length (ch_palette ?c1) \<le> 65536"
        "\<forall>s \<in> set (entries ?c1). s < length (ch_palette ?c1)"
        using ii len by (auto simp: index_inv_def)
      then obtain a where a: "grow_indices_if_needed ?c1 = Some (?c1\<lparr>ch_indices := a\<rparr>)"
          "index_inv (?c1\<lparr>ch_indices := a\<rparr>)" "ba_list a = entries ?c1"
        using grow_indices_correct by blast
      let ?c = "?c1\<lparr>ch_indices := a, ch_live_entries := ch_live_entries c + 1\<rparr>"
      have "intern c v = Some (length ?pal, ?c)"
        using ct(1) None pop fo len a(1) by (simp add: intern_def Let_def)
      moreover have "interned c v (length ?pal) ?c"
        by (intro fresh_c)
          (use len a pop all in \<open>auto simp: refs_of_push nth_append index_inv_def dest: live_slots_less\<close>)
      ultimately show thesis by (rule that)
    qed
  qed
qed

end
