(* ===== verification/Chunk_Repack.thy ===== *)
theory Chunk_Repack
  imports Chunk_Palette
begin

text \<open>
  Repacking a palette: the loop copies the entries in use, in slot order, into a fresh palette and
  a fresh mixed table, and records where each went. No collision hypothesis is needed: two arrays
  in use never share a hash in a table that satisfies its invariant.
\<close>

definition live_list :: "palette_entry list \<Rightarrow> nat \<Rightarrow> nat list" where
  "live_list pal j = filter (\<lambda>s. 0 < refs_of pal s) [0..<j]"

lemma set_live_list: "set (live_list pal j) = live_slots pal \<inter> {..<j}"
  by (auto simp: live_list_def live_slots_def)

lemma distinct_live_list [simp]: "distinct (live_list pal j)"
  by (simp add: live_list_def)

lemma live_list_Suc:
  "live_list pal (Suc j) = live_list pal j @ (if j \<in> live_slots pal then [j] else [])"
  by (simp add: live_list_def live_slots_def)

lemma length_live_list: "length (live_list pal (length pal)) = card (live_slots pal)"
proof -
  have "live_slots pal \<inter> {..<length pal} = live_slots pal" by (auto dest: live_slots_less)
  then show ?thesis by (metis distinct_card distinct_live_list set_live_list)
qed

text \<open>The loop invariant: the first slots in use, \<open>js\<close>, have been copied.\<close>

definition repacked ::
  "palette_entry list \<Rightarrow> mixed_table \<Rightarrow> nat list \<Rightarrow> nat list \<Rightarrow> palette_entry list \<Rightarrow> mixed_table \<Rightarrow> bool" where
  "repacked pal t js remap packed mixed \<longleftrightarrow>
     palette_inv packed mixed \<and> length packed = length js \<and> length remap = length pal \<and>
     (\<forall>k < length js. remap ! (js ! k) = k \<and> refs_of packed k = refs_of pal (js ! k) \<and>
        slot_value packed mixed k = slot_value pal t (js ! k))"

lemma repacked_content:
  assumes inv: "palette_inv pal t" and rp: "repacked pal t js remap packed mixed"
    and js: "set js \<subseteq> live_slots pal" "length js \<le> 4096" and s: "s \<in> live_slots pal" "s \<notin> set js"
  shows "\<exists>ct m.
    (case pe_content (pal ! s) of
       Mixed slot \<Rightarrow> do { cs \<leftarrow> mixed_get t slot; (slot', m) \<leftarrow> mixed_insert mixed cs; Some (Mixed slot', m) }
     | other \<Rightarrow> Some (other, mixed)) = Some (ct, m) \<and>
    content_ok m ct \<and> content_value m ct = slot_value pal t s \<and>
    (\<forall>k \<in> mixed_slots packed. mt_cells m ! k = mt_cells mixed ! k) \<and>
    mixed_inv m (mixed_slots packed \<union> {k. ct = Mixed k})"
proof (cases "pe_content (pal ! s)")
  case (Mixed slot)
  let ?cs = "mt_cells t ! slot"
  have ok: "content_ok t (Mixed slot)" using inv s Mixed by (auto simp: palette_inv_def entry_ok_def)
  have slot: "slot \<in> mixed_slots pal" using s(1) Mixed by (rule mixed_slotsI)
  have mi: "mixed_inv mixed (mixed_slots packed)" using rp by (simp add: repacked_def palette_inv_def)
  have hash: "mixed_hash (mt_cells mixed ! m) \<noteq> mixed_hash ?cs" if m: "m \<in> mixed_slots packed" for m
  proof
    assume eq: "mixed_hash (mt_cells mixed ! m) = mixed_hash ?cs"
    obtain k where k: "k \<in> live_slots packed" "pe_content (packed ! k) = Mixed m"
      using m by (auto simp: mixed_slots_def)
    then have "k < length js" using rp live_slots_less by (fastforce simp: repacked_def)
    then have j: "js ! k \<in> live_slots pal" "slot_value pal t (js ! k) = VCells (mt_cells mixed ! m)"
        "js ! k \<noteq> s"
      using rp k(2) js(1) s(2) nth_mem
      by (auto simp: repacked_def slot_value_def content_value_def)
    then obtain m' where m': "pe_content (pal ! (js ! k)) = Mixed m'" "mt_cells t ! m' = mt_cells mixed ! m"
      by (auto simp: slot_value_def content_value_def split: block_content.splits)
    have "m' = slot"
      using mixed_inv_inj [of t "mixed_slots pal" m' slot] inv mixed_slotsI [OF j(1) m'(1)] slot eq m'(2)
      by (simp add: palette_inv_def)
    then have "slot_value pal t (js ! k) = slot_value pal t s" using m'(1) Mixed by (simp add: slot_value_def)
    then show False using inv j s(1) by (auto simp: palette_inv_def dest: inj_onD)
  qed
  have "card (mixed_slots packed) < 65536"
    using card_mixed_slots [of packed] card_live_slots [of packed] rp js(2) by (simp add: repacked_def)
  then obtain m t' where m: "mixed_insert mixed ?cs = Some (m, t')" "mixed_inv t' (insert m (mixed_slots packed))"
      "mt_cells t' ! m = ?cs" "m < length (mt_cells t')"
      "\<forall>k \<in> mixed_slots packed. mt_cells t' ! k = mt_cells mixed ! k"
    using mixed_insert_correct [OF mi, of ?cs] hash unfolding no_collision_def by metis
  have "mixed_slots packed \<union> {k. Mixed m = Mixed k} = insert m (mixed_slots packed)" by auto
  moreover have "content_ok t' (Mixed m)" "content_value t' (Mixed m) = slot_value pal t s"
    using m ok Mixed by (auto simp: content_ok_def content_value_def slot_value_def)
  moreover have "mixed_get t slot = Some ?cs" using ok by (simp add: content_ok_def mixed_get_def)
  ultimately show ?thesis using m Mixed by (intro exI [of _ "Mixed m"] exI [of _ t']) simp
qed (use inv rp s in \<open>auto simp: palette_inv_def entry_ok_def content_ok_def content_value_def
    slot_value_def repacked_def\<close>)

lemma repacked_push:
  assumes inv: "palette_inv pal t" and rp: "repacked pal t js remap packed mixed"
    and js: "set js \<subseteq> live_slots pal" "distinct js" and s: "s \<in> live_slots pal" "s \<notin> set js"
    and ct: "content_ok m ct" "content_value m ct = slot_value pal t s"
      "\<forall>k \<in> mixed_slots packed. mt_cells m ! k = mt_cells mixed ! k"
      "mixed_inv m (mixed_slots packed \<union> {k. ct = Mixed k})"
  shows "repacked pal t (js @ [s]) (remap[s := length packed])
    (packed @ [\<lparr>pe_content = ct, pe_refs = pe_refs (pal ! s), pe_faces = pe_faces (pal ! s)\<rparr>]) m"
proof -
  let ?e = "\<lparr>pe_content = ct, pe_refs = pe_refs (pal ! s), pe_faces = pe_faces (pal ! s)\<rparr>"
  let ?n = "length packed" and ?p = "packed @ [?e]"
  have p: "palette_inv packed mixed" and len: "?n = length js" "length remap = length pal"
    and vals: "\<And>k. k < length js \<Longrightarrow> slot_value packed mixed k = slot_value pal t (js ! k)"
    using rp by (auto simp: repacked_def)
  obtain n where n: "pe_refs (pal ! s) = Suc n"
    using s live_slots_less [OF s(1)] by (auto simp: live_slots_def refs_of_def gr0_conv_Suc)
  have refs: "refs_of ?p = (refs_of packed)(?n := Suc n)" by (simp add: refs_of_push n)
  have live: "live_slots ?p = insert ?n (live_slots packed)" by (rule live_slots_upd [OF refs])
  have ok: "entry_ok m (?p ! ?n)"
    by (rule entry_ok_cong [of t "pal ! s"])
      (use inv s ct in \<open>auto simp: palette_inv_def slot_value_def content_ok_def\<close>)
  have fresh: "\<forall>r \<in> live_slots packed. slot_value packed mixed r \<noteq> slot_value ?p m ?n"
  proof
    fix r assume r: "r \<in> live_slots packed"
    then have r: "r < length js" using len live_slots_less by force
    then have "js ! r \<in> set js" by simp
    then have "slot_value packed mixed r \<noteq> slot_value pal t s"
      using vals [OF r] inv js(1) s by (auto simp: palette_inv_def dest: inj_onD)
    then show "slot_value packed mixed r \<noteq> slot_value ?p m ?n" using ct by (simp add: slot_value_def)
  qed
  have ext: "palette_inv ?p m" "\<forall>r \<in> live_slots packed. slot_value ?p m r = slot_value packed mixed r"
    by (rule palette_inv_extend [OF p live _ ct(3) _ ok fresh];
        use ct(4) in \<open>simp add: nth_append live_slots_less\<close>)+
  have liv: "k \<in> live_slots packed" if "k < length js" for k
    using rp that js(1) nth_mem by (fastforce simp: repacked_def live_slots_def)
  have "slot_value ?p m ?n = slot_value pal t s" using ct by (simp add: slot_value_def)
  moreover have "refs_of pal s = Suc n" using n live_slots_less [OF s(1)] by (simp add: refs_of_def)
  moreover have "s \<noteq> js ! k" if "k < length js" for k using s(2) nth_mem [OF that] by auto
  ultimately show ?thesis
    using ext rp liv vals live_slots_less [OF s(1)] len refs
    by (auto simp: repacked_def nth_append less_Suc_eq)
qed

lemma repack_loop_correct:
  assumes inv: "palette_inv pal t" and len: "card (live_slots pal) \<le> 4096"
  shows "rest = drop j pal \<Longrightarrow> j \<le> length pal \<Longrightarrow> repacked pal t (live_list pal j) remap packed mixed \<Longrightarrow>
    \<exists>remap' packed' mixed'. repack_loop t rest j remap packed mixed = Some (remap', packed', mixed') \<and>
      repacked pal t (live_list pal (length pal)) remap' packed' mixed'"
proof (induction rest arbitrary: j remap packed mixed)
  case Nil
  then show ?case by simp
next
  case (Cons entry rest)
  then have j: "j < length pal" by (metis drop_all list.distinct(1) not_less)
  then have e: "entry = pal ! j" and rest: "rest = drop (Suc j) pal"
    using Cons.prems(1) by (metis Cons_nth_drop_Suc list.inject)+
  let ?js = "live_list pal j"
  have js: "set ?js \<subseteq> live_slots pal" "j \<notin> set ?js" by (auto simp: set_live_list)
  show ?case
  proof (cases "pe_refs entry = 0")
    case True
    then have "live_list pal (Suc j) = ?js" using j e by (simp add: live_list_Suc live_slots_def refs_of_def)
    then show ?thesis using Cons.IH [OF rest] Cons.prems(3) j True by simp
  next
    case False
    then have live: "j \<in> live_slots pal" using j e by (simp add: live_slots_def refs_of_def)
    have "length ?js \<le> 4096"
      using len card_mono [OF finite_live_slots js(1)] distinct_card [of ?js] by simp
    moreover have "length packed = length ?js" "length remap = length pal"
      using Cons.prems(3) by (auto simp: repacked_def)
    ultimately have n: "length packed < 65536" "j < length remap" "length ?js \<le> 4096" using j by auto
    obtain ct m where ct: "(case pe_content (pal ! j) of
          Mixed slot \<Rightarrow> do { cs \<leftarrow> mixed_get t slot; (slot', m) \<leftarrow> mixed_insert mixed cs; Some (Mixed slot', m) }
        | other \<Rightarrow> Some (other, mixed)) = Some (ct, m)"
        "content_ok m ct" "content_value m ct = slot_value pal t j"
        "\<forall>k \<in> mixed_slots packed. mt_cells m ! k = mt_cells mixed ! k"
        "mixed_inv m (mixed_slots packed \<union> {k. ct = Mixed k})"
      using repacked_content [OF inv Cons.prems(3) js(1) n(3) live js(2)] by blast
    have "repacked pal t (live_list pal (Suc j)) (remap[j := length packed])
        (packed @ [\<lparr>pe_content = ct, pe_refs = pe_refs (pal ! j), pe_faces = pe_faces (pal ! j)\<rparr>]) m"
      using repacked_push [OF inv Cons.prems(3) js(1) _ live js(2) ct(2-5)] live
      by (simp add: live_list_Suc)
    from Cons.IH [OF rest _ this] show ?thesis
      using j False ct(1) e n by (simp add: vec_simps)
  qed
qed

lemma ba_list_width_0:
  assumes "ba_inv a" and "bits_per_entry a = 0"
  shows "ba_list a = replicate (ba_len a) 0"
  using ba_list_bound [OF assms(1)] assms(2) by (intro nth_equalityI) auto

lemma repack_indices_correct:
  assumes inv: "ba_inv a" and len: "ba_len a = 4096" and n: "n \<le> 4096"
    and remap: "\<And>s. s \<in> set (ba_list a) \<Longrightarrow> s < length remap \<and> remap ! s < n"
  shows "\<exists>a'. repack_indices a remap (bits_for n) = Some a' \<and> ba_inv a' \<and> ba_len a' = 4096 \<and>
    bits_per_entry a' = bits_for n \<and> ba_list a' = map (\<lambda>s. remap ! s) (ba_list a)"
proof -
  have b: "n \<le> 2 ^ bits_for n" "bits_for n \<le> 16"
    using n bits_for_enough [of n] bits_for_least [of n 16] by auto
  have zero: "map (\<lambda>s. remap ! s) (ba_list a) = replicate 4096 0" if "bits_for n = 0"
    using b remap that len by (intro replicate_eqI) fastforce+
  have rm: "vec_get remap s = Some (remap ! s) \<and> remap ! s < 2 ^ bits_for n" if "s \<in> set (ba_list a)" for s
    using remap [OF that] b(1) by auto
  show ?thesis
  proof (cases "bits_for n = bits_per_entry a")
    case True
    obtain a' where a': "ba_remap a (vec_get remap) = Some a'" "ba_inv a'" "ba_len a' = 4096"
        "bits_per_entry a' = bits_for n"
        "bits_per_entry a \<noteq> 0 \<longrightarrow> ba_list a' = map (\<lambda>s. remap ! s) (ba_list a)"
      using ba_remap_correct [OF inv, of "vec_get remap" "\<lambda>s. remap ! s"] rm len True by auto
    then have "ba_list a' = map (\<lambda>s. remap ! s) (ba_list a)"
      using zero ba_list_width_0 [of a'] True by (cases "bits_for n = 0") auto
    then show ?thesis using a' True by (simp add: repack_indices_def)
  next
    case False
    obtain r where r: "ba_new 4096 (bits_for n) = Some r" "ba_inv r" "ba_len r = 4096"
        "bits_per_entry r = bits_for n"
      using ba_new_correct [OF b(2)] by blast
    show ?thesis
    proof (cases "bits_for n = 0")
      case True
      then have "repack_indices a remap (bits_for n) = Some r"
        using False r(1) by (simp add: repack_indices_def)
      moreover have "ba_list r = map (\<lambda>s. remap ! s) (ba_list a)"
        using ba_list_width_0 [OF r(2)] r zero True by simp
      ultimately show ?thesis using r by blast
    next
      case pos: False
      let ?f = "\<lambda>(_ :: bit_array) index. do { slot \<leftarrow> ba_get a index; vec_get remap slot }"
      have f: "?f t i = Some (remap ! (ba_list a ! i)) \<and> remap ! (ba_list a ! i) < 2 ^ bits_per_entry r"
        if "i < 4096" for t i
        using rm [of "ba_list a ! i"] ba_get_list [OF inv] that len r(4) nth_mem by simp
      obtain a' where a': "write_all ba_set ?f [0..<4096] r = Some a'" "ba_inv a'" "ba_len a' = 4096"
          "bits_per_entry a' = bits_for n" "\<forall>j<4096. ba_get a' j = Some (remap ! (ba_list a ! j))"
        using bitarr.write_all_correct [OF r(2), of "[0..<4096]" ?f "\<lambda>i. remap ! (ba_list a ! i)"] f r
        by auto
      moreover have "ba_list a' = map (\<lambda>s. remap ! s) (ba_list a)"
        by (rule ba_listI) (use a' len in simp_all)
      ultimately show ?thesis using r False pos by (simp add: repack_indices_def)
    qed
  qed
qed

lemma repacked_chunk:
  assumes rp: "repacked pal t (live_list pal (length pal)) remap packed mixed"
    and refs: "refs_of pal = count_list es"
  shows "length packed = card (live_slots pal)" and "live_slots packed = {..<length packed}"
    and "s \<in> set es \<Longrightarrow> s < length remap \<and> remap ! s < length packed \<and>
      slot_value packed mixed (remap ! s) = slot_value pal t s"
    and "refs_of packed = count_list (map (\<lambda>s. remap ! s) es)"
proof -
  let ?js = "live_list pal (length pal)"
  have js: "set ?js = live_slots pal" by (auto simp: set_live_list dest: live_slots_less)
  have es: "set es = live_slots pal" using refs by (auto simp: live_slots_def)
  have len: "length packed = length ?js" "length remap = length pal" using rp by (auto simp: repacked_def)
  then show "length packed = card (live_slots pal)" by (simp add: length_live_list)
  have k: "remap ! (?js ! k) = k" "refs_of packed k = refs_of pal (?js ! k)"
    "slot_value packed mixed k = slot_value pal t (?js ! k)" if "k < length ?js" for k
    using rp that by (auto simp: repacked_def)
  have pos: "0 < refs_of pal (?js ! k)" if "k < length ?js" for k
    using nth_mem [OF that] js by (simp add: live_slots_def)
  show "live_slots packed = {..<length packed}"
    using k(2) pos len live_slots_less [of _ packed] by (auto simp: live_slots_def)
  have ex: "\<exists>k < length ?js. ?js ! k = s" if "s \<in> set es" for s
    using that js es by (metis in_set_conv_nth)
  show "s \<in> set es \<Longrightarrow> s < length remap \<and> remap ! s < length packed \<and>
      slot_value packed mixed (remap ! s) = slot_value pal t s"
    using ex [of s] k len es live_slots_less by fastforce
  have inj: "inj_on (\<lambda>s. remap ! s) (set es)"
    using ex k(1) by (intro inj_onI) metis
  show "refs_of packed = count_list (map (\<lambda>s. remap ! s) es)"
  proof
    fix k
    show "refs_of packed k = count_list (map (\<lambda>s. remap ! s) es) k"
    proof (cases "k < length ?js")
      case True
      then have "?js ! k \<in> set es" using js es nth_mem by blast
      from count_list_inj_map [OF inj this] show ?thesis using k True refs by simp
    next
      case False
      then have "k \<notin> (\<lambda>s. remap ! s) ` set es" using ex k(1) by (metis imageE)
      then show ?thesis using False len by (simp add: refs_of_def count_list_0_iff)
    qed
  qed
qed

lemma repack_correct:
  assumes si: "slots_inv c" and a: "ba_inv (ch_indices c)" "ba_len (ch_indices c) = 4096"
    and refs: "refs_of (ch_palette c) = count_list (entries c)"
    and card: "card (live_slots (ch_palette c)) \<le> 4096"
  shows "\<exists>c'. repack c = Some c' \<and> chunk_inv c' \<and> ch_pos c' = ch_pos c \<and>
    (\<forall>i < 4096. chunk_value c' i = chunk_value c i) \<and>
    length (ch_palette c') = card (live_slots (ch_palette c)) \<and>
    bits_per_entry (ch_indices c') = bits_for (length (ch_palette c')) \<and> ch_free c' = []"
proof -
  let ?pal = "ch_palette c" and ?t = "ch_mixed c"
  have pinv: "palette_inv ?pal ?t" using si by (simp add: slots_inv_def)
  have "repacked ?pal ?t (live_list ?pal 0) (replicate (length ?pal) 65535) [] mixed_default"
    using mixed_inv_default
    by (simp add: repacked_def live_list_def palette_inv_def live_slots_def refs_of_def mixed_slots_def)
  from repack_loop_correct [OF pinv card _ _ this]
  obtain remap packed mixed where loop:
      "repack_loop ?t ?pal 0 (replicate (length ?pal) 65535) [] mixed_default = Some (remap, packed, mixed)"
      "repacked ?pal ?t (live_list ?pal (length ?pal)) remap packed mixed" by auto
  note rc = repacked_chunk [OF loop(2) refs]
  have n: "length packed \<le> 4096" using rc(1) card by simp
  obtain a' where a': "repack_indices (ch_indices c) remap (bits_for (length packed)) = Some a'"
      "ba_inv a'" "ba_len a' = 4096" "bits_per_entry a' = bits_for (length packed)"
      "ba_list a' = map (\<lambda>s. remap ! s) (entries c)"
    using repack_indices_correct [OF a n, of remap] rc(3) by blast
  let ?c = "c\<lparr>ch_indices := a', ch_palette := packed, ch_free := [], ch_mixed := mixed\<rparr>"
  have "repack c = Some ?c" using loop(1) a'(1) by (simp add: repack_def Let_def)
  moreover have "contents_in_table packed mixed"
    using loop(2) rc(2) unfolding contents_in_table_def repacked_def palette_inv_def entry_ok_def content_ok_def
    by (metis in_set_conv_nth lessThan_iff)
  then have "slots_inv ?c"
    using si loop(2) rc(1,2) by (simp add: slots_inv_def repacked_def)
  moreover have "index_inv ?c"
    using a' rc(3) n bits_for_enough [of "length packed"] by (auto simp: index_inv_def)
  moreover have "chunk_value ?c i = chunk_value c i" if "i < 4096" for i
    using that a(2) a'(5) rc(3) [of "entries c ! i"] by (simp add: chunk_value_def)
  ultimately show ?thesis using rc(1,4) a'(4,5) n by (intro exI [of _ ?c]) (simp add: chunk_inv_def)
qed

end
