(* ===== verification/Chunk_Write.thy ===== *)
theory Chunk_Write
  imports Chunk_Repack
begin

text \<open>
  Releasing a reference, and the block writes built from interning and releasing: each keeps the
  chunk invariant and changes the abstract chunk at one index only.
\<close>

section \<open>Releasing a reference\<close>

lemma palette_inv_shrink:
  assumes inv: "palette_inv pal t" and live: "live_slots pal' \<subseteq> live_slots pal"
    and same: "\<And>r. r \<in> live_slots pal' \<Longrightarrow>
      pe_content (pal' ! r) = pe_content (pal ! r) \<and> pe_faces (pal' ! r) = pe_faces (pal ! r)"
    and cells: "mt_cells t' = mt_cells t" and mi: "mixed_inv t' (mixed_slots pal')"
  shows "palette_inv pal' t'" and "\<And>r. r \<in> live_slots pal' \<Longrightarrow> slot_value pal' t' r = slot_value pal t r"
proof -
  show val: "slot_value pal' t' r = slot_value pal t r" if "r \<in> live_slots pal'" for r
    using same [OF that] cells
    by (cases "pe_content (pal ! r)") (simp_all add: slot_value_def content_value_def)
  have ok: "entry_ok t' (pal' ! r)" if "r \<in> live_slots pal'" for r
    by (rule entry_ok_cong [of t "pal ! r"])
      (use inv live that same [OF that] val [OF that] cells in
        \<open>auto simp: palette_inv_def entry_ok_def content_ok_def slot_value_def\<close>)
  have "inj_on (slot_value pal t) (live_slots pal')"
    using inv live by (auto simp: palette_inv_def intro: inj_on_subset)
  then have "inj_on (slot_value pal' t') (live_slots pal')" using val by (simp cong: inj_on_cong)
  then show "palette_inv pal' t'" using ok mi by (simp add: palette_inv_def)
qed

lemma palette_inv_content_inj:
  "palette_inv pal t \<Longrightarrow> r \<in> live_slots pal \<Longrightarrow> s \<in> live_slots pal \<Longrightarrow>
     pe_content (pal ! r) = pe_content (pal ! s) \<Longrightarrow> r = s"
  unfolding palette_inv_def by (metis inj_onD slot_value_def)

lemma card_entries: "ba_len a = 4096 \<Longrightarrow> card (set (ba_list a)) \<le> 4096"
  by (metis card_length length_ba_list)

text \<open>Dropping a reference that is not the last one.\<close>

lemma release_shared:
  assumes si: "slots_inv c" and ii: "index_inv c" and s: "s < length (ch_palette c)"
    and refs: "refs_of (ch_palette c) = (count_list (entries c))(s := Suc n)"
      "count_list (entries c) s = n" "0 < n"
    and len: "length (ch_palette c) \<le> 4096 \<or> length (ch_palette c) = 4097 \<and> ch_free c = []"
  defines "c' \<equiv> c\<lparr>ch_palette := (ch_palette c)[s := (ch_palette c ! s)\<lparr>pe_refs := n\<rparr>]\<rparr>"
  shows "chunk_inv c'" and "i < 4096 \<Longrightarrow> chunk_value c' i = chunk_value c i"
proof -
  let ?pal = "ch_palette c" and ?pal' = "ch_palette c'"
  have refs': "refs_of ?pal' = count_list (entries c')"
    using s refs by (auto simp: c'_def refs_of_update)
  have es: "set (entries c) = live_slots ?pal"
    using refs unfolding live_slots_def by (auto split: if_splits)
  have live: "live_slots ?pal' = live_slots ?pal"
    using refs' refs by (auto simp: live_slots_def c'_def split: if_splits)
  have same: "pe_content (?pal' ! r) = pe_content (?pal ! r) \<and> pe_faces (?pal' ! r) = pe_faces (?pal ! r)" for r
    using s by (cases "r = s") (auto simp: c'_def)
  have pinv: "palette_inv ?pal (ch_mixed c)" using si by (simp add: slots_inv_def)
  have "mixed_slots ?pal' = mixed_slots ?pal" using live same by (auto simp: mixed_slots_def)
  then have p: "palette_inv ?pal' (ch_mixed c')"
    and val: "\<And>r. r \<in> live_slots ?pal' \<Longrightarrow> slot_value ?pal' (ch_mixed c') r = slot_value ?pal (ch_mixed c) r"
    using palette_inv_shrink [OF pinv, of ?pal' "ch_mixed c'"] live same pinv
    by (auto simp: c'_def palette_inv_def)
  have "length ?pal \<le> 4096"
  proof (rule ccontr)
    assume "\<not> length ?pal \<le> 4096"
    then have "live_slots ?pal = {..<4097}" using len si live_slots_less [of _ ?pal] by (auto simp: slots_inv_def)
    then show False using es card_entries [of "ch_indices c"] ii by (simp add: index_inv_def)
  qed
  moreover have "contents_in_table ?pal' (ch_mixed c')"
    using si same set_update_subset_insert [of ?pal s] s
    by (fastforce simp: contents_in_table_def slots_inv_def c'_def in_set_conv_nth)
  ultimately show "chunk_inv c'" using p refs' live si ii
    by (simp add: chunk_inv_def slots_inv_def index_inv_def) (simp add: c'_def)
  show "i < 4096 \<Longrightarrow> chunk_value c' i = chunk_value c i"
    using val [of "entries c ! i"] es live ii nth_mem [of i "entries c"]
    by (simp add: chunk_value_def index_inv_def) (simp add: c'_def)
qed

text \<open>Dropping the last reference: the slot and, for a mixed block, its cell array become free.\<close>

lemma release_last:
  assumes si: "slots_inv c" and s: "s \<in> live_slots (ch_palette c)"
  defines "pal' \<equiv> (ch_palette c)[s := (ch_palette c ! s)\<lparr>pe_refs := 0\<rparr>]"
  shows "\<exists>t'. (case pe_content (ch_palette c ! s) of
        Mixed mixed_slot \<Rightarrow> mixed_remove (ch_mixed c) mixed_slot | _ \<Rightarrow> Some (ch_mixed c)) = Some t' \<and>
      0 < ch_live_entries c \<and> refs_of pal' = (refs_of (ch_palette c))(s := 0) \<and>
      slots_inv (c\<lparr>ch_palette := pal', ch_mixed := t', ch_free := ch_free c @ [s],
        ch_live_entries := ch_live_entries c - 1\<rparr>) \<and>
      (\<forall>r \<in> live_slots pal'. slot_value pal' t' r = slot_value (ch_palette c) (ch_mixed c) r)"
proof -
  let ?pal = "ch_palette c" and ?t = "ch_mixed c"
  have pinv: "palette_inv ?pal ?t" and mi: "mixed_inv ?t (mixed_slots ?pal)"
    using si by (auto simp: slots_inv_def palette_inv_def)
  have lt: "s < length ?pal" using s by (rule live_slots_less)
  have refs: "refs_of pal' = (refs_of ?pal)(s := 0)" using lt by (simp add: pal'_def refs_of_update)
  then have live: "live_slots pal' = live_slots ?pal - {s}" by (auto simp: live_slots_def)
  have same: "pal' ! r = ?pal ! r" if "r \<in> live_slots pal'" for r using that live by (auto simp: pal'_def)
  have ms: "mixed_slots pal' = mixed_slots ?pal - {k. pe_content (?pal ! s) = Mixed k}"
    using live same palette_inv_content_inj [OF pinv s] by (auto simp: mixed_slots_def)
  obtain t' where t': "(case pe_content (?pal ! s) of
        Mixed m \<Rightarrow> mixed_remove ?t m | _ \<Rightarrow> Some ?t) = Some t'"
      "mixed_inv t' (mixed_slots pal')" "mt_cells t' = mt_cells ?t"
  proof (cases "pe_content (?pal ! s)")
    case (Mixed m)
    then have "{k. pe_content (?pal ! s) = Mixed k} = {m}" by auto
    then show ?thesis using that mixed_remove_correct [OF mi mixed_slotsI [OF s Mixed]] Mixed ms by auto
  qed (use that mi ms in auto)
  have "palette_inv pal' t'" and val: "\<And>r. r \<in> live_slots pal' \<Longrightarrow> slot_value pal' t' r = slot_value ?pal ?t r"
    using palette_inv_shrink [OF pinv _ _ t'(3,2)] live same by auto
  moreover have "ch_live_entries c = card (live_slots ?pal)" using si by (simp add: slots_inv_def)
  then have "0 < ch_live_entries c" "card (live_slots pal') = ch_live_entries c - 1"
    using s live by (auto simp: card_gt_0_iff)
  moreover have "contents_in_table pal' t'"
  proof -
    have "\<exists>e' \<in> set ?pal. pe_content e' = pe_content e" if "e \<in> set pal'" for e
      using set_update_subset_insert [of ?pal s] that nth_mem [OF lt] unfolding pal'_def by fastforce
    then show ?thesis using si t'(3) unfolding slots_inv_def contents_in_table_def by metis
  qed
  ultimately show ?thesis using t'(1) refs si live lt s
    by (intro exI [of _ t']) (auto simp: slots_inv_def pal'_def)
qed

lemma no_repack_fits:
  fixes len :: nat
  assumes "n \<le> 4096" and "\<not> bits_for n < b" and "len \<le> 2 ^ b" and "len \<le> 4097"
  shows "len \<le> 4096"
proof -
  have "b \<le> 12" using assms(1,2) bits_for_least [of n 12] by simp
  then have "(2 :: nat) ^ b \<le> 2 ^ 12" by (rule power_increasing) simp
  then show ?thesis using assms by simp
qed

lemma release_correct:
  assumes si: "slots_inv c" and ii: "index_inv c"
    and refs: "refs_of (ch_palette c) = (count_list (entries c))(s := Suc (count_list (entries c) s))"
    and len: "length (ch_palette c) \<le> 4096 \<or> length (ch_palette c) = 4097 \<and> ch_free c = []"
  shows "\<exists>c'. release c s = Some c' \<and> chunk_inv c' \<and> ch_pos c' = ch_pos c \<and>
    (\<forall>i < 4096. chunk_value c' i = chunk_value c i)"
proof -
  let ?pal = "ch_palette c" and ?n = "count_list (entries c) s"
  have s: "s \<in> live_slots ?pal" using refs by (simp add: live_slots_def)
  then have lt: "s < length ?pal" by (rule live_slots_less)
  have r: "pe_refs (?pal ! s) = Suc ?n" using lt refs by (metis fun_upd_same refs_of_def)
  show ?thesis
  proof (cases "?n = 0")
    case False
    then show ?thesis using release_shared [OF si ii lt refs refl _ len] lt r
      by (auto simp: release_def vec_simps Let_def)
  next
    case True
    let ?pal' = "?pal[s := (?pal ! s)\<lparr>pe_refs := 0\<rparr>]"
    obtain t' where t': "(case pe_content (?pal ! s) of
          Mixed mixed_slot \<Rightarrow> mixed_remove (ch_mixed c) mixed_slot | _ \<Rightarrow> Some (ch_mixed c)) = Some t'"
        "0 < ch_live_entries c" "refs_of ?pal' = (refs_of ?pal)(s := 0)"
        "slots_inv (c\<lparr>ch_palette := ?pal', ch_mixed := t', ch_free := ch_free c @ [s],
          ch_live_entries := ch_live_entries c - 1\<rparr>)"
        "\<forall>r \<in> live_slots ?pal'. slot_value ?pal' t' r = slot_value ?pal (ch_mixed c) r"
      using release_last [OF si s] by blast
    let ?c = "c\<lparr>ch_palette := ?pal', ch_mixed := t', ch_free := ch_free c @ [s],
          ch_live_entries := ch_live_entries c - 1\<rparr>"
    have rel: "release c s = (if bits_for (ch_live_entries ?c) < bits_per_entry (ch_indices ?c)
        then repack ?c else Some ?c)"
      using lt r t'(1,2) True
      by (cases "pe_content (?pal ! s)") (simp_all add: release_def vec_simps Let_def)
    have refs': "refs_of ?pal' = count_list (entries ?c)" using t'(3) refs True by auto
    then have es: "set (entries ?c) = live_slots ?pal'" by (auto simp: live_slots_def)
    then have card: "card (live_slots ?pal') \<le> 4096"
      using card_entries [of "ch_indices c"] ii by (simp add: index_inv_def)
    have val: "chunk_value ?c i = chunk_value c i" if "i < 4096" for i
      using t'(5) es nth_mem [of i "entries c"] that ii by (simp add: chunk_value_def index_inv_def)
    have live: "ch_live_entries ?c = card (live_slots ?pal')" using t'(4) by (simp add: slots_inv_def)
    show ?thesis
    proof (cases "bits_for (ch_live_entries ?c) < bits_per_entry (ch_indices ?c)")
      case rp: True
      then show ?thesis using repack_correct [of ?c] t'(4) ii refs' card val rel
        by (auto simp: index_inv_def)
    next
      case nrp: False
      have "length ?pal \<le> 4096"
        using no_repack_fits [OF card, of "bits_per_entry (ch_indices c)" "length ?pal"] nrp live len ii
        by (auto simp: index_inv_def)
      then have "chunk_inv ?c" using t'(4) ii refs' by (simp add: chunk_inv_def index_inv_def)
      then show ?thesis using rel nrp val by auto
    qed
  qed
qed

section \<open>Writing a block\<close>

lemma chunk_inv_slot:
  assumes "chunk_inv c" and "i < 4096"
  shows "entries c ! i \<in> live_slots (ch_palette c)" and "ba_get (ch_indices c) i = Some (entries c ! i)"
    and "entries c ! i < length (ch_palette c)"
proof -
  have "entries c ! i \<in> set (entries c)" using assms by (simp add: chunk_inv_def index_inv_def)
  then show "entries c ! i \<in> live_slots (ch_palette c)"
    using assms by (simp add: chunk_inv_def live_slots_def)
  then show "entries c ! i < length (ch_palette c)" by (rule live_slots_less)
  show "ba_get (ch_indices c) i = Some (entries c ! i)"
    using assms ba_get_list by (simp add: chunk_inv_def index_inv_def)
qed

lemma interned_value:
  "chunk_inv c \<Longrightarrow> interned c v s c' \<Longrightarrow> i < 4096 \<Longrightarrow> chunk_value c' i = chunk_value c i"
  using chunk_inv_slot(1) [of c i] by (simp add: chunk_value_def interned_def)

text \<open>A write that finds the value already there gives back the reference it took.\<close>

lemma set_block_unchanged:
  assumes inv: "chunk_inv c" and it: "interned c v s c1" and i: "i < 4096" and eq: "entries c ! i = s"
  defines "c' \<equiv> c1\<lparr>ch_palette := (ch_palette c1)[s := (ch_palette c1 ! s)\<lparr>pe_refs := refs_of (ch_palette c) s\<rparr>]\<rparr>"
  shows "chunk_inv c'" and "j < 4096 \<Longrightarrow> chunk_value c' j = chunk_value c j" and "chunk_value c i = v"
proof -
  have sl: "s \<in> live_slots (ch_palette c)" using chunk_inv_slot(1) [OF inv i] eq by simp
  have es: "entries c1 = entries c" and ii: "index_inv c1" and si: "slots_inv c1"
    using it by (auto simp: interned_def)
  have refs: "refs_of (ch_palette c1) = (count_list (entries c1))(s := Suc (count_list (entries c1) s))"
    using it inv by (simp add: interned_def chunk_inv_def)
  have n: "refs_of (ch_palette c) s = count_list (entries c1) s" "0 < count_list (entries c1) s"
    using inv sl es by (simp_all add: chunk_inv_def live_slots_def)
  note rs = release_shared [OF si ii _ refs refl n(2)]
  show "chunk_inv c'" using rs(1) it n by (simp add: interned_def c'_def)
  show "j < 4096 \<Longrightarrow> chunk_value c' j = chunk_value c j"
    using rs(2) it n interned_value [OF inv it] by (simp add: interned_def c'_def)
  show "chunk_value c i = v"
    using it interned_value [OF inv it i] es eq by (simp add: interned_def chunk_value_def)
qed

lemma set_block_replaced:
  assumes inv: "chunk_inv c" and it: "interned c v s c1" and i: "i < 4096" and neq: "entries c ! i \<noteq> s"
  shows "\<exists>a c'. ba_set (ch_indices c1) i s = Some a \<and>
    release (c1\<lparr>ch_indices := a\<rparr>) (entries c ! i) = Some c' \<and> chunk_inv c' \<and> ch_pos c' = ch_pos c \<and>
    (\<forall>j < 4096. chunk_value c' j = (if j = i then v else chunk_value c j))"
proof -
  let ?old = "entries c ! i"
  have es: "entries c1 = entries c" and ii: "index_inv c1" and si: "slots_inv c1"
    and lt: "s < length (ch_palette c1)" and sv: "slot_value (ch_palette c1) (ch_mixed c1) s = v"
    using it by (auto simp: interned_def)
  have "s < 2 ^ bits_per_entry (ch_indices c1)" using lt ii by (simp add: index_inv_def)
  then obtain a where a: "ba_set (ch_indices c1) i s = Some a" "ba_inv a" "ba_len a = 4096"
      "bits_per_entry a = bits_per_entry (ch_indices c1)" "ba_list a = (entries c)[i := s]"
    using ba_set_list [of "ch_indices c1" i s] ii i es by (auto simp: index_inv_def)
  let ?c = "c1\<lparr>ch_indices := a\<rparr>"
  have len: "length (entries c) = 4096" using inv by (simp add: chunk_inv_def index_inv_def)
  have "refs_of (ch_palette c1) z = ((count_list (entries ?c))(?old := Suc (count_list (entries ?c) ?old))) z" for z
    using it inv count_list_update [of i "entries c" s z] a(5) len i
    by (auto simp: interned_def chunk_inv_def)
  then have refs: "refs_of (ch_palette ?c) = (count_list (entries ?c))(?old := Suc (count_list (entries ?c) ?old))"
    by auto
  have ii': "index_inv ?c" using ii a lt es set_update_subset_insert [of "entries c" i s]
    by (auto simp: index_inv_def)
  have si': "slots_inv ?c" using si by (simp add: slots_inv_def)
  obtain c' where c': "release ?c ?old = Some c'" "chunk_inv c'" "ch_pos c' = ch_pos ?c"
      "\<forall>j < 4096. chunk_value c' j = chunk_value ?c j"
    using release_correct [OF si' ii' refs] it by (auto simp: interned_def)
  moreover have "chunk_value ?c j = (if j = i then v else chunk_value c j)" if "j < 4096" for j
    using interned_value [OF inv it that] a(5) es sv len that i by (simp add: chunk_value_def)
  ultimately show ?thesis using a(1) it by (auto simp: interned_def)
qed

text \<open>The refinement of a block write: it never panics, keeps the invariant, and updates the
  abstract chunk at one index.\<close>

lemma set_block_local_refines:
  assumes inv: "chunk_inv c" and l: "local_valid l" and v: "wf_value v"
    and coll: "collision_free c (canonical v)"
  shows "\<exists>c'. set_block_local c l v = Some c' \<and> chunk_inv c' \<and> ch_pos c' = ch_pos c \<and>
    (\<forall>j < 4096. chunk_value c' j = (if j = local_index l then canonical v else chunk_value c j))"
proof -
  let ?i = "local_index l"
  have i: "?i < 4096" using local_index_less [OF l] by simp
  have ci: "slots_inv c" "index_inv c" "length (ch_palette c) \<le> 4096" using inv by (auto simp: chunk_inv_def)
  have cv: "wf_value (canonical v)" "is_canonical (canonical v)"
    using wf_canonical [OF v] canonical_idem [OF v] by (auto simp: is_canonical_def)
  obtain s c1 where it: "intern c (canonical v) = Some (s, c1)" "interned c (canonical v) s c1"
    using intern_correct [OF ci cv coll] .
  have es: "entries c1 = entries c" "s < length (ch_palette c1)" and ii: "index_inv c1"
    using it by (auto simp: interned_def)
  have g: "ba_get (ch_indices c1) ?i = Some (entries c ! ?i)"
    using ba_get_list [of "ch_indices c1"] ii i es by (simp add: index_inv_def)
  have old: "entries c ! ?i < 65536" using chunk_inv_slot(3) [OF inv i] ci(3) by simp
  show ?thesis
  proof (cases "entries c ! ?i = s")
    case True
    have r: "pe_refs (ch_palette c1 ! s) = Suc (refs_of (ch_palette c) s)"
      using it(2) es(2) by (metis fun_upd_same interned_def refs_of_def)
    note su = set_block_unchanged [OF inv it(2) i True]
    show ?thesis using True g old it(1) es(2) r su it(2)
      by (auto simp: set_block_local_def Let_def vec_simps interned_def)
  next
    case False
    then show ?thesis using set_block_replaced [OF inv it(2) i False] g old it(1)
      by (auto simp: set_block_local_def Let_def)
  qed
qed

end
