(* ===== verification/Store.thy ===== *)
theory Store
  imports Block
begin

text \<open>
  The interface a store of voxel blocks offers its clients: writing a value at an index makes the
  store hold its canonical form there and nothing else changes. The side condition \<open>safe\<close> on the
  set of values in the store is what the implementation needs of its hash. The clients proved here
  once are a sequence of writes and a loop that rewrites each listed block from what it holds.
\<close>

text \<open>What a sequence of writes means for the contents of a store.\<close>

fun last_written :: "(nat \<times> block_value) list \<Rightarrow> (nat \<Rightarrow> block_value) \<Rightarrow> nat \<Rightarrow> block_value" where
  "last_written [] f j = f j"
| "last_written ((i, v) # ws) f j = last_written ws (f(i := canonical v)) j"

lemma last_written_cong: "f j = g j \<Longrightarrow> last_written ws f j = last_written ws g j"
proof (induction ws arbitrary: f g)
  case (Cons w ws)
  obtain i v where w: "w = (i, v)" by (cases w)
  have "last_written ws (f(i := canonical v)) j = last_written ws (g(i := canonical v)) j"
    by (rule Cons.IH) (simp add: Cons.prems)
  then show ?case by (simp only: w last_written.simps)
qed simp

locale voxel_store =
  fixes put :: "'c \<Rightarrow> nat \<Rightarrow> block_value \<Rightarrow> 'c option"
    and contents :: "'c \<Rightarrow> nat \<Rightarrow> block_value"
    and invar :: "'c \<Rightarrow> bool"
    and same :: "'c \<Rightarrow> 'c \<Rightarrow> bool"
    and cap :: nat
    and safe :: "block_value set \<Rightarrow> bool"
  assumes put_ok: "invar c \<Longrightarrow> i < cap \<Longrightarrow> wf_value v \<Longrightarrow>
      safe (insert (canonical v) (contents c ` {..<cap})) \<Longrightarrow>
      \<exists>c'. put c i v = Some c' \<and> invar c' \<and> same c c' \<and>
        (\<forall>j < cap. contents c' j = (if j = i then canonical v else contents c j))"
    and same_refl: "same c c"
    and same_trans: "same a b \<Longrightarrow> same b c \<Longrightarrow> same a c"
    and safe_mono: "safe T \<Longrightarrow> S \<subseteq> T \<Longrightarrow> safe S"
begin

lemma putE:
  assumes "invar c" and "i < cap" and "wf_value v" and "safe T"
    and "insert (canonical v) (contents c ` {..<cap}) \<subseteq> T"
  obtains c' where "put c i v = Some c'" and "invar c'" and "same c c'"
    and "\<And>j. j < cap \<Longrightarrow> contents c' j = (if j = i then canonical v else contents c j)"
    and "contents c' ` {..<cap} \<subseteq> T"
proof -
  obtain c' where c': "put c i v = Some c'" "invar c'" "same c c'"
      "\<forall>j < cap. contents c' j = (if j = i then canonical v else contents c j)"
    using put_ok [OF assms(1-3) safe_mono [OF assms(4,5)]] by blast
  moreover have "contents c' ` {..<cap} \<subseteq> T" using c'(4) assms(2,5) by auto
  ultimately show thesis using that by blast
qed

text \<open>Any sequence of writes leaves, at each index, the last value written there.\<close>

lemma writes_refine:
  assumes "invar c" and "\<forall>(i, v) \<in> set ws. i < cap \<and> wf_value v"
    and "safe (contents c ` {..<cap} \<union> (canonical \<circ> snd) ` set ws)"
  shows "\<exists>c'. for_each (\<lambda>(i, v) c. put c i v) ws c = Some c' \<and> invar c' \<and> same c c' \<and>
    (\<forall>j < cap. contents c' j = last_written ws (contents c) j)"
  using assms
proof (induction ws arbitrary: c)
  case Nil
  then show ?case by (simp add: same_refl)
next
  case (Cons w ws)
  obtain i v where w: "w = (i, v)" by (cases w)
  let ?T = "contents c ` {..<cap} \<union> (canonical \<circ> snd) ` set (w # ws)"
  have i: "i < cap" "wf_value v" using Cons.prems(2) w by auto
  obtain c1 where c1: "put c i v = Some c1" "invar c1" "same c c1"
      "\<And>j. j < cap \<Longrightarrow> contents c1 j = (if j = i then canonical v else contents c j)"
      "contents c1 ` {..<cap} \<subseteq> ?T"
    by (rule putE [OF Cons.prems(1) i Cons.prems(3)]) (use w in auto)
  have "safe (contents c1 ` {..<cap} \<union> (canonical \<circ> snd) ` set ws)"
    by (rule safe_mono [OF Cons.prems(3)]) (use c1(5) in auto)
  then obtain c' where c': "for_each (\<lambda>(i, v) c. put c i v) ws c1 = Some c'" "invar c'" "same c1 c'"
      "\<forall>j < cap. contents c' j = last_written ws (contents c1) j"
    using Cons.IH [OF c1(2)] Cons.prems(2) by (metis list.set_intros(2))
  have "contents c' j = last_written (w # ws) (contents c) j" if "j < cap" for j
    using c'(4) c1(4) that w last_written_cong [of "contents c1" j "(contents c)(i := canonical v)" ws]
    by simp
  then show ?case using c'(1-3) c1(1,3) w same_trans by auto
qed

text \<open>A loop that rewrites distinct blocks, each from the value it holds.\<close>

lemma update_each:
  assumes "invar c" and "distinct (map f is)" and "\<forall>i \<in> set is. f i < cap \<and> wf_value (g i)"
    and "safe T" and "contents c ` {..<cap} \<union> (canonical \<circ> g) ` set is \<subseteq> T"
    and body: "\<And>i d. i \<in> set is \<Longrightarrow> invar d \<Longrightarrow> same c d \<Longrightarrow> contents d (f i) = contents c (f i) \<Longrightarrow>
      \<exists>v. body i d = put d (f i) v \<and> wf_value v \<and> canonical v = canonical (g i)"
  shows "\<exists>c'. for_each body is c = Some c' \<and> invar c' \<and> same c c' \<and>
    (\<forall>i \<in> set is. contents c' (f i) = canonical (g i)) \<and>
    (\<forall>j < cap. j \<notin> f ` set is \<longrightarrow> contents c' j = contents c j)"
  using assms
proof (induction "is" arbitrary: c)
  case Nil
  then show ?case by (simp add: same_refl)
next
  case (Cons i "is")
  obtain v where v: "body i c = put c (f i) v" "wf_value v" "canonical v = canonical (g i)"
    using Cons.prems(6) [of i c] Cons.prems(1) same_refl by auto
  obtain c1 where c1: "put c (f i) v = Some c1" "invar c1" "same c c1"
      "\<And>j. j < cap \<Longrightarrow> contents c1 j = (if j = f i then canonical v else contents c j)"
      "contents c1 ` {..<cap} \<subseteq> T"
    by (rule putE [OF Cons.prems(1) _ v(2) Cons.prems(4)]) (use Cons.prems(3,5) v in auto)
  have fi: "f i \<notin> f ` set is" "f i < cap" using Cons.prems(2,3) by auto
  have "\<exists>c'. for_each body is c1 = Some c' \<and> invar c' \<and> same c1 c' \<and>
    (\<forall>i \<in> set is. contents c' (f i) = canonical (g i)) \<and>
    (\<forall>j < cap. j \<notin> f ` set is \<longrightarrow> contents c' j = contents c1 j)"
  proof (rule Cons.IH [OF c1(2)])
    fix k d assume "k \<in> set is" "invar d" "same c1 d" "contents d (f k) = contents c1 (f k)"
    moreover from this have "f k \<noteq> f i" "f k < cap" using fi Cons.prems(3) by (metis imageI, simp)
    ultimately show "\<exists>v. body k d = put d (f k) v \<and> wf_value v \<and> canonical v = canonical (g k)"
      using Cons.prems(6) [of k d] c1(3,4) same_trans by auto
  qed (use Cons.prems c1(5) in auto)
  then show ?case using c1 v fi same_trans by auto
qed

end

end
