(* ===== verification/Chunk_Api.thy ===== *)
theory Chunk_Api
  imports Chunk_Write Store
begin

text \<open>
  The public reads and writes of a chunk, over the abstract map \<open>chunk_value\<close> from block index to
  canonical value.
\<close>

section \<open>Reads\<close>

lemma chunk_value_wf:
  assumes "chunk_inv c" and "i < 4096"
  shows "wf_value (chunk_value c i)" and "canonical (chunk_value c i) = chunk_value c i"
    and "is_canonical (chunk_value c i)"
  using palette_inv_value [of "ch_palette c" "ch_mixed c", OF _ chunk_inv_slot(1) [OF assms]] assms(1)
  by (auto simp: chunk_value_def chunk_inv_def slots_inv_def is_canonical_def)

lemma get_block_local_value:
  assumes "chunk_inv c" and "local_valid l"
  shows "get_block_local c l = Some (value_view (chunk_value c (local_index l)))"
proof -
  have i: "local_index l < 4096" using local_index_less [OF assms(2)] by simp
  note slot = chunk_inv_slot [OF assms(1) i]
  have "content_ok (ch_mixed c) (pe_content (ch_palette c ! (entries c ! local_index l)))"
    using assms(1) slot(1) by (simp add: chunk_inv_def slots_inv_def palette_inv_def entry_ok_def)
  then show ?thesis using slot
    by (simp add: get_block_local_def content_at_def vec_simps chunk_view_def content_view_ok
        chunk_value_def slot_value_def)
qed

lemma chunk_faces_value:
  assumes "chunk_inv c" and "local_valid l"
  shows "chunk_faces c l = Some (permeability (value_view (chunk_value c (local_index l))))"
proof -
  have i: "local_index l < 4096" using local_index_less [OF assms(2)] by simp
  note slot = chunk_inv_slot [OF assms(1) i]
  have "entry_ok (ch_mixed c) (ch_palette c ! (entries c ! local_index l))"
    using assms(1) slot(1) by (simp add: chunk_inv_def slots_inv_def palette_inv_def)
  then show ?thesis using slot
    by (auto simp: chunk_faces_def vec_simps entry_ok_def faces_of_ok chunk_value_def slot_value_def)
qed

lemma block_cells_value:
  assumes "chunk_inv c" and "local_valid l"
  shows "block_cells c l = Some (value_cells (chunk_value c (local_index l)))"
  using get_block_local_value [OF assms] by (simp add: block_cells_def)

text \<open>The cell at a sub-node position of the chunk, in the abstract chunk.\<close>

definition cell_at :: "chunk \<Rightarrow> subnode_pos \<Rightarrow> material_id" where
  "cell_at c p =
     (let (x, y, z) = subnode_local p
      in value_cells (chunk_value c (local_index (block_local (subnode_block p)))) ! subnode_index x y z)"

lemma get_subnode_value:
  assumes "chunk_inv c"
  shows "get_subnode c p = Some (if subnode_chunk p = ch_pos c then Some (cell_at c p) else None)"
proof (cases "subnode_local p")
  case (fields x y z)
  then have "subnode_index x y z < 27" using subnode_local_less [OF fields] subnode_index_less by blast
  then show ?thesis using fields get_block_local_value [OF assms, of "block_local (subnode_block p)"]
    by (simp add: get_subnode_def contains_subnode_def cell_at_def view_subnode_at_def
        view_subnode_cells)
qed

lemma get_block_value:
  assumes "chunk_inv c"
  shows "get_block c p = Some (if block_chunk p = ch_pos c
    then Some (value_view (chunk_value c (local_index (block_local p)))) else None)"
  using get_block_local_value [OF assms] by (simp add: get_block_def contains_block_def)

lemma is_singleton_image_iff:
  "0 < n \<Longrightarrow> is_singleton (f ` {..<n :: nat}) \<longleftrightarrow> (\<forall>i < n. f i = f 0)"
proof
  assume "0 < n" "is_singleton (f ` {..<n})"
  then show "\<forall>i < n. f i = f 0" by (metis imageI is_singletonE lessThan_iff singletonD)
next
  assume "0 < n" "\<forall>i < n. f i = f 0"
  then have "f ` {..<n} = {f 0}" by (intro equalityI subsetI) (blast, blast)
  then show "is_singleton (f ` {..<n})" by simp
qed

lemma live_one:
  assumes inv: "chunk_inv c"
  shows "ch_live_entries c = 1 \<longleftrightarrow> (\<forall>i < 4096. chunk_value c i = chunk_value c 0)"
proof -
  let ?L = "live_slots (ch_palette c)" and ?v = "slot_value (ch_palette c) (ch_mixed c)"
  have len: "length (entries c) = 4096" and L: "?L = set (entries c)"
    using inv by (auto simp: chunk_inv_def index_inv_def live_slots_def)
  have card: "ch_live_entries c = card ?L" and inj: "inj_on ?v ?L"
    using inv by (auto simp: chunk_inv_def slots_inv_def palette_inv_def)
  have "card ?L = card (?v ` ?L)" by (simp add: card_image inj)
  also have "?v ` ?L = chunk_value c ` {..<4096}"
    unfolding L chunk_value_def set_conv_nth len by auto
  finally have "ch_live_entries c = 1 \<longleftrightarrow> is_singleton (chunk_value c ` {..<4096})"
    using card by (simp add: is_singleton_altdef)
  also have "\<dots> \<longleftrightarrow> (\<forall>i < 4096. chunk_value c i = chunk_value c 0)"
    by (rule is_singleton_image_iff) simp
  finally show ?thesis .
qed

lemma is_uniform_value:
  assumes inv: "chunk_inv c"
  shows "is_uniform c = Some m \<longleftrightarrow> (\<forall>i < 4096. chunk_value c i = VUniform m)"
proof (cases "ch_live_entries c = 1")
  case False
  then have "\<not> (\<forall>i < 4096. chunk_value c i = VUniform m)"
    using live_one [OF inv] by (metis zero_less_numeral)
  then show ?thesis using False by (simp add: is_uniform_def)
next
  case True
  let ?pal = "ch_palette c" and ?s = "entries c ! 0"
  have s: "?s \<in> live_slots ?pal" using chunk_inv_slot(1) [OF inv] by simp
  have "card (live_slots ?pal) = 1" using True inv by (simp add: chunk_inv_def slots_inv_def)
  then have L: "live_slots ?pal = {?s}" using s by (auto simp: card_1_singleton_iff)
  have "position (\<lambda>entry. pe_refs entry > 0) ?pal = Some ?s"
  proof (cases "position (\<lambda>entry. pe_refs entry > 0) ?pal")
    case None
    then show ?thesis using s nth_mem [OF live_slots_less [OF s]] live_slots_less [OF s]
      by (auto simp: position_None live_slots_def refs_of_def)
  next
    case (Some k)
    then have "k \<in> live_slots ?pal" using position_Some [OF Some] by (simp add: live_slots_def refs_of_def)
    then show ?thesis using L Some by simp
  qed
  then have "is_uniform c = Some m \<longleftrightarrow> chunk_value c 0 = VUniform m"
    using True by (auto simp: is_uniform_def chunk_value_def slot_value_def content_value_def
        split: block_content.splits)
  then show ?thesis using live_one [OF inv] True by (metis zero_less_numeral)
qed

section \<open>Construction\<close>

lemma chunk_new_inv:
  "\<exists>c. chunk_new pos fill = Some c \<and> chunk_inv c \<and> ch_pos c = pos \<and> (\<forall>i < 4096. chunk_value c i = VUniform fill)"
proof -
  obtain a where a: "ba_new 4096 0 = Some a" "ba_inv a" "ba_len a = 4096" "bits_per_entry a = 0"
    using ba_new_correct [of 0 4096] by auto
  let ?pal = "[\<lparr>pe_content = Uniform fill, pe_refs = 4096, pe_faces = permeability (WUniform fill)\<rparr>]"
  let ?c = "\<lparr>ch_pos = pos, ch_palette = ?pal, ch_free = [], ch_live_entries = 1, ch_indices = a,
    ch_mixed = mixed_default\<rparr>"
  have live: "live_slots ?pal = {0}" by (auto simp: live_slots_def refs_of_def)
  have es: "entries ?c = replicate 4096 0" using ba_list_width_0 [OF a(2,4)] a(3) by simp
  have "content_ok mixed_default (Uniform fill)"
    by (simp add: content_ok_def content_value_def is_canonical_def)
  then have "slots_inv ?c" using live mixed_inv_default
    by (auto simp: slots_inv_def palette_inv_def entry_ok_def faces_of_ok content_value_def
        mixed_slots_def lessThan_Suc contents_in_table_def)
  moreover have "index_inv ?c" using a es by (simp add: index_inv_def)
  moreover have "refs_of ?pal = count_list (entries ?c)" unfolding es
    by (auto simp: refs_of_def count_list_replicate)
  moreover have "chunk_value ?c i = VUniform fill" if "i < 4096" for i
    using es that by (simp add: chunk_value_def slot_value_def content_value_def)
  ultimately show ?thesis using a(1)
    by (intro exI [of _ ?c]) (simp add: chunk_inv_def chunk_new_def)
qed

section \<open>Writes as a voxel store\<close>

text \<open>The only thing asked of the hash: it tells apart the mixed arrays among the values in play.\<close>

definition hash_safe :: "block_value set \<Rightarrow> bool" where
  "hash_safe S \<longleftrightarrow> inj_on mixed_hash {cs. VCells cs \<in> S}"

lemma hash_safe_mono: "hash_safe T \<Longrightarrow> S \<subseteq> T \<Longrightarrow> hash_safe S"
  unfolding hash_safe_def by (rule inj_on_subset) auto

lemma hash_safe_collision_free:
  assumes inv: "chunk_inv c" and safe: "hash_safe (insert v (chunk_value c ` {..<4096}))"
  shows "collision_free c v"
  unfolding collision_free_def no_collision_def
proof (intro allI impI ballI)
  fix cs m assume v: "v = VCells cs" and m: "m \<in> mixed_slots (ch_palette c)"
    and h: "mixed_hash (mt_cells (ch_mixed c) ! m) = mixed_hash cs"
  obtain s where s: "s \<in> live_slots (ch_palette c)" "pe_content (ch_palette c ! s) = Mixed m"
    using m by (auto simp: mixed_slots_def)
  have "s \<in> set (entries c)" using s(1) inv by (simp add: chunk_inv_def live_slots_def)
  then obtain i where i: "i < 4096" "entries c ! i = s"
    using inv by (auto simp: in_set_conv_nth chunk_inv_def index_inv_def)
  then have "chunk_value c i = VCells (mt_cells (ch_mixed c) ! m)"
    using s(2) by (simp add: chunk_value_def slot_value_def content_value_def)
  then have "VCells (mt_cells (ch_mixed c) ! m) \<in> chunk_value c ` {..<4096}" using i(1) by force
  then show "mt_cells (ch_mixed c) ! m = cs" using safe v h by (auto simp: hash_safe_def dest: inj_onD)
qed

definition same_pos :: "chunk \<Rightarrow> chunk \<Rightarrow> bool" where
  "same_pos c c' \<longleftrightarrow> ch_pos c' = ch_pos c"

definition put_at :: "chunk \<Rightarrow> nat \<Rightarrow> block_value \<Rightarrow> chunk option" where
  "put_at c i v = set_block_local c (local_from_index i) v"

interpretation chunks: voxel_store put_at chunk_value chunk_inv same_pos 4096 hash_safe
proof
  fix c v and i :: nat
  assume c: "chunk_inv c" "i < 4096" "wf_value v" "hash_safe (insert (canonical v) (chunk_value c ` {..<4096}))"
  have l: "local_valid (local_from_index i)" using local_valid_from_index [of i] c(2) by simp
  show "\<exists>c'. put_at c i v = Some c' \<and> chunk_inv c' \<and> same_pos c c' \<and>
      (\<forall>j < 4096. chunk_value c' j = (if j = i then canonical v else chunk_value c j))"
    using set_block_local_refines [OF c(1) l c(3) hash_safe_collision_free [OF c(1,4)]]
    by (simp add: put_at_def same_pos_def local_index_local_from_index)
qed (auto simp: same_pos_def intro: hash_safe_mono)

lemma set_block_local_put: "local_valid l \<Longrightarrow> set_block_local c l v = put_at c (local_index l) v"
  by (simp add: put_at_def local_from_index_local_index)

lemma put_cells:
  assumes inv: "chunk_inv c" and l: "local_valid l" and v: "wf_value v"
    and safe: "hash_safe (insert (canonical v) (chunk_value c ` {..<4096}))"
  shows "\<exists>c'. set_block_local c l v = Some c' \<and> chunk_inv c' \<and> ch_pos c' = ch_pos c \<and>
    (\<forall>j < 4096. chunk_value c' j = (if j = local_index l then canonical v else chunk_value c j))"
  using chunks.put_ok [OF inv _ v safe, of "local_index l"] local_index_less [OF l]
  by (simp add: set_block_local_put [OF l] same_pos_def)

text \<open>Two sub-node positions of one chunk that share a block and a cell are equal.\<close>

lemma subnode_decompose:
  "subnode_chunk p = subnode_chunk q \<Longrightarrow> block_local (subnode_block p) = block_local (subnode_block q) \<Longrightarrow>
     subnode_local p = subnode_local q \<Longrightarrow> p = q"
proof -
  assume ch: "subnode_chunk p = subnode_chunk q" and bl: "block_local (subnode_block p) = block_local (subnode_block q)"
    and sl: "subnode_local p = subnode_local q"
  have ax: "x = y" if "x div 48 = y div 48" "nat (x div 3 mod 16) = nat (y div 3 mod 16)"
      "nat (x mod 3) = nat (y mod 3)" for x y :: int
  proof -
    have "x div 3 div 16 = y div 3 div 16" using that(1) by (simp add: zdiv_zmult2_eq [of 16 _ 3, simplified])
    moreover have "x div 3 mod 16 = y div 3 mod 16" "x mod 3 = y mod 3"
      using that(2,3) by (simp_all add: nat_eq_iff2)
    ultimately have "x div 3 = y div 3" by (metis div_mult_mod_eq)
    then show ?thesis using \<open>x mod 3 = y mod 3\<close> by (metis div_mult_mod_eq)
  qed
  obtain px py pz where p: "p = SubNodePos px py pz" by (cases p)
  obtain qx qy qz where q: "q = SubNodePos qx qy qz" by (cases q)
  show "p = q" using ch bl sl by (simp add: p q) (intro conjI; rule ax; simp)
qed

text \<open>The cells of the block of \<open>p\<close> once \<open>m\<close> is written at \<open>p\<close>.\<close>

definition written_cells :: "chunk \<Rightarrow> subnode_pos \<Rightarrow> material_id \<Rightarrow> cells" where
  "written_cells c p m =
     (let (x, y, z) = subnode_local p
      in (value_cells (chunk_value c (local_index (block_local (subnode_block p)))))[subnode_index x y z := m])"

lemma set_subnode_value:
  assumes inv: "chunk_inv c" and p: "subnode_chunk p = ch_pos c"
    and safe: "hash_safe (insert (canonical (VCells (written_cells c p m))) (chunk_value c ` {..<4096}))"
  shows "\<exists>c'. set_subnode c p m = Some (Inr c') \<and> chunk_inv c' \<and> ch_pos c' = ch_pos c \<and>
    (\<forall>q. subnode_chunk q = ch_pos c \<longrightarrow> cell_at c' q = (if q = p then m else cell_at c q))"
proof -
  obtain x y z where xyz: "subnode_local p = (x, y, z)" by (cases "subnode_local p")
  let ?l = "block_local (subnode_block p)" and ?k = "subnode_index x y z"
  let ?i = "local_index ?l"
  let ?cs = "value_cells (chunk_value c ?i)"
  have i: "?i < 4096" using local_index_less [of ?l] by simp
  have k: "?k < 27" using subnode_local_less [OF xyz] subnode_index_less by blast
  have len: "length ?cs = 27" using chunk_value_wf [OF inv i] by simp
  have bc: "block_cells c ?l = Some ?cs" by (rule block_cells_value [OF inv]) simp
  have at: "cell_at c p = ?cs ! ?k" by (simp add: cell_at_def xyz)
  show ?thesis
  proof (cases "?cs ! ?k = m")
    case True
    then show ?thesis using bc len k p xyz inv at
      by (auto simp: set_subnode_def contains_subnode_def vec_simps)
  next
    case False
    have wf: "wf_value (VCells (?cs[?k := m]))" using len by simp
    obtain c' where c': "set_block_local c ?l (VCells (?cs[?k := m])) = Some c'" "chunk_inv c'"
        "ch_pos c' = ch_pos c"
        "\<forall>j < 4096. chunk_value c' j = (if j = ?i then canonical (VCells (?cs[?k := m])) else chunk_value c j)"
      using put_cells [OF inv _ wf, of ?l] safe xyz by (auto simp: written_cells_def)
    have "cell_at c' q = (if q = p then m else cell_at c q)" if q: "subnode_chunk q = ch_pos c" for q
    proof -
      obtain u v w where uvw: "subnode_local q = (u, v, w)" by (cases "subnode_local q")
      let ?lq = "block_local (subnode_block q)"
      have k': "subnode_index u v w < 27" using subnode_local_less [OF uvw] subnode_index_less by blast
      have same: "q = p \<longleftrightarrow> ?lq = ?l \<and> subnode_index u v w = ?k"
        using subnode_decompose [of q p] p q uvw xyz subnode_local_less [OF uvw] subnode_local_less [OF xyz]
          subnode_offset_index by (metis prod.inject)
      have lq: "local_index ?lq = ?i \<longleftrightarrow> ?lq = ?l" using local_index_inj by auto
      have "local_index ?lq < 4096" using local_index_less [of ?lq] by simp
      then show ?thesis
        using c'(4) lq same k k' len wf uvw xyz canonical_value_cells [OF wf]
        by (auto simp: cell_at_def nth_list_update)
    qed
    then show ?thesis using c' bc len k False p xyz
      by (auto simp: set_subnode_def contains_subnode_def vec_simps)
  qed
qed

end
