(* ===== verification/Chunk_Fill.thy ===== *)
theory Chunk_Fill
  imports Chunk_Api
begin

text \<open>
  Filling a region: the clipping arithmetic one axis at a time, the per-block overlap, and the loop
  over blocks as a client of the voxel store.
\<close>

section \<open>One axis\<close>

definition axis_block :: "int \<Rightarrow> nat" where
  "axis_block x = nat (x div 3 mod 16)"

lemma axis_block_offset:
  assumes "48 * c \<le> x" and "x < 48 * c + 48"
  shows "int (axis_block x) = (x - 48 * c) div 3"
proof -
  define r where "r = x - 48 * c"
  have r: "0 \<le> r" "r < 48" "x = 3 * (16 * c) + r" using assms by (auto simp: r_def)
  have "x div 3 = 16 * c + r div 3" unfolding r(3) by simp
  moreover have "0 \<le> r div 3" "r div 3 < 16" using r by auto
  ultimately show ?thesis by (simp add: axis_block_def flip: r_def)
qed

lemma axis_block_bounds:
  assumes "48 * c \<le> x" and "x < 48 * c + 48"
  shows "3 * int (axis_block x) \<le> x - 48 * c" and "x - 48 * c < 3 * int (axis_block x) + 3"
    and "axis_block x < 16"
proof -
  have "x - 48 * c = 3 * ((x - 48 * c) div 3) + (x - 48 * c) mod 3" by simp
  moreover have "0 \<le> (x - 48 * c) mod 3" "(x - 48 * c) mod 3 < 3" by simp_all
  ultimately show "3 * int (axis_block x) \<le> x - 48 * c" "x - 48 * c < 3 * int (axis_block x) + 3"
    unfolding axis_block_offset [OF assms] by linarith+
  then show "axis_block x < 16" using assms by linarith
qed

text \<open>Cells \<open>u..=v\<close> of a block whose first cell is at \<open>o\<close> are those between \<open>a\<close> and \<open>b\<close>.\<close>

definition axis_ok :: "int \<Rightarrow> int \<Rightarrow> int \<Rightarrow> nat \<times> nat \<Rightarrow> bool" where
  "axis_ok a b orig uv \<longleftrightarrow> fst uv \<le> snd uv \<and> snd uv \<le> 2 \<and>
     (\<forall>x < 3. fst uv \<le> x \<and> x \<le> snd uv \<longleftrightarrow> a \<le> orig + int x \<and> orig + int x \<le> b)"

lemma axis_okD:
  "axis_ok a b orig (u, v) \<Longrightarrow> x < 3 \<Longrightarrow> u \<le> x \<and> x \<le> v \<longleftrightarrow> a \<le> orig + int x \<and> orig + int x \<le> b"
  by (simp add: axis_ok_def)

lemma axis_overlap:
  assumes c: "-3750 \<le> c" "c < 3750" and lo: "lo = max a (48 * c)" and hi: "hi = min b (48 * c + 47)"
    and le: "lo \<le> hi"
  shows "axis_block lo \<le> axis_block hi"
    and "axis_block lo \<le> k \<Longrightarrow> k \<le> axis_block hi \<Longrightarrow>
      axis_ok a b (48 * c + 3 * int k) (overlap lo hi (i32 (48 * c + 3 * int k)))"
    and "k < 16 \<Longrightarrow> \<not> (axis_block lo \<le> k \<and> k \<le> axis_block hi) \<Longrightarrow> x < 3 \<Longrightarrow>
      \<not> (a \<le> 48 * c + 3 * int k + int x \<and> 48 * c + 3 * int k + int x \<le> b)"
proof -
  have r: "48 * c \<le> lo" "lo < 48 * c + 48" "48 * c \<le> hi" "hi < 48 * c + 48" using lo hi le by auto
  note bl = axis_block_bounds [OF r(1,2)] and bh = axis_block_bounds [OF r(3,4)]
  show "axis_block lo \<le> axis_block hi" using bl bh le by linarith
  show "axis_ok a b (48 * c + 3 * int k) (overlap lo hi (i32 (48 * c + 3 * int k)))"
    if k: "axis_block lo \<le> k" "k \<le> axis_block hi"
  proof -
    let ?o = "48 * c + 3 * int k"
    obtain u v where ov: "overlap lo hi (i32 ?o) = (u, v)" by force
    have k16: "int k < 16" using k(2) bh(3) by linarith
    have "i32 ?o = ?o" using c k16 by (intro i32_lit) linarith+
    moreover have "i32 (lo - ?o) = lo - ?o" "i32 (hi - ?o) = hi - ?o"
      using r k16 by (intro i32_lit; linarith)+
    moreover have d: "lo - ?o \<le> 2" "0 \<le> hi - ?o" "- 48 \<le> lo - ?o" "hi - ?o \<le> 48" using k bl bh r by linarith+
    ultimately have uv: "u = nat (max (lo - ?o) 0)" "v = nat (min (hi - ?o) 2)"
      using ov by (auto simp: overlap_def)
    then have uv': "int u = max (lo - ?o) 0" "int v = min (hi - ?o) 2" using d by auto
    have "int u \<le> int v" "int v \<le> 2" unfolding uv' using d le by auto
    moreover have "u \<le> x \<and> x \<le> v \<longleftrightarrow> a \<le> ?o + int x \<and> ?o + int x \<le> b" if "x < 3" for x
    proof -
      have "u \<le> x \<longleftrightarrow> max (lo - ?o) 0 \<le> int x" "x \<le> v \<longleftrightarrow> int x \<le> min (hi - ?o) 2"
        unfolding uv' [symmetric] by simp_all
      then have "u \<le> x \<and> x \<le> v \<longleftrightarrow> lo \<le> ?o + int x \<and> ?o + int x \<le> hi"
        using that by (simp add: algebra_simps)
      also have "\<dots> \<longleftrightarrow> a \<le> ?o + int x \<and> ?o + int x \<le> b" using lo hi k16 that by auto
      finally show ?thesis .
    qed
    ultimately show ?thesis using ov by (simp add: axis_ok_def)
  qed
  show "\<not> (a \<le> 48 * c + 3 * int k + int x \<and> 48 * c + 3 * int k + int x \<le> b)"
    if "k < 16" "\<not> (axis_block lo \<le> k \<and> k \<le> axis_block hi)" "x < 3"
  proof
    assume "a \<le> 48 * c + 3 * int k + int x \<and> 48 * c + 3 * int k + int x \<le> b"
    then have "lo \<le> 48 * c + 3 * int k + int x" "48 * c + 3 * int k + int x \<le> hi"
      using lo hi that by auto
    then have "3 * int (axis_block lo) < 3 * int k + 3" "3 * int k < 3 * int (axis_block hi) + 3"
      using bl bh that(3) by linarith+
    then show False using that(2) by linarith
  qed
qed

section \<open>One block\<close>

definition in_region :: "subnode_pos \<Rightarrow> subnode_pos \<Rightarrow> subnode_pos \<Rightarrow> bool" where
  "in_region p q s \<longleftrightarrow>
     min (sp_x p) (sp_x q) \<le> sp_x s \<and> sp_x s \<le> max (sp_x p) (sp_x q) \<and>
     min (sp_y p) (sp_y q) \<le> sp_y s \<and> sp_y s \<le> max (sp_y p) (sp_y q) \<and>
     min (sp_z p) (sp_z q) \<le> sp_z s \<and> sp_z s \<le> max (sp_z p) (sp_z q)"

text \<open>The world position of a cell of a block of a chunk.\<close>

fun subnode_of :: "chunk_pos \<Rightarrow> local_block \<Rightarrow> nat \<Rightarrow> subnode_pos" where
  "subnode_of (ChunkPos cx cy cz) l k =
     (let (x, y, z) = subnode_offset k
      in SubNodePos (48 * cx + 3 * int (lb_x l) + int x) (48 * cy + 3 * int (lb_y l) + int y)
           (48 * cz + 3 * int (lb_z l) + int z))"

definition filled_cells :: "chunk \<Rightarrow> subnode_pos \<Rightarrow> subnode_pos \<Rightarrow> material_id \<Rightarrow> local_block \<Rightarrow> cells" where
  "filled_cells c p q m l =
     map (\<lambda>k. if in_region p q (subnode_of (ch_pos c) l k) then m
               else value_cells (chunk_value c (local_index l)) ! k) [0..<27]"

lemma subnode_origin_in_world:
  "chunk_in_world (ChunkPos cx cy cz) \<Longrightarrow>
     subnode_origin (ChunkPos cx cy cz) = SubNodePos (48 * cx) (48 * cy) (48 * cz) \<and>
     -3750 \<le> cx \<and> cx < 3750 \<and> -3750 \<le> cy \<and> cy < 3750 \<and> -3750 \<le> cz \<and> cz < 3750"
  by (simp add: in_extent_def i32_lit)

lemma fill_cells_loop:
  assumes "length cs = 27"
    and x: "u_x \<le> v_x" "v_x \<le> 2" and y: "u_y \<le> v_y" "v_y \<le> 2" and z: "u_z \<le> v_z" "v_z \<le> 2"
  shows "for_each (\<lambda>(z, y, x) cs. vec_set cs (subnode_index x y z) m)
      (nested (incl u_z v_z) (incl u_y v_y) (incl u_x v_x)) cs =
    Some (map (\<lambda>k. let (x, y, z) = subnode_offset k in
      if u_x \<le> x \<and> x \<le> v_x \<and> u_y \<le> y \<and> y \<le> v_y \<and> u_z \<le> z \<and> z \<le> v_z then m else cs ! k) [0..<27])"
proof -
  let ?f = "\<lambda>(z, y, x). subnode_index x y z" and ?N = "nested (incl u_z v_z) (incl u_y v_y) (incl u_x v_x)"
  have body: "(\<lambda>(z, y, x) cs. vec_set cs (subnode_index x y z) m) = (\<lambda>i cs. vec_set cs (?f i) m)"
    by (auto simp: fun_eq_iff)
  have bound: "\<forall>i \<in> set (map ?f ?N). i < length cs"
    using assms by (auto intro!: subnode_index_less)
  have mem: "k \<in> ?f ` set ?N \<longleftrightarrow> u_x \<le> a \<and> a \<le> v_x \<and> u_y \<le> b \<and> b \<le> v_y \<and> u_z \<le> d \<and> d \<le> v_z"
    if k: "subnode_offset k = (a, b, d)" for k a b d
  proof
    assume "k \<in> ?f ` set ?N"
    then obtain zz yy xx where "k = subnode_index xx yy zz" "(zz, yy, xx) \<in> set ?N" by auto
    then show "u_x \<le> a \<and> a \<le> v_x \<and> u_y \<le> b \<and> b \<le> v_y \<and> u_z \<le> d \<and> d \<le> v_z"
      using k x y z subnode_offset_index [of xx yy zz] by auto
  next
    assume "u_x \<le> a \<and> a \<le> v_x \<and> u_y \<le> b \<and> b \<le> v_y \<and> u_z \<le> d \<and> d \<le> v_z"
    then have "(d, b, a) \<in> set ?N" by auto
    moreover have "k = ?f (d, b, a)" using subnode_index_offset [OF k] by simp
    ultimately show "k \<in> ?f ` set ?N" by (rule rev_image_eqI)
  qed
  have "(if k \<in> ?f ` set ?N then m else cs ! k) = (let (x, y, z) = subnode_offset k in
      if u_x \<le> x \<and> x \<le> v_x \<and> u_y \<le> y \<and> y \<le> v_y \<and> u_z \<le> z \<and> z \<le> v_z then m else cs ! k)" for k
    by (cases "subnode_offset k") (simp only: mem Let_def prod.case)
  then show ?thesis unfolding body for_each_set [OF bound] assms(1) by (simp only:)
qed

lemma fill_block_value:
  assumes inv: "chunk_inv d" and d: "ch_pos d = ch_pos c" "chunk_value d (local_index l) = chunk_value c (local_index l)"
    and wf: "wf_value (chunk_value c (local_index l))"
    and l: "local_valid l" and pos: "ch_pos c = ChunkPos cx cy cz"
    and X: "axis_ok (min (sp_x p) (sp_x q)) (max (sp_x p) (sp_x q)) (48 * cx + 3 * int (lb_x l))
      (overlap (sp_x lo) (sp_x hi) (sp_x (block_subnode_origin (ch_pos d) l)))"
    and Y: "axis_ok (min (sp_y p) (sp_y q)) (max (sp_y p) (sp_y q)) (48 * cy + 3 * int (lb_y l))
      (overlap (sp_y lo) (sp_y hi) (sp_y (block_subnode_origin (ch_pos d) l)))"
    and Z: "axis_ok (min (sp_z p) (sp_z q)) (max (sp_z p) (sp_z q)) (48 * cz + 3 * int (lb_z l))
      (overlap (sp_z lo) (sp_z hi) (sp_z (block_subnode_origin (ch_pos d) l)))"
  shows "\<exists>v. fill_block lo hi m l d = set_block_local d l v \<and> wf_value v \<and>
    canonical v = canonical (VCells (filled_cells c p q m l))"
proof -
  let ?cs = "value_cells (chunk_value c (local_index l))"
  let ?bo = "block_subnode_origin (ch_pos d) l"
  obtain u_x v_x where ox: "overlap (sp_x lo) (sp_x hi) (sp_x ?bo) = (u_x, v_x)" by force
  obtain u_y v_y where oy: "overlap (sp_y lo) (sp_y hi) (sp_y ?bo) = (u_y, v_y)" by force
  obtain u_z v_z where oz: "overlap (sp_z lo) (sp_z hi) (sp_z ?bo) = (u_z, v_z)" by force
  have region: "in_region p q (subnode_of (ch_pos c) l k) \<longleftrightarrow>
      u_x \<le> x \<and> x \<le> v_x \<and> u_y \<le> y \<and> y \<le> v_y \<and> u_z \<le> z \<and> z \<le> v_z"
    if "k < 27" "subnode_offset k = (x, y, z)" for k x y z
  proof -
    have lt: "x < 3" "y < 3" "z < 3" using subnode_offset_less [OF that] by auto
    have "subnode_of (ch_pos c) l k = SubNodePos (48 * cx + 3 * int (lb_x l) + int x)
        (48 * cy + 3 * int (lb_y l) + int y) (48 * cz + 3 * int (lb_z l) + int z)"
      by (simp add: pos that(2))
    then show ?thesis
      using axis_okD [OF X [unfolded ox] lt(1)] axis_okD [OF Y [unfolded oy] lt(2)]
        axis_okD [OF Z [unfolded oz] lt(3)]
      unfolding in_region_def by (metis subnode_pos.sel)
  qed
  let ?new = "map (\<lambda>k. let (x, y, z) = subnode_offset k in
      if u_x \<le> x \<and> x \<le> v_x \<and> u_y \<le> y \<and> y \<le> v_y \<and> u_z \<le> z \<and> z \<le> v_z then m else ?cs ! k) [0..<27]"
  have new: "?new = filled_cells c p q m l"
    unfolding filled_cells_def by (rule map_cong) (auto simp: region split: prod.split)
  show ?thesis
  proof (cases "u_x = 0 \<and> v_x = 2 \<and> u_y = 0 \<and> v_y = 2 \<and> u_z = 0 \<and> v_z = 2")
    case True
    have "in_region p q (subnode_of (ch_pos c) l k)" if "k < 27" for k
    proof (cases "subnode_offset k")
      case (fields x y z)
      then show ?thesis using region [OF that fields] subnode_offset_less [OF that fields] True by auto
    qed
    then have "filled_cells c p q m l = replicate 27 m"
      by (auto simp: filled_cells_def intro: nth_equalityI)
    then have "canonical (VUniform m) = canonical (VCells (filled_cells c p q m l))"
      by (subst canonical_unique) simp_all
    moreover have "fill_block lo hi m l d = set_block_local d l (VUniform m)"
      using True by (simp add: fill_block_def ox oy oz)
    ultimately show ?thesis by (metis wf_value.simps(2))
  next
    case False
    have "for_each (\<lambda>(z, y, x) cs. vec_set cs (subnode_index x y z) m)
        (nested (incl u_z v_z) (incl u_y v_y) (incl u_x v_x)) ?cs = Some ?new"
      by (rule fill_cells_loop) (use X Y Z wf ox oy oz in \<open>auto simp: axis_ok_def\<close>)
    moreover have "block_cells d l = Some ?cs" using block_cells_value [OF inv l] d by simp
    ultimately have "fill_block lo hi m l d = set_block_local d l (VCells ?new)"
      using False by (auto simp: fill_block_def ox oy oz simp del: upt_Suc)
    moreover have "wf_value (VCells ?new)" by simp
    ultimately show ?thesis unfolding new by blast
  qed
qed

section \<open>The whole region\<close>

text \<open>The clipped bounds of one axis of the region, for a chunk of the world.\<close>

lemma clip_bounds:
  assumes "chunk_in_world (ChunkPos cx cy cz)"
  defines "o' \<equiv> subnode_origin (ChunkPos cx cy cz)"
  shows "clip_lo p q o' = SubNodePos (max (min (sp_x p) (sp_x q)) (48 * cx))
      (max (min (sp_y p) (sp_y q)) (48 * cy)) (max (min (sp_z p) (sp_z q)) (48 * cz))"
    and "clip_hi p q o' = SubNodePos (min (max (sp_x p) (sp_x q)) (48 * cx + 47))
      (min (max (sp_y p) (sp_y q)) (48 * cy + 47)) (min (max (sp_z p) (sp_z q)) (48 * cz + 47))"
proof -
  note o = subnode_origin_in_world [OF assms(1)]
  have "i32 (48 * cx + 47) = 48 * cx + 47" "i32 (48 * cy + 47) = 48 * cy + 47" "i32 (48 * cz + 47) = 48 * cz + 47"
    using o by (auto intro!: i32_lit)
  then show "clip_lo p q o' = SubNodePos (max (min (sp_x p) (sp_x q)) (48 * cx))
      (max (min (sp_y p) (sp_y q)) (48 * cy)) (max (min (sp_z p) (sp_z q)) (48 * cz))"
    "clip_hi p q o' = SubNodePos (min (max (sp_x p) (sp_x q)) (48 * cx + 47))
      (min (max (sp_y p) (sp_y q)) (48 * cy + 47)) (min (max (sp_z p) (sp_z q)) (48 * cz + 47))"
    using o by (simp_all add: o'_def clip_lo_def clip_hi_def)
qed

lemma clip_axes:
  assumes w: "chunk_in_world (ChunkPos cx cy cz)"
    and lo: "lo = clip_lo p q (subnode_origin (ChunkPos cx cy cz))"
    and hi: "hi = clip_hi p q (subnode_origin (ChunkPos cx cy cz))"
  shows "sp_x lo = max (min (sp_x p) (sp_x q)) (48 * cx)" "sp_x hi = min (max (sp_x p) (sp_x q)) (48 * cx + 47)"
    and "sp_y lo = max (min (sp_y p) (sp_y q)) (48 * cy)" "sp_y hi = min (max (sp_y p) (sp_y q)) (48 * cy + 47)"
    and "sp_z lo = max (min (sp_z p) (sp_z q)) (48 * cz)" "sp_z hi = min (max (sp_z p) (sp_z q)) (48 * cz + 47)"
  unfolding clip_bounds [OF w, of p q, folded lo hi] by simp_all

lemma clip_block_bound:
  assumes "lo = max a (48 * c)" and "hi = min b (48 * c + 47)" and "lo \<le> hi"
  shows "axis_block hi < 16"
proof (rule axis_block_bounds(3))
  show "48 * c \<le> hi" using assms by linarith
  show "hi < 48 * c + 48" using assms(2) by linarith
qed

lemma block_local_axes:
  "block_local (subnode_block (SubNodePos x y z)) = LocalBlock (axis_block x) (axis_block y) (axis_block z)"
  by (simp add: axis_block_def)

lemma set_blocks_between:
  assumes "x \<le> x'" and "y \<le> y'" and "z \<le> z'"
  shows "l \<in> set (blocks_between (LocalBlock x y z) (LocalBlock x' y' z')) \<longleftrightarrow>
    x \<le> lb_x l \<and> lb_x l \<le> x' \<and> y \<le> lb_y l \<and> lb_y l \<le> y' \<and> z \<le> lb_z l \<and> lb_z l \<le> z'"
proof (cases l)
  case (LocalBlock a b c)
  have "LocalBlock a b c \<in> (\<lambda>(bz, b_y, bx). LocalBlock bx b_y bz) ` (A \<times> B \<times> C) \<longleftrightarrow> c \<in> A \<and> b \<in> B \<and> a \<in> C"
    for A B C by (force simp: image_iff)
  then show ?thesis using assms LocalBlock by (auto simp: blocks_between_def less_Suc_eq_le min_absorb2 max_absorb1 simp del: upt_Suc)
qed

lemma distinct_blocks_between: "distinct (blocks_between a b)"
proof -
  have "inj (\<lambda>(bz, b_y, bx). LocalBlock bx b_y bz)" by (auto simp: inj_on_def)
  then show ?thesis by (simp add: blocks_between_def distinct_map inj_on_subset [OF _ subset_UNIV] del: upt_Suc)
qed

text \<open>A cell outside the clipped bounds of some axis is outside the region.\<close>

lemma not_in_region:
  assumes "local_valid l" and "k < 27"
    and "clip_lo p q (subnode_origin (ChunkPos cx cy cz)) = lo" and "clip_hi p q (subnode_origin (ChunkPos cx cy cz)) = hi"
    and w: "chunk_in_world (ChunkPos cx cy cz)"
    and "in_region p q (subnode_of (ChunkPos cx cy cz) l k)"
  shows "sp_x lo \<le> sp_x hi" and "sp_y lo \<le> sp_y hi" and "sp_z lo \<le> sp_z hi"
proof -
  obtain x y z where k: "subnode_offset k = (x, y, z)" by (cases "subnode_offset k")
  have "x < 3" "y < 3" "z < 3" using subnode_offset_less [OF assms(2) k] by auto
  moreover have "lb_x l < 16" "lb_y l < 16" "lb_z l < 16" using assms(1) by (cases l, simp)+
  ultimately have "48 * cx \<le> 48 * cx + 3 * int (lb_x l) + int x" "48 * cx + 3 * int (lb_x l) + int x \<le> 48 * cx + 47"
    "48 * cy \<le> 48 * cy + 3 * int (lb_y l) + int y" "48 * cy + 3 * int (lb_y l) + int y \<le> 48 * cy + 47"
    "48 * cz \<le> 48 * cz + 3 * int (lb_z l) + int z" "48 * cz + 3 * int (lb_z l) + int z \<le> 48 * cz + 47"
    by linarith+
  then show "sp_x lo \<le> sp_x hi" "sp_y lo \<le> sp_y hi" "sp_z lo \<le> sp_z hi"
    using assms(6) k unfolding assms(3,4) [symmetric] clip_bounds [OF w] subnode_pos.sel
    by (simp_all add: in_region_def)
qed

text \<open>A block outside the ranges walked has no cell in the region.\<close>

lemma unwalked_block:
  assumes w: "chunk_in_world (ChunkPos cx cy cz)" and l: "local_valid l"
    and lo: "lo = clip_lo p q (subnode_origin (ChunkPos cx cy cz))"
    and hi: "hi = clip_hi p q (subnode_origin (ChunkPos cx cy cz))"
    and le: "sp_x lo \<le> sp_x hi" "sp_y lo \<le> sp_y hi" "sp_z lo \<le> sp_z hi"
    and out: "\<not> (axis_block (sp_x lo) \<le> lb_x l \<and> lb_x l \<le> axis_block (sp_x hi) \<and>
      axis_block (sp_y lo) \<le> lb_y l \<and> lb_y l \<le> axis_block (sp_y hi) \<and>
      axis_block (sp_z lo) \<le> lb_z l \<and> lb_z l \<le> axis_block (sp_z hi))"
    and k: "k < 27"
  shows "\<not> in_region p q (subnode_of (ChunkPos cx cy cz) l k)"
proof -
  obtain x y z where xyz: "subnode_offset k = (x, y, z)" by (cases "subnode_offset k")
  have lt: "x < 3" "y < 3" "z < 3" using subnode_offset_less [OF k xyz] by auto
  have l': "lb_x l < 16" "lb_y l < 16" "lb_z l < 16" using l by (cases l, simp)+
  note o = subnode_origin_in_world [OF w]
  note X = clip_axes(1,2) [OF w lo hi] and Y = clip_axes(3,4) [OF w lo hi] and Z = clip_axes(5,6) [OF w lo hi]
  show ?thesis
    using out axis_overlap(3) [OF _ _ X le(1) l'(1) _ lt(1)] axis_overlap(3) [OF _ _ Y le(2) l'(2) _ lt(2)]
      axis_overlap(3) [OF _ _ Z le(3) l'(3) _ lt(3)] o
    unfolding in_region_def subnode_of.simps xyz Let_def prod.case subnode_pos.sel by blast
qed

lemma walked_block:
  assumes w: "chunk_in_world (ChunkPos cx cy cz)" and pos: "ch_pos d = ChunkPos cx cy cz"
    and lo: "lo = clip_lo p q (subnode_origin (ChunkPos cx cy cz))"
    and hi: "hi = clip_hi p q (subnode_origin (ChunkPos cx cy cz))"
    and le: "sp_x lo \<le> sp_x hi" "sp_y lo \<le> sp_y hi" "sp_z lo \<le> sp_z hi"
    and inn: "axis_block (sp_x lo) \<le> lb_x l" "lb_x l \<le> axis_block (sp_x hi)"
      "axis_block (sp_y lo) \<le> lb_y l" "lb_y l \<le> axis_block (sp_y hi)"
      "axis_block (sp_z lo) \<le> lb_z l" "lb_z l \<le> axis_block (sp_z hi)"
  shows "axis_ok (min (sp_x p) (sp_x q)) (max (sp_x p) (sp_x q)) (48 * cx + 3 * int (lb_x l))
      (overlap (sp_x lo) (sp_x hi) (sp_x (block_subnode_origin (ch_pos d) l)))"
    and "axis_ok (min (sp_y p) (sp_y q)) (max (sp_y p) (sp_y q)) (48 * cy + 3 * int (lb_y l))
      (overlap (sp_y lo) (sp_y hi) (sp_y (block_subnode_origin (ch_pos d) l)))"
    and "axis_ok (min (sp_z p) (sp_z q)) (max (sp_z p) (sp_z q)) (48 * cz + 3 * int (lb_z l))
      (overlap (sp_z lo) (sp_z hi) (sp_z (block_subnode_origin (ch_pos d) l)))"
    and "local_valid l"
proof -
  note o = subnode_origin_in_world [OF w]
  note X = clip_axes(1,2) [OF w lo hi] and Y = clip_axes(3,4) [OF w lo hi] and Z = clip_axes(5,6) [OF w lo hi]
  have bo: "block_subnode_origin (ch_pos d) l = SubNodePos (i32 (48 * cx + 3 * int (lb_x l)))
      (i32 (48 * cy + 3 * int (lb_y l))) (i32 (48 * cz + 3 * int (lb_z l)))"
    using o pos by (simp add: block_subnode_origin_def mult.commute)
  show "axis_ok (min (sp_x p) (sp_x q)) (max (sp_x p) (sp_x q)) (48 * cx + 3 * int (lb_x l))
      (overlap (sp_x lo) (sp_x hi) (sp_x (block_subnode_origin (ch_pos d) l)))"
    "axis_ok (min (sp_y p) (sp_y q)) (max (sp_y p) (sp_y q)) (48 * cy + 3 * int (lb_y l))
      (overlap (sp_y lo) (sp_y hi) (sp_y (block_subnode_origin (ch_pos d) l)))"
    "axis_ok (min (sp_z p) (sp_z q)) (max (sp_z p) (sp_z q)) (48 * cz + 3 * int (lb_z l))
      (overlap (sp_z lo) (sp_z hi) (sp_z (block_subnode_origin (ch_pos d) l)))"
    unfolding bo subnode_pos.sel
    using axis_overlap(2) [OF _ _ X le(1) inn(1,2)] axis_overlap(2) [OF _ _ Y le(2) inn(3,4)]
      axis_overlap(2) [OF _ _ Z le(3) inn(5,6)] o by blast+
  have "axis_block (sp_x hi) < 16" "axis_block (sp_y hi) < 16" "axis_block (sp_z hi) < 16"
    using clip_block_bound [OF X le(1)] clip_block_bound [OF Y le(2)] clip_block_bound [OF Z le(3)] by blast+
  then show "local_valid l" using inn by (cases l) simp
qed

lemma subnode_of_position:
  assumes "subnode_local s = (x, y, z)"
  shows "subnode_of (subnode_chunk s) (block_local (subnode_block s)) (subnode_index x y z) = s"
proof -
  have off: "subnode_offset (subnode_index x y z) = (x, y, z)"
    using subnode_local_less [OF assms] subnode_offset_index by blast
  have ax: "48 * (v div 48) + 3 * int (nat (v div 3 mod 16)) + int (nat (v mod 3)) = v" for v :: int
  proof -
    have "v div 48 = v div 3 div 16" by (simp add: zdiv_zmult2_eq [of 16 _ 3, simplified])
    then have "48 * (v div 48) + 3 * (v div 3 mod 16) + v mod 3 = 3 * (16 * (v div 3 div 16) + v div 3 mod 16) + v mod 3"
      by (simp only: distrib_left mult.assoc [symmetric] mult_numeral_left_semiring_numeral)
    also have "\<dots> = v" by (simp only: mult_div_mod_eq)
    finally show ?thesis by simp
  qed
  obtain a b c where s: "s = SubNodePos a b c" by (cases s)
  then have xyz: "int x = int (nat (a mod 3))" "int y = int (nat (b mod 3))" "int z = int (nat (c mod 3))"
    using assms by auto
  have "subnode_of (subnode_chunk s) (block_local (subnode_block s)) (subnode_index x y z) =
      SubNodePos (48 * (a div 48) + 3 * int (nat (a div 3 mod 16)) + int x)
        (48 * (b div 48) + 3 * int (nat (b div 3 mod 16)) + int y)
        (48 * (c div 48) + 3 * int (nat (c div 3 mod 16)) + int z)"
    by (simp add: s off)
  then show ?thesis unfolding xyz ax s .
qed

text \<open>The loop over the walked blocks, when the clipped region is not empty.\<close>

lemma fill_loop:
  assumes inv: "chunk_inv c" and pos: "ch_pos c = ChunkPos cx cy cz" and w: "chunk_in_world (ChunkPos cx cy cz)"
    and safe: "hash_safe (chunk_value c ` {..<4096} \<union>
      (\<lambda>l. canonical (VCells (filled_cells c p q m l))) ` {l. local_valid l})"
    and lo: "lo = clip_lo p q (subnode_origin (ChunkPos cx cy cz))"
    and hi: "hi = clip_hi p q (subnode_origin (ChunkPos cx cy cz))"
    and le: "sp_x lo \<le> sp_x hi" "sp_y lo \<le> sp_y hi" "sp_z lo \<le> sp_z hi"
    and ls: "\<And>l. l \<in> set ls \<longleftrightarrow> axis_block (sp_x lo) \<le> lb_x l \<and> lb_x l \<le> axis_block (sp_x hi) \<and>
      axis_block (sp_y lo) \<le> lb_y l \<and> lb_y l \<le> axis_block (sp_y hi) \<and>
      axis_block (sp_z lo) \<le> lb_z l \<and> lb_z l \<le> axis_block (sp_z hi)" "distinct ls"
  shows "\<exists>c'. for_each (fill_block lo hi m) ls c = Some c' \<and> chunk_inv c' \<and> same_pos c c' \<and>
    (\<forall>l \<in> set ls. chunk_value c' (local_index l) = canonical (VCells (filled_cells c p q m l))) \<and>
    (\<forall>j < 4096. j \<notin> local_index ` set ls \<longrightarrow> chunk_value c' j = chunk_value c j)"
proof (rule chunks.update_each [OF inv _ _ safe])
  have valid: "local_valid l" if "l \<in> set ls" for l
    using walked_block(4) [OF w pos lo hi le] that ls(1) by blast
  then have "inj_on local_index (set ls)" using local_index_inj by (auto simp: inj_on_def)
  then show "distinct (map local_index ls)" using ls(2) by (simp add: distinct_map)
  show "\<forall>l \<in> set ls. local_index l < 4096 \<and> wf_value (VCells (filled_cells c p q m l))"
    using local_index_less valid by (auto simp: filled_cells_def)
  show "chunk_value c ` {..<4096} \<union> (canonical \<circ> (\<lambda>l. VCells (filled_cells c p q m l))) ` set ls \<subseteq>
    chunk_value c ` {..<4096} \<union> (\<lambda>l. canonical (VCells (filled_cells c p q m l))) ` {l. local_valid l}"
    using valid by auto
  fix l d assume l: "l \<in> set ls" and d: "chunk_inv d" "same_pos c d"
    "chunk_value d (local_index l) = chunk_value c (local_index l)"
  have dp: "ch_pos d = ChunkPos cx cy cz" "ch_pos d = ch_pos c" using d(2) pos by (auto simp: same_pos_def)
  have wf: "wf_value (chunk_value c (local_index l))"
    using chunk_value_wf(1) [OF inv] local_index_less [OF valid [OF l]] by simp
  have "\<exists>v. fill_block lo hi m l d = set_block_local d l v \<and> wf_value v \<and>
      canonical v = canonical (VCells (filled_cells c p q m l))"
    by (rule fill_block_value [OF d(1) dp(2) d(3) wf valid [OF l] pos])
      (use walked_block(1-3) [OF w dp(1) lo hi le] l ls(1) in blast)+
  then show "\<exists>v. fill_block lo hi m l d = put_at d (local_index l) v \<and> wf_value v \<and>
      canonical v = canonical (VCells (filled_cells c p q m l))"
    using set_block_local_put [OF valid [OF l]] by simp
qed

lemma walked_blocks:
  assumes w: "chunk_in_world (ChunkPos cx cy cz)"
    and lo: "lo = clip_lo p q (subnode_origin (ChunkPos cx cy cz))"
    and hi: "hi = clip_hi p q (subnode_origin (ChunkPos cx cy cz))"
    and le: "sp_x lo \<le> sp_x hi" "sp_y lo \<le> sp_y hi" "sp_z lo \<le> sp_z hi"
  shows "l \<in> set (blocks_between (block_local (subnode_block lo)) (block_local (subnode_block hi))) \<longleftrightarrow>
    axis_block (sp_x lo) \<le> lb_x l \<and> lb_x l \<le> axis_block (sp_x hi) \<and>
    axis_block (sp_y lo) \<le> lb_y l \<and> lb_y l \<le> axis_block (sp_y hi) \<and>
    axis_block (sp_z lo) \<le> lb_z l \<and> lb_z l \<le> axis_block (sp_z hi)"
proof -
  have o: "-3750 \<le> cx" "cx < 3750" "-3750 \<le> cy" "cy < 3750" "-3750 \<le> cz" "cz < 3750"
    using subnode_origin_in_world [OF w] by auto
  note ax = axis_overlap(1) [OF o(1,2) clip_axes(1,2) [OF w lo hi] le(1)]
    axis_overlap(1) [OF o(3,4) clip_axes(3,4) [OF w lo hi] le(2)]
    axis_overlap(1) [OF o(5,6) clip_axes(5,6) [OF w lo hi] le(3)]
  show ?thesis using set_blocks_between [OF ax] by (metis block_local_axes subnode_pos.collapse)
qed

text \<open>Filling a region sets exactly the cells of the chunk that lie in it.\<close>

lemma fill_region_blocks:
  assumes inv: "chunk_inv c" and pos: "ch_pos c = ChunkPos cx cy cz" and w: "chunk_in_world (ChunkPos cx cy cz)"
    and safe: "hash_safe (chunk_value c ` {..<4096} \<union>
      (\<lambda>l. canonical (VCells (filled_cells c p q m l))) ` {l. local_valid l})"
  shows "\<exists>c'. fill_region c p q m = Some c' \<and> chunk_inv c' \<and> ch_pos c' = ch_pos c \<and>
    (\<forall>l. local_valid l \<longrightarrow> value_cells (chunk_value c' (local_index l)) = filled_cells c p q m l)"
proof -
  define lo where lo: "lo = clip_lo p q (subnode_origin (ChunkPos cx cy cz))"
  define hi where hi: "hi = clip_hi p q (subnode_origin (ChunkPos cx cy cz))"
  let ?ls = "blocks_between (block_local (subnode_block lo)) (block_local (subnode_block hi))"
  have fr: "fill_region c p q m = (if sp_x lo > sp_x hi \<or> sp_y lo > sp_y hi \<or> sp_z lo > sp_z hi then Some c
      else for_each (fill_block lo hi m) ?ls c)"
    by (simp only: fill_region_def pos Let_def flip: lo hi)
  have untouched: "filled_cells c p q m l = value_cells (chunk_value c (local_index l))"
    if "local_valid l" "\<And>k. k < 27 \<Longrightarrow> \<not> in_region p q (subnode_of (ChunkPos cx cy cz) l k)" for l
    using that chunk_value_wf(1) [OF inv, of "local_index l"] local_index_less [OF that(1)] pos
    by (intro nth_equalityI) (auto simp: filled_cells_def)
  show ?thesis
  proof (cases "sp_x lo > sp_x hi \<or> sp_y lo > sp_y hi \<or> sp_z lo > sp_z hi")
    case True
    then have "\<not> in_region p q (subnode_of (ChunkPos cx cy cz) l k)" if "local_valid l" "k < 27" for l k
      using not_in_region [OF that lo [symmetric] hi [symmetric] w] by linarith
    then show ?thesis using True inv fr untouched by auto
  next
    case False
    then have le: "sp_x lo \<le> sp_x hi" "sp_y lo \<le> sp_y hi" "sp_z lo \<le> sp_z hi" by auto
    note ls = walked_blocks [OF w lo hi le]
    have valid: "local_valid l" if "l \<in> set ?ls" for l
      using walked_block(4) [OF w pos lo hi le] that ls by blast
    obtain c' where c': "for_each (fill_block lo hi m) ?ls c = Some c'" "chunk_inv c'" "same_pos c c'"
        "\<forall>l \<in> set ?ls. chunk_value c' (local_index l) = canonical (VCells (filled_cells c p q m l))"
        "\<forall>j < 4096. j \<notin> local_index ` set ?ls \<longrightarrow> chunk_value c' j = chunk_value c j"
      using fill_loop [OF inv pos w safe lo hi le ls distinct_blocks_between] by blast
    have "value_cells (chunk_value c' (local_index l)) = filled_cells c p q m l" if l: "local_valid l" for l
    proof (cases "l \<in> set ?ls")
      case True
      have "wf_value (VCells (filled_cells c p q m l))" by (simp add: filled_cells_def)
      then show ?thesis using c'(4) True canonical_value_cells by fastforce
    next
      case out: False
      have "local_index l \<notin> local_index ` set ?ls" using out local_index_inj valid l by auto
      then have "chunk_value c' (local_index l) = chunk_value c (local_index l)"
        using c'(5) local_index_less [OF l] by simp
      moreover have "\<And>k. k < 27 \<Longrightarrow> \<not> in_region p q (subnode_of (ChunkPos cx cy cz) l k)"
        using unwalked_block [OF w l lo hi le] out ls by blast
      ultimately show ?thesis using untouched [OF l] by simp
    qed
    then show ?thesis using c'(1-3) False fr by (auto simp: same_pos_def)
  qed
qed

lemma fill_region_cells:
  assumes inv: "chunk_inv c" and w: "chunk_in_world (ch_pos c)"
    and safe: "hash_safe (chunk_value c ` {..<4096} \<union>
      (\<lambda>l. canonical (VCells (filled_cells c p q m l))) ` {l. local_valid l})"
  shows "\<exists>c'. fill_region c p q m = Some c' \<and> chunk_inv c' \<and> ch_pos c' = ch_pos c \<and>
    (\<forall>s. subnode_chunk s = ch_pos c \<longrightarrow> cell_at c' s = (if in_region p q s then m else cell_at c s))"
proof -
  obtain cx cy cz where pos: "ch_pos c = ChunkPos cx cy cz" by (cases "ch_pos c")
  obtain c' where c': "fill_region c p q m = Some c'" "chunk_inv c'" "ch_pos c' = ch_pos c"
      "\<forall>l. local_valid l \<longrightarrow> value_cells (chunk_value c' (local_index l)) = filled_cells c p q m l"
    using fill_region_blocks [OF inv pos _ safe] w pos by auto
  have "cell_at c' s = (if in_region p q s then m else cell_at c s)" if s: "subnode_chunk s = ch_pos c" for s
  proof (cases "subnode_local s")
    case (fields x y z)
    have k: "subnode_index x y z < 27" using subnode_local_less [OF fields] subnode_index_less by blast
    have "subnode_of (ch_pos c) (block_local (subnode_block s)) (subnode_index x y z) = s"
      using subnode_of_position [OF fields] s by simp
    then show ?thesis using c'(4) k by (simp add: cell_at_def fields filled_cells_def)
  qed
  then show ?thesis using c' by blast
qed

end
