(* ===== verification/Chunk_Parts.thy ===== *)
theory Chunk_Parts
  imports Chunk_Api
begin

text \<open>
  The serialised parts of a chunk: \<open>to_parts\<close>, and the validating \<open>from_parts\<close> that rebuilds a chunk
  from what a world file holds. A result is \<open>None\<close> for a panic, \<open>Inl\<close> for a rejected file.
\<close>

section \<open>Definitions\<close>

definition to_parts :: "chunk \<Rightarrow> chunk_parts" where
  "to_parts c =
     \<lparr>pt_palette = map (\<lambda>entry. (pe_content entry, pe_refs entry)) (ch_palette c),
      pt_bits_per_index = bits_per_entry (ch_indices c),
      pt_index_words = ba_words (ch_indices c),
      pt_mixed_cells = mt_cells (ch_mixed c),
      pt_mixed_free = mt_free (ch_mixed c)\<rparr>"

fun rebuild_loop :: "nat list \<Rightarrow> nat list \<Rightarrow> mixed_table \<Rightarrow> corrupt_chunk + mixed_table" where
  "rebuild_loop free [] mixed = Inr mixed"
| "rebuild_loop free (slot # slots) mixed =
     (if slot \<ge> 65536 then Inl (MixedTableTooLarge (length (mt_cells mixed)))
      else if slot \<in> set free then rebuild_loop free slots mixed
      else rebuild_loop free slots
             (mixed\<lparr>mt_lookup := (mt_lookup mixed)(mixed_hash (mt_cells mixed ! slot) \<mapsto> slot),
                    mt_live := mt_live mixed + 1\<rparr>))"

definition rebuild_mixed_table :: "cells list \<Rightarrow> nat list \<Rightarrow> corrupt_chunk + mixed_table" where
  "rebuild_mixed_table table free_list =
     rebuild_loop free_list [0..<length table]
       \<lparr>mt_cells = table, mt_free = free_list, mt_lookup = Map.empty, mt_live = 0\<rparr>"

fun validate_palette ::
  "mixed_table \<Rightarrow> nat list \<Rightarrow> nat \<Rightarrow> (block_content \<times> nat) list \<Rightarrow> nat \<Rightarrow> corrupt_chunk + nat" where
  "validate_palette mixed free slot [] live = Inr live"
| "validate_palette mixed free slot ((content, refs) # rest) live =
     (if refs = 0 then validate_palette mixed free (Suc slot) rest live
      else case content of
        Uniform _ \<Rightarrow> validate_palette mixed free (Suc slot) rest (live + 1)
      | Partial material occupancy \<Rightarrow>
          if is_air material \<or> occupancy = 0 \<or> occupancy = OCCUPANCY_FULL \<or>
             occupancy AND NOT OCCUPANCY_FULL \<noteq> 0
          then Inl (NonCanonicalPartial slot)
          else validate_palette mixed free (Suc slot) rest (live + 1)
      | Mixed mixed_slot \<Rightarrow>
          if mixed_slot \<ge> length (mt_cells mixed) \<or> mixed_slot \<in> set free
          then Inl (DanglingMixedSlot slot mixed_slot)
          else validate_palette mixed free (Suc slot) rest (live + 1))"

fun count_refs ::
  "(block_content \<times> nat) list \<Rightarrow> bit_array \<Rightarrow> nat list \<Rightarrow> nat list \<Rightarrow> (corrupt_chunk + nat list) option" where
  "count_refs palette indices [] counted = Some (Inr counted)"
| "count_refs palette indices (index # rest) counted = do {
     slot \<leftarrow> ba_get indices index;
     if slot \<ge> length palette then Some (Inl (IndexOutOfRange index slot (length palette)))
     else if snd (palette ! slot) = 0 then Some (Inl (IndexToFreeSlot index slot))
     else do {
       counted' \<leftarrow> vec_set counted slot (counted ! slot + 1);
       count_refs palette indices rest counted'
     }
   }"

fun check_refs :: "nat \<Rightarrow> ((block_content \<times> nat) \<times> nat) list \<Rightarrow> corrupt_chunk + unit" where
  "check_refs slot [] = Inr ()"
| "check_refs slot (((_, refs), counted) # rest) =
     (if refs \<noteq> counted then Inl (RefcountMismatch slot refs counted) else check_refs (Suc slot) rest)"

definition validate_indices ::
  "(block_content \<times> nat) list \<Rightarrow> bit_array \<Rightarrow> (corrupt_chunk + unit) option" where
  "validate_indices palette indices = do {
     counts \<leftarrow> count_refs palette indices [0..<BLOCKS_PER_CHUNK] (replicate (length palette) 0);
     Some (case counts of
       Inl e \<Rightarrow> Inl e
     | Inr counted_refs \<Rightarrow> check_refs 0 (zip palette counted_refs))
   }"

fun build_palette :: "mixed_table \<Rightarrow> (block_content \<times> nat) list \<Rightarrow> palette_entry list option" where
  "build_palette mixed [] = Some []"
| "build_palette mixed ((content, refs) # rest) = do {
     faces \<leftarrow> faces_of content mixed;
     entries \<leftarrow> build_palette mixed rest;
     Some (\<lparr>pe_content = content, pe_refs = refs, pe_faces = faces\<rparr> # entries)
   }"

definition free_palette :: "(block_content \<times> nat) list \<Rightarrow> nat list" where
  "free_palette palette = map as_u16 (filter (\<lambda>slot. snd (palette ! slot) = 0) [0..<length palette])"

definition from_parts :: "chunk_pos \<Rightarrow> chunk_parts \<Rightarrow> (corrupt_chunk + chunk) option" where
  "from_parts pos parts =
     (let palette = pt_palette parts; bits = pt_bits_per_index parts in
      if palette = [] then Some (Inl EmptyPalette)
      else if length palette > BLOCKS_PER_CHUNK then Some (Inl (PaletteTooLarge (length palette)))
      else if bits < bits_for (length palette) then Some (Inl (IndexTooNarrow bits (length palette)))
      else case from_words BLOCKS_PER_CHUNK bits (pt_index_words parts) of
        Inl e \<Rightarrow> Some (Inl (Indices e))
      | Inr indices \<Rightarrow>
      (case rebuild_mixed_table (pt_mixed_cells parts) (pt_mixed_free parts) of
        Inl e \<Rightarrow> Some (Inl e)
      | Inr mixed \<Rightarrow>
      (case validate_palette mixed (pt_mixed_free parts) 0 palette 0 of
        Inl e \<Rightarrow> Some (Inl e)
      | Inr live_entries \<Rightarrow> do {
          checked \<leftarrow> validate_indices palette indices;
          case checked of
            Inl e \<Rightarrow> Some (Inl e)
          | Inr _ \<Rightarrow> do {
              built \<leftarrow> build_palette mixed palette;
              Some (Inr \<lparr>ch_pos = pos, ch_palette = built, ch_free = free_palette palette,
                ch_live_entries = live_entries, ch_indices = indices, ch_mixed = mixed\<rparr>)
            }
        })))"

section \<open>What the checks establish\<close>

lemma rebuild_loop_cells:
  "rebuild_loop free slots t = Inr t' \<Longrightarrow> mt_cells t' = mt_cells t \<and> mt_free t' = mt_free t"
  by (induction free slots t rule: rebuild_loop.induct) (auto split: if_splits)

lemma rebuild_mixed_table_cells:
  "rebuild_mixed_table cells free = Inr t \<Longrightarrow> mt_cells t = cells \<and> mt_free t = free"
  unfolding rebuild_mixed_table_def by (drule rebuild_loop_cells) simp

text \<open>What one entry in use has to satisfy to be accepted.\<close>

definition entry_valid :: "mixed_table \<Rightarrow> nat list \<Rightarrow> block_content \<Rightarrow> bool" where
  "entry_valid t free content \<longleftrightarrow>
     (case content of
        Uniform _ \<Rightarrow> True
      | Partial m occ \<Rightarrow> m \<noteq> AIR \<and> occ \<noteq> 0 \<and> occ \<noteq> OCCUPANCY_FULL \<and> occ AND NOT OCCUPANCY_FULL = 0
      | Mixed k \<Rightarrow> k < length (mt_cells t) \<and> k \<notin> set free)"

lemma validate_palette_iff:
  "validate_palette t free slot palette live = Inr n \<longleftrightarrow>
     (\<forall>(content, refs) \<in> set palette. refs \<noteq> 0 \<longrightarrow> entry_valid t free content) \<and>
     n = live + length (filter (\<lambda>p. snd p \<noteq> 0) palette)"
  by (induction t free slot palette live rule: validate_palette.induct)
    (auto simp: entry_valid_def is_air_def split: block_content.splits)

lemma count_refs_ok:
  assumes inv: "ba_inv a" and "\<forall>i \<in> set is. i < ba_len a" and "length counted = length palette"
  shows "count_refs palette a is counted \<noteq> None"
    and "count_refs palette a is counted = Some (Inr r) \<longleftrightarrow>
      (\<forall>i \<in> set is. ba_list a ! i < length palette \<and> snd (palette ! (ba_list a ! i)) \<noteq> 0) \<and>
      r = map (\<lambda>s. counted ! s + count_list (map (\<lambda>i. ba_list a ! i) is) s) [0..<length palette]"
proof -
  have "count_refs palette a is counted \<noteq> None \<and> (count_refs palette a is counted = Some (Inr r) \<longleftrightarrow>
      (\<forall>i \<in> set is. ba_list a ! i < length palette \<and> snd (palette ! (ba_list a ! i)) \<noteq> 0) \<and>
      r = map (\<lambda>s. counted ! s + count_list (map (\<lambda>i. ba_list a ! i) is) s) [0..<length palette])"
    using assms(2,3)
  proof (induction "is" arbitrary: counted)
    case Nil
    then have "map ((!) counted) [0..<length palette] = counted" using map_nth [of counted] by simp
    then show ?case by auto
  next
    case (Cons i "is")
    then have g: "ba_get a i = Some (ba_list a ! i)" using ba_get_list [OF inv] by simp
    let ?s = "ba_list a ! i"
    show ?case
    proof (cases "?s < length palette \<and> snd (palette ! ?s) \<noteq> 0")
      case True
      let ?c = "counted[?s := counted ! ?s + 1]"
      have step: "count_refs palette a (i # is) counted = count_refs palette a is ?c"
        using g True Cons.prems(2) by (simp add: vec_simps)
      have counts: "map (\<lambda>s. ?c ! s + count_list (map (\<lambda>i. ba_list a ! i) is) s) [0..<length palette] =
          map (\<lambda>s. counted ! s + count_list (map (\<lambda>i. ba_list a ! i) (i # is)) s) [0..<length palette]"
        using True Cons.prems(2) by (auto simp: nth_list_update)
      show ?thesis unfolding step using Cons.IH [of ?c, unfolded counts] Cons.prems True by simp
    next
      case False
      then show ?thesis using g by auto
    qed
  qed
  then show "count_refs palette a is counted \<noteq> None"
    "count_refs palette a is counted = Some (Inr r) \<longleftrightarrow>
      (\<forall>i \<in> set is. ba_list a ! i < length palette \<and> snd (palette ! (ba_list a ! i)) \<noteq> 0) \<and>
      r = map (\<lambda>s. counted ! s + count_list (map (\<lambda>i. ba_list a ! i) is) s) [0..<length palette]"
    by blast+
qed

lemma check_refs_zip:
  "length palette = length counts \<Longrightarrow>
     check_refs slot (zip palette counts) = Inr () \<longleftrightarrow> (\<forall>s < length palette. snd (palette ! s) = counts ! s)"
proof (induction palette counts arbitrary: slot rule: list_induct2)
  case (Cons p ps n ns)
  then show ?case by (cases p) (simp add: All_less_Suc2)
qed simp

lemma ba_list_nth_upt: "map (\<lambda>i. ba_list a ! i) [0..<ba_len a] = ba_list a"
  using map_nth [of "ba_list a"] by simp

lemma validate_indices_ok:
  assumes inv: "ba_inv a" and len: "ba_len a = 4096"
  shows "validate_indices palette a \<noteq> None"
    and "validate_indices palette a = Some (Inr u) \<longleftrightarrow>
      (\<forall>s \<in> set (ba_list a). s < length palette) \<and>
      (\<forall>s < length palette. snd (palette ! s) = count_list (ba_list a) s)"
proof -
  let ?z = "replicate (length palette) (0 :: nat)"
  have upt: "\<forall>i \<in> set [0..<4096]. i < ba_len a" "length ?z = length palette" using len by auto
  note cr = count_refs_ok [OF inv upt]
  have es: "map (\<lambda>i. ba_list a ! i) [0..<4096] = ba_list a" using ba_list_nth_upt [of a] len by simp
  let ?counts = "map (\<lambda>s. ?z ! s + count_list (ba_list a) s) [0..<length palette]"
  have all: "(\<forall>i \<in> set [0..<4096]. P (ba_list a ! i)) \<longleftrightarrow> (\<forall>s \<in> set (ba_list a). P s)" for P
    using len by (auto simp: in_set_conv_nth all_set_conv_all_nth)
  show "validate_indices palette a \<noteq> None"
    using cr(1) by (auto simp: validate_indices_def)
  have zip: "check_refs 0 (zip palette ?counts) = Inr () \<longleftrightarrow>
      (\<forall>s < length palette. snd (palette ! s) = count_list (ba_list a) s)"
    by (subst check_refs_zip) simp_all
  have "validate_indices palette a = Some (Inr u) \<longleftrightarrow>
      count_refs palette a [0..<4096] ?z = Some (Inr ?counts) \<and> check_refs 0 (zip palette ?counts) = Inr ()"
  proof (cases "count_refs palette a [0..<4096] ?z")
    case (Some res)
    show ?thesis
    proof (cases res)
      case (Inl e)
      then show ?thesis using Some by (simp add: validate_indices_def)
    next
      case (Inr r)
      then have "r = ?counts" using Some cr(2) [unfolded es] by simp
      then show ?thesis using Some Inr by (simp add: validate_indices_def)
    qed
  qed (use cr(1) in simp)
  also have "\<dots> \<longleftrightarrow> (\<forall>s \<in> set (ba_list a). s < length palette) \<and>
      (\<forall>s < length palette. snd (palette ! s) = count_list (ba_list a) s)"
    unfolding zip using cr(2) [of ?counts] all [of "\<lambda>s. s < length palette \<and> snd (palette ! s) \<noteq> 0"] es
    by (auto simp: count_list_0_iff)
  finally show "validate_indices palette a = Some (Inr u) \<longleftrightarrow>
      (\<forall>s \<in> set (ba_list a). s < length palette) \<and>
      (\<forall>s < length palette. snd (palette ! s) = count_list (ba_list a) s)" .
qed

text \<open>Building the palette panics exactly when some entry, in use or not, names a missing array.\<close>

definition dangling :: "mixed_table \<Rightarrow> block_content \<Rightarrow> bool" where
  "dangling t content \<longleftrightarrow> (\<exists>k. content = Mixed k \<and> length (mt_cells t) \<le> k)"

lemma faces_of_None: "faces_of content t = None \<longleftrightarrow> dangling t content"
  by (cases content) (auto simp: faces_of_def content_view_def mixed_get_def vec_get_def dangling_def)

lemma build_palette_Some:
  "build_palette t palette = Some built \<longleftrightarrow> (\<forall>p \<in> set palette. \<not> dangling t (fst p)) \<and>
     built = map (\<lambda>(content, refs). \<lparr>pe_content = content, pe_refs = refs, pe_faces = the (faces_of content t)\<rparr>) palette"
proof (induction t palette arbitrary: built rule: build_palette.induct)
  case (2 t content refs rest)
  then show ?case
  proof (cases "faces_of content t")
    case None
    moreover from None have "dangling t content" by (simp only: faces_of_None)
    ultimately show ?thesis by simp
  next
    case (Some f)
    then have "\<not> dangling t content" using faces_of_None by (metis option.distinct(1))
    then show ?thesis using Some 2 by (auto simp: bind_eq_Some_conv)
  qed
qed auto

lemma build_palette_None:
  "build_palette t palette = None \<longleftrightarrow> (\<exists>p \<in> set palette. dangling t (fst p))"
  using build_palette_Some [of t palette] by (cases "build_palette t palette") auto

section \<open>Acceptance\<close>

text \<open>The checks of \<open>from_parts\<close> as one predicate on the parts.\<close>

definition parts_valid :: "chunk_parts \<Rightarrow> mixed_table \<Rightarrow> bit_array \<Rightarrow> bool" where
  "parts_valid parts t a \<longleftrightarrow>
     pt_palette parts \<noteq> [] \<and> length (pt_palette parts) \<le> 4096 \<and>
     bits_for (length (pt_palette parts)) \<le> pt_bits_per_index parts \<and>
     from_words 4096 (pt_bits_per_index parts) (pt_index_words parts) = Inr a \<and>
     rebuild_mixed_table (pt_mixed_cells parts) (pt_mixed_free parts) = Inr t \<and>
     (\<forall>(content, refs) \<in> set (pt_palette parts). refs \<noteq> 0 \<longrightarrow> entry_valid t (pt_mixed_free parts) content) \<and>
     (\<forall>s \<in> set (ba_list a). s < length (pt_palette parts)) \<and>
     (\<forall>s < length (pt_palette parts). snd (pt_palette parts ! s) = count_list (ba_list a) s)"

definition rebuilt :: "chunk_pos \<Rightarrow> chunk_parts \<Rightarrow> mixed_table \<Rightarrow> bit_array \<Rightarrow> chunk" where
  "rebuilt pos parts t a =
     \<lparr>ch_pos = pos,
      ch_palette = map (\<lambda>(content, refs). \<lparr>pe_content = content, pe_refs = refs,
        pe_faces = the (faces_of content t)\<rparr>) (pt_palette parts),
      ch_free = free_palette (pt_palette parts),
      ch_live_entries = length (filter (\<lambda>p. snd p \<noteq> 0) (pt_palette parts)),
      ch_indices = a, ch_mixed = t\<rparr>"

lemma from_parts_valid:
  assumes "parts_valid parts t a"
  shows "from_parts pos parts = map_option (\<lambda>built. Inr ((rebuilt pos parts t a)\<lparr>ch_palette := built\<rparr>))
    (build_palette t (pt_palette parts))"
proof -
  have a: "ba_inv a" "ba_len a = 4096" using assms from_words_inv by (auto simp: parts_valid_def)
  have "validate_indices (pt_palette parts) a = Some (Inr ())"
    using validate_indices_ok(2) [OF a] assms by (simp add: parts_valid_def)
  moreover have "validate_palette t (pt_mixed_free parts) 0 (pt_palette parts) 0 =
      Inr (length (filter (\<lambda>p. snd p \<noteq> 0) (pt_palette parts)))"
    using validate_palette_iff assms by (auto simp: parts_valid_def)
  ultimately show ?thesis using assms
    by (cases "build_palette t (pt_palette parts)")
      (simp_all add: from_parts_def parts_valid_def Let_def rebuilt_def)
qed

lemma from_parts_accepts:
  assumes "\<nexists>t a. parts_valid parts t a"
  shows "\<exists>e. from_parts pos parts = Some (Inl e)"
proof (cases "pt_palette parts = [] \<or> length (pt_palette parts) > 4096 \<or>
    pt_bits_per_index parts < bits_for (length (pt_palette parts))")
  case True
  then show ?thesis by (auto simp: from_parts_def Let_def)
next
  case shape: False
  show ?thesis
  proof (cases "from_words 4096 (pt_bits_per_index parts) (pt_index_words parts)")
    case (Inl e)
    then show ?thesis using shape by (simp add: from_parts_def Let_def)
  next
    case (Inr a)
    note a = from_words_inv [OF Inr]
    show ?thesis
    proof (cases "rebuild_mixed_table (pt_mixed_cells parts) (pt_mixed_free parts)")
      case (Inl e)
      then show ?thesis using shape Inr by (simp add: from_parts_def Let_def)
    next
      case t: (Inr t)
      show ?thesis
      proof (cases "validate_palette t (pt_mixed_free parts) 0 (pt_palette parts) 0")
        case (Inl e)
        then show ?thesis using shape Inr t by (simp add: from_parts_def Let_def)
      next
        case live: (Inr n)
        obtain r where r: "validate_indices (pt_palette parts) a = Some r"
          using validate_indices_ok(1) [of a "pt_palette parts"] a by auto
        have "r \<noteq> Inr u" for u
          using assms shape Inr t live r validate_indices_ok(2) [of a "pt_palette parts" u] a validate_palette_iff
          by (auto simp: parts_valid_def)
        then obtain e where "r = Inl e" by (cases r) auto
        then show ?thesis using shape Inr t live r by (simp add: from_parts_def Let_def)
      qed
    qed
  qed
qed

lemma from_parts_Inr:
  assumes "from_parts pos parts = Some (Inr c)"
  obtains t a where "parts_valid parts t a" and "c = rebuilt pos parts t a"
    and "\<forall>p \<in> set (pt_palette parts). \<not> dangling t (fst p)"
proof -
  obtain t a where v: "parts_valid parts t a"
    using from_parts_accepts [of parts pos] assms by force
  then obtain built where "build_palette t (pt_palette parts) = Some built"
      "c = (rebuilt pos parts t a)\<lparr>ch_palette := built\<rparr>"
    using assms from_parts_valid [OF v, of pos] by auto
  then show thesis using that [OF v] build_palette_Some by (auto simp: rebuilt_def)
qed

text \<open>A panic is exactly a file that passes every check and has an entry out of use whose mixed
  slot is missing.\<close>

lemma from_parts_panic:
  "from_parts pos parts = None \<longleftrightarrow>
     (\<exists>t a. parts_valid parts t a \<and> (\<exists>(content, refs) \<in> set (pt_palette parts). refs = 0 \<and> dangling t content))"
proof -
  have dead: "refs = 0"
    if "parts_valid parts t a" "(content, refs) \<in> set (pt_palette parts)" "dangling t content" for t a content refs
    using that by (force simp: parts_valid_def entry_valid_def dangling_def)
  show ?thesis
  proof (cases "\<exists>t a. parts_valid parts t a")
    case False
    then show ?thesis using from_parts_accepts [of parts pos] by force
  next
    case True
    then obtain t a where v: "parts_valid parts t a" by blast
    have "parts_valid parts t' a' \<Longrightarrow> t' = t" for t' a' using v by (simp add: parts_valid_def)
    moreover have "from_parts pos parts = None \<longleftrightarrow> (\<exists>p \<in> set (pt_palette parts). dangling t (fst p))"
      using from_parts_valid [OF v, of pos] build_palette_None by simp
    ultimately show ?thesis using v dead [OF v] by fastforce
  qed
qed

section \<open>What an accepted chunk satisfies\<close>

lemma refs_of_rebuilt:
  "refs_of (ch_palette (rebuilt pos parts t a)) s =
     (if s < length (pt_palette parts) then snd (pt_palette parts ! s) else 0)"
  by (simp add: refs_of_def rebuilt_def split: prod.split)

lemma rebuilt_refs:
  assumes "parts_valid parts t a"
  shows "refs_of (ch_palette (rebuilt pos parts t a)) = count_list (ba_list a)"
proof
  fix s
  show "refs_of (ch_palette (rebuilt pos parts t a)) s = count_list (ba_list a) s"
    using assms by (cases "s < length (pt_palette parts)")
      (auto simp: refs_of_rebuilt parts_valid_def count_list_0_iff)
qed

lemma rebuilt_entry:
  "s < length (pt_palette parts) \<Longrightarrow> ch_palette (rebuilt pos parts t a) ! s =
     \<lparr>pe_content = fst (pt_palette parts ! s), pe_refs = snd (pt_palette parts ! s),
      pe_faces = the (faces_of (fst (pt_palette parts ! s)) t)\<rparr>"
  by (simp add: rebuilt_def split: prod.split)

lemma from_parts_index_inv:
  assumes "parts_valid parts t a"
  shows "index_inv (rebuilt pos parts t a)"
proof -
  let ?n = "length (pt_palette parts)"
  have fw: "from_words 4096 (pt_bits_per_index parts) (pt_index_words parts) = Inr a"
    using assms by (simp add: parts_valid_def)
  have a: "ba_inv a" "ba_len a = 4096" using from_words_inv [OF fw] by auto
  have "bits_per_entry a = pt_bits_per_index parts" using fw by (auto simp: from_words_def split: if_splits)
  note a = a this
  have "?n \<le> 2 ^ bits_for ?n" using assms by (intro bits_for_enough) (simp add: parts_valid_def)
  also have "\<dots> \<le> 2 ^ pt_bits_per_index parts"
    using assms by (intro power_increasing) (auto simp: parts_valid_def)
  finally show ?thesis using a assms by (simp add: index_inv_def rebuilt_def parts_valid_def)
qed

text \<open>Every read of an accepted chunk succeeds, and the cached faces are those of the block read.\<close>

lemma from_parts_reads:
  assumes ok: "from_parts pos parts = Some (Inr c)" and l: "local_valid l"
  shows "\<exists>view. get_block_local c l = Some view \<and> chunk_faces c l = Some (permeability view)"
    and "refs_of (ch_palette c) = count_list (entries c)" and "index_inv c" and "ch_pos c = pos"
proof -
  obtain t a where v: "parts_valid parts t a" and c: "c = rebuilt pos parts t a"
      and nd: "\<forall>p \<in> set (pt_palette parts). \<not> dangling t (fst p)"
    using from_parts_Inr [OF ok] .
  have ind: "ch_indices c = a" "ch_mixed c = t" "ch_pos c = pos" by (simp_all add: c rebuilt_def)
  show "refs_of (ch_palette c) = count_list (entries c)" using rebuilt_refs [OF v] ind by (simp add: c)
  show "index_inv c" using from_parts_index_inv [OF v] by (simp add: c)
  show "ch_pos c = pos" by (rule ind)
  let ?s = "ba_list a ! local_index l"
  have i: "local_index l < 4096" using local_index_less [OF l] by simp
  have a: "ba_inv a" "ba_len a = 4096" using v from_words_inv by (auto simp: parts_valid_def)
  have s: "?s < length (pt_palette parts)" using v i a by (simp add: parts_valid_def)
  then have s': "?s < length (ch_palette c)" by (simp add: c rebuilt_def)
  have "\<not> dangling t (fst (pt_palette parts ! ?s))" using nd s by simp
  then obtain f where f: "faces_of (fst (pt_palette parts ! ?s)) t = Some f" using faces_of_None by fastforce
  then obtain view where "content_view t (fst (pt_palette parts ! ?s)) = Some view" "f = permeability view"
    by (auto simp: faces_of_def bind_eq_Some_conv)
  moreover have "ch_palette c ! ?s = \<lparr>pe_content = fst (pt_palette parts ! ?s),
      pe_refs = snd (pt_palette parts ! ?s), pe_faces = f\<rparr>"
    using rebuilt_entry [OF s] f by (simp add: c)
  moreover have "ba_get a (local_index l) = Some ?s" using ba_get_list [OF a(1)] i a by simp
  ultimately show "\<exists>view. get_block_local c l = Some view \<and> chunk_faces c l = Some (permeability view)"
    using s' ind by (simp add: get_block_local_def content_at_def chunk_faces_def chunk_view_def vec_simps)
qed

section \<open>Round trip\<close>

definition lookup_below :: "mixed_table \<Rightarrow> nat \<Rightarrow> u64 \<Rightarrow> nat option" where
  "lookup_below t j h = (case mt_lookup t h of Some m \<Rightarrow> if m < j then Some m else None | None \<Rightarrow> None)"

lemma rebuild_loop_inv:
  assumes inv: "mixed_inv t L" and "j \<le> length (mt_cells t)"
  shows "rebuild_loop (mt_free t) [j..<length (mt_cells t)]
    (t\<lparr>mt_lookup := lookup_below t j, mt_live := card (L \<inter> {..<j})\<rparr>) = Inr t"
  using assms(2)
proof (induction rule: inc_induct)
  case base
  have L: "L \<inter> {..<length (mt_cells t)} = L" using inv by (auto simp: mixed_inv_def)
  have "lookup_below t (length (mt_cells t)) = mt_lookup t"
  proof
    fix h
    show "lookup_below t (length (mt_cells t)) h = mt_lookup t h"
    proof (cases "mt_lookup t h")
      case (Some m)
      then have "m < length (mt_cells t)" using mixed_inv_lookup [OF inv] inv by (auto simp: mixed_inv_def)
      then show ?thesis using Some by (simp add: lookup_below_def)
    qed (simp add: lookup_below_def)
  qed
  then show ?case using L inv by (simp add: mixed_inv_def)
next
  case (step j)
  have fin: "finite L" by (rule mixed_inv_finite [OF inv])
  have lt: "\<not> j \<ge> 65536" using step(2) inv by (simp add: mixed_inv_def)
  show ?case
  proof (cases "j \<in> L")
    case True
    have lk: "mt_lookup t (mixed_hash (mt_cells t ! j)) = Some j"
      using True mixed_inv_lookup [OF inv] by blast
    have ne: "m \<noteq> j" if "mt_lookup t h = Some m" "h \<noteq> mixed_hash (mt_cells t ! j)" for h m
      using mixed_inv_lookup [OF inv, of h m] that by auto
    have "(lookup_below t j)(mixed_hash (mt_cells t ! j) \<mapsto> j) = lookup_below t (Suc j)"
      using lk ne by (auto simp: lookup_below_def fun_eq_iff less_Suc_eq split: option.split)
    moreover have "L \<inter> {..<Suc j} = insert j (L \<inter> {..<j})" using True by auto
    moreover have "j \<notin> set (mt_free t)" using inv True by (auto simp: mixed_inv_def)
    ultimately show ?thesis using step lt fin by (simp add: upt_conv_Cons)
  next
    case False
    have ne: "m \<noteq> j" if "mt_lookup t h = Some m" for h m
      using mixed_inv_lookup [OF inv] that False by blast
    have "lookup_below t j = lookup_below t (Suc j)"
      using ne by (auto simp: lookup_below_def fun_eq_iff less_Suc_eq split: option.split)
    moreover have "L \<inter> {..<Suc j} = L \<inter> {..<j}" using False by (auto simp: less_Suc_eq)
    moreover have "j \<in> set (mt_free t)" using inv False step(2) by (auto simp: mixed_inv_def)
    ultimately show ?thesis using step lt by (simp add: upt_conv_Cons)
  qed
qed

lemma rebuild_mixed_table_inv:
  assumes "mixed_inv t L"
  shows "rebuild_mixed_table (mt_cells t) (mt_free t) = Inr t"
proof -
  have "t\<lparr>mt_lookup := lookup_below t 0, mt_live := card (L \<inter> {..<0})\<rparr> =
      \<lparr>mt_cells = mt_cells t, mt_free = mt_free t, mt_lookup = Map.empty, mt_live = 0\<rparr>"
    by (auto simp: lookup_below_def fun_eq_iff split: option.split)
  then show ?thesis using rebuild_loop_inv [OF assms, of 0] by (simp add: rebuild_mixed_table_def)
qed

lemma to_parts_entries:
  "pt_palette (to_parts c) = map (\<lambda>e. (pe_content e, pe_refs e)) (ch_palette c)"
  by (simp add: to_parts_def)

lemma entry_ok_valid:
  assumes inv: "palette_inv (ch_palette c) (ch_mixed c)" and e: "e \<in> set (ch_palette c)" "pe_refs e \<noteq> 0"
  shows "entry_valid (ch_mixed c) (mt_free (ch_mixed c)) (pe_content e)"
proof -
  obtain s where s: "s < length (ch_palette c)" "ch_palette c ! s = e" using e(1) by (auto simp: in_set_conv_nth)
  then have live: "s \<in> live_slots (ch_palette c)" using e(2) by (simp add: live_slots_def refs_of_def)
  then have ok: "content_ok (ch_mixed c) (pe_content e)" using inv s by (auto simp: palette_inv_def entry_ok_def)
  show ?thesis
  proof (cases "pe_content e")
    case (Partial m occ)
    then have "canonical (VPartial m occ) = VPartial m occ"
      using ok by (simp add: content_ok_def content_value_def is_canonical_def)
    note can = canonical_partial_occupancy [OF this]
    have "occ AND NOT OCCUPANCY_FULL = 0"
      using can(2) by (metis and.assoc bit.conj_cancel_right and_zero_eq)
    then show ?thesis using can Partial by (simp add: entry_valid_def)
  next
    case (Mixed k)
    have "k \<in> mixed_slots (ch_palette c)" using mixed_slotsI [OF live] s(2) Mixed by simp
    then show ?thesis using inv Mixed by (auto simp: entry_valid_def palette_inv_def mixed_inv_def)
  qed (simp add: entry_valid_def)
qed

lemma to_parts_valid:
  assumes inv: "chunk_inv c"
  shows "parts_valid (to_parts c) (ch_mixed c) (ch_indices c)"
proof -
  have len: "length (entries c) = 4096" "\<forall>s \<in> set (entries c). s < length (ch_palette c)"
      "ba_inv (ch_indices c)" "ba_len (ch_indices c) = 4096"
    using inv by (auto simp: chunk_inv_def index_inv_def)
  have ne: "ch_palette c \<noteq> []" using chunk_inv_slot(3) [OF inv, of 0] by auto
  have bits: "bits_for (length (ch_palette c)) \<le> bits_per_entry (ch_indices c)"
    using inv by (intro bits_for_least) (auto simp: chunk_inv_def index_inv_def)
  have mi: "mixed_inv (ch_mixed c) (mixed_slots (ch_palette c))" and pi: "palette_inv (ch_palette c) (ch_mixed c)"
    using inv by (auto simp: chunk_inv_def slots_inv_def palette_inv_def)
  have refs: "pe_refs (ch_palette c ! s) = count_list (entries c) s" if "s < length (ch_palette c)" for s
    using inv that by (metis chunk_inv_def refs_of_def)
  have "from_words 4096 (bits_per_entry (ch_indices c)) (ba_words (ch_indices c)) = Inr (ch_indices c)"
    using from_words_words [OF len(3)] len(4) by simp
  then show ?thesis
    using ne inv bits rebuild_mixed_table_inv [OF mi] len(2) refs entry_ok_valid [OF pi]
    by (auto simp: parts_valid_def to_parts_def chunk_inv_def)
qed

lemma set_free_palette:
  "length palette \<le> 65536 \<Longrightarrow> free_palette palette = filter (\<lambda>slot. snd (palette ! slot) = 0) [0..<length palette]"
  unfolding free_palette_def by (rule map_idI) simp

lemma rebuilt_to_parts:
  assumes inv: "chunk_inv c"
  defines "c' \<equiv> rebuilt (ch_pos c) (to_parts c) (ch_mixed c) (ch_indices c)"
  shows "chunk_inv c'" and "to_parts c' = to_parts c" and "i < 4096 \<Longrightarrow> chunk_value c' i = chunk_value c i"
proof -
  let ?pal = "ch_palette c" and ?pal' = "ch_palette c'"
  note v = to_parts_valid [OF inv]
  have refs: "refs_of ?pal' = refs_of ?pal"
    using rebuilt_refs [OF v, of "ch_pos c"] inv by (simp add: c'_def chunk_inv_def)
  then have live: "live_slots ?pal' = live_slots ?pal" by (simp add: live_slots_def)
  have len: "length ?pal' = length ?pal" by (simp add: c'_def rebuilt_def to_parts_def)
  have entry: "?pal' ! s = (?pal ! s)\<lparr>pe_faces := the (faces_of (pe_content (?pal ! s)) (ch_mixed c))\<rparr>"
    if "s < length ?pal" for s using that by (simp add: c'_def rebuilt_def to_parts_def)
  show tp: "to_parts c' = to_parts c"
    by (simp add: c'_def to_parts_def rebuilt_def comp_def)
  have pinv: "palette_inv ?pal (ch_mixed c)" using inv by (simp add: chunk_inv_def slots_inv_def)
  have mix: "ch_mixed c' = ch_mixed c" "ch_indices c' = ch_indices c" by (simp_all add: c'_def rebuilt_def)
  have same: "pe_content (?pal' ! s) = pe_content (?pal ! s) \<and> pe_faces (?pal' ! s) = pe_faces (?pal ! s)"
    if "s \<in> live_slots ?pal'" for s
    using entry [OF live_slots_less] that live pinv by (auto simp: palette_inv_def entry_ok_def)
  have ms: "mixed_slots ?pal' = mixed_slots ?pal" using live same by (auto simp: mixed_slots_def)
  have p: "palette_inv ?pal' (ch_mixed c')"
    and val: "\<And>s. s \<in> live_slots ?pal' \<Longrightarrow> slot_value ?pal' (ch_mixed c') s = slot_value ?pal (ch_mixed c) s"
    using palette_inv_shrink [OF pinv, of ?pal' "ch_mixed c'"] live same ms mix pinv
    by (auto simp: palette_inv_def)
  have dead: "snd (pt_palette (to_parts c) ! s) = 0 \<longleftrightarrow> s \<notin> live_slots ?pal" if "s < length ?pal" for s
    using that by (simp add: to_parts_def live_slots_def refs_of_def)
  have l4: "length ?pal \<le> 4096" using inv by (simp add: chunk_inv_def)
  have free: "ch_free c' = filter (\<lambda>s. snd (pt_palette (to_parts c) ! s) = 0) [0..<length ?pal]"
    using set_free_palette [of "pt_palette (to_parts c)"] l4 by (simp add: c'_def rebuilt_def to_parts_entries)
  have "length (filter (\<lambda>p. snd p \<noteq> 0) (pt_palette (to_parts c))) = card (live_slots ?pal)"
  proof -
    have "live_slots ?pal = {s. s < length ?pal \<and> snd (pt_palette (to_parts c) ! s) \<noteq> 0}"
      by (rule set_eqI) (metis (mono_tags, lifting) dead live_slots_less mem_Collect_eq)
    then show ?thesis by (simp add: length_filter_conv_card to_parts_entries)
  qed
  then have "slots_inv c'" using p live len free dead inv
    by (auto simp: slots_inv_def c'_def rebuilt_def chunk_inv_def contents_in_table_def to_parts_entries)
  moreover have "index_inv c'" unfolding c'_def by (rule from_parts_index_inv [OF v])
  ultimately show "chunk_inv c'" using refs len inv mix by (simp add: chunk_inv_def)
  show "i < 4096 \<Longrightarrow> chunk_value c' i = chunk_value c i"
    using val [of "entries c ! i"] chunk_inv_slot(1) [OF inv, of i] live mix by (simp add: chunk_value_def)
qed

lemma from_parts_to_parts:
  assumes inv: "chunk_inv c"
  shows "from_parts (ch_pos c) (to_parts c) =
    Some (Inr (rebuilt (ch_pos c) (to_parts c) (ch_mixed c) (ch_indices c)))"
proof -
  have "\<forall>p \<in> set (pt_palette (to_parts c)). \<not> dangling (ch_mixed c) (fst p)"
    using inv by (force simp: to_parts_entries dangling_def chunk_inv_def slots_inv_def contents_in_table_def)
  then have "build_palette (ch_mixed c) (pt_palette (to_parts c)) =
      Some (ch_palette (rebuilt (ch_pos c) (to_parts c) (ch_mixed c) (ch_indices c)))"
    by (simp add: build_palette_Some rebuilt_def)
  then show ?thesis using from_parts_valid [OF to_parts_valid [OF inv], of "ch_pos c"] by simp
qed

end
