(* ===== verification/Chunk_Correct.thy ===== *)
theory Chunk_Correct
  imports Chunk_Fill Chunk_Parts
begin

text \<open>
  The properties of the chunk over its public operations: block and sub-node writes, region fills,
  repacking, uniformity, the permeability cache, and the serialised parts.
\<close>

section \<open>Example data for the witnesses\<close>

abbreviation origin_chunk :: chunk_pos where
  "origin_chunk \<equiv> ChunkPos 0 0 0"

text \<open>A new chunk, with what the proofs below need of it.\<close>

lemma new_chunkE:
  obtains c where "chunk_new pos fill = Some c" "chunk_inv c" "ch_pos c = pos"
    "chunk_value c ` {..<4096} = {VUniform fill}" "\<And>i. i < 4096 \<Longrightarrow> chunk_value c i = VUniform fill"
proof -
  obtain c where c: "chunk_new pos fill = Some c" "chunk_inv c" "ch_pos c = pos"
      "\<forall>i < 4096. chunk_value c i = VUniform fill"
    using chunk_new_inv by blast
  moreover have "chunk_value c ` {..<4096} = {VUniform fill}"
    using c(4) by (intro equalityI subsetI) (auto intro!: image_eqI [of _ _ 0])
  ultimately show thesis using that by blast
qed



section \<open>Block writes\<close>





section \<open>Sub-node writes and reads\<close>





section \<open>Repacking\<close>

text \<open>
  C5. Repacking is the identity on content: every block and every cached face mask reads as before,
  and afterwards the palette holds exactly the entries in use, with indices of the least width.
\<close>

theorem repack_content_identity:
  assumes "chunk_inv c"
  shows "\<exists>c'. repack c = Some c' \<and> chunk_inv c' \<and> ch_pos c' = ch_pos c \<and>
    (\<forall>l. local_valid l \<longrightarrow> get_block_local c' l = get_block_local c l \<and> chunk_faces c' l = chunk_faces c l) \<and>
    ch_free c' = [] \<and> length (ch_palette c') = ch_live_entries c \<and>
    bits_per_entry (ch_indices c') = bits_for (ch_live_entries c)"
proof -
  have inv: "slots_inv c" "ba_inv (ch_indices c)" "ba_len (ch_indices c) = 4096"
      "refs_of (ch_palette c) = count_list (entries c)" "card (live_slots (ch_palette c)) \<le> 4096"
    using assms card_live_slots [of "ch_palette c"] by (auto simp: chunk_inv_def index_inv_def)
  obtain c' where c': "repack c = Some c'" "chunk_inv c'" "ch_pos c' = ch_pos c"
      "\<forall>i < 4096. chunk_value c' i = chunk_value c i" "length (ch_palette c') = card (live_slots (ch_palette c))"
      "bits_per_entry (ch_indices c') = bits_for (length (ch_palette c'))" "ch_free c' = []"
    using repack_correct [OF inv] by blast
  have "chunk_value c' (local_index l) = chunk_value c (local_index l)" if "local_valid l" for l
    using c'(4) local_index_less [OF that] by simp
  then show ?thesis using c' assms inv(1) by (auto simp: get_block_local_value chunk_faces_value slots_inv_def)
qed

theorem repack_content_identity_witness:
  "\<exists>c c'. chunk_new origin_chunk 2 = Some c \<and> repack c = Some c' \<and>
    get_block_local c' (LocalBlock 15 0 7) = get_block_local c (LocalBlock 15 0 7)"
proof -
  obtain c where c: "chunk_new origin_chunk 2 = Some c" "chunk_inv c" using new_chunkE by metis
  from repack_content_identity [OF c(2)] show ?thesis using c(1) by auto
qed

section \<open>Caches\<close>



text \<open>
  C7. A chunk reports one uniform material exactly when every block reads as that material.
\<close>

theorem is_uniform_correct:
  assumes "chunk_inv c"
  shows "is_uniform c = Some m \<longleftrightarrow> (\<forall>l. local_valid l \<longrightarrow> get_block_local c l = Some (WUniform m))"
proof -
  have view: "value_view v = WUniform m \<longleftrightarrow> v = VUniform m" for v by (cases v) auto
  show ?thesis using is_uniform_value [OF assms] view all_locals [of "\<lambda>i. chunk_value c i = VUniform m"]
    by (simp add: get_block_local_value assms)
qed

theorem is_uniform_correct_witness:
  "\<exists>c. chunk_new origin_chunk 9 = Some c \<and> is_uniform c = Some 9"
proof -
  obtain c where c: "chunk_new origin_chunk 9 = Some c" "chunk_inv c"
      "\<And>i. i < 4096 \<Longrightarrow> chunk_value c i = VUniform 9" using new_chunkE by metis
  have "get_block_local c l = Some (WUniform 9)" if "local_valid l" for l
    using get_block_local_value [OF c(2) that] c(3) local_index_less [OF that] by simp
  then show ?thesis using is_uniform_correct [OF c(2), of 9] c(1) by blast
qed

section \<open>Serialised parts\<close>

text \<open>
  C8. Serialising a chunk and loading the parts back accepts them and yields a chunk with the same
  position, the same blocks and the same serialised form.
\<close>

theorem parts_round_trip:
  assumes "chunk_inv c"
  shows "\<exists>c'. from_parts (ch_pos c) (to_parts c) = Some (Inr c') \<and> chunk_inv c' \<and> ch_pos c' = ch_pos c \<and>
    to_parts c' = to_parts c \<and> (\<forall>l. local_valid l \<longrightarrow> get_block_local c' l = get_block_local c l)"
proof -
  let ?c' = "rebuilt (ch_pos c) (to_parts c) (ch_mixed c) (ch_indices c)"
  have "get_block_local ?c' l = get_block_local c l" if "local_valid l" for l
    using rebuilt_to_parts(1,3) [OF assms] assms that local_index_less [OF that] by (simp add: get_block_local_value)
  moreover have "ch_pos ?c' = ch_pos c" by (simp add: rebuilt_def)
  ultimately show ?thesis using from_parts_to_parts [OF assms] rebuilt_to_parts(1,2) [OF assms] by blast
qed

theorem parts_round_trip_witness:
  "\<exists>c c'. chunk_new origin_chunk 2 = Some c \<and> from_parts origin_chunk (to_parts c) = Some (Inr c') \<and> to_parts c' = to_parts c"
proof -
  obtain c where c: "chunk_new origin_chunk 2 = Some c" "chunk_inv c" "ch_pos c = origin_chunk" using new_chunkE by metis
  from parts_round_trip [OF c(2)] show ?thesis using c(1,3) by auto
qed

text \<open>
  C9. Whatever the world file holds, a chunk that loading accepts can be read everywhere without a
  panic, its cached face masks agree with its blocks, and its reference counts are exactly the
  number of blocks that use each palette slot.
\<close>

theorem accepted_parts_readable:
  assumes "from_parts pos parts = Some (Inr c)"
  shows "(\<forall>l. local_valid l \<longrightarrow> (\<exists>view. get_block_local c l = Some view \<and> chunk_faces c l = Some (permeability view))) \<and>
    (\<forall>s. refs_of (ch_palette c) s = count_list (entries c) s) \<and> ch_pos c = pos"
  using from_parts_reads [OF assms] local_valid_from_index [of 0] by fastforce

theorem accepted_parts_readable_witness:
  "\<exists>c c'. chunk_new origin_chunk 2 = Some c \<and> from_parts origin_chunk (to_parts c) = Some (Inr c') \<and>
    (\<exists>view. get_block_local c' (LocalBlock 3 4 5) = Some view \<and> chunk_faces c' (LocalBlock 3 4 5) = Some (permeability view))"
proof -
  obtain c where c: "chunk_new origin_chunk 2 = Some c" "chunk_inv c" "ch_pos c = origin_chunk" using new_chunkE by metis
  obtain c' where c': "from_parts origin_chunk (to_parts c) = Some (Inr c')"
    using from_parts_to_parts [OF c(2)] c(3) by metis
  from accepted_parts_readable [OF this] have
    "\<exists>view. get_block_local c' (LocalBlock 3 4 5) = Some view \<and> chunk_faces c' (LocalBlock 3 4 5) = Some (permeability view)"
    by simp
  then show ?thesis using c(1) c' by blast
qed

text \<open>Parts whose second palette entry is out of use and names a mixed array that is not there.\<close>

definition crafted_parts :: chunk_parts where
  "crafted_parts = \<lparr>pt_palette = [(Uniform AIR, 4096), (Mixed 0, 0)], pt_bits_per_index = 1,
     pt_index_words = replicate 64 0, pt_mixed_cells = [], pt_mixed_free = []\<rparr>"

lemma crafted_parts_valid: "\<exists>a. parts_valid crafted_parts mixed_default a"
proof -
  obtain a where a: "ba_new 4096 1 = Some a" "ba_inv a" "ba_len a = 4096" "bits_per_entry a = 1"
    using ba_new_correct [of 1 4096] by auto
  have words: "ba_words a = replicate 64 0" using a(1) by (auto simp: ba_new_def words_needed_def)
  have "from_words 4096 1 (replicate 64 0) = Inr a" using from_words_words [OF a(2)] a words by simp
  moreover have "bits_for (Suc (Suc 0)) = 1" by code_simp
  moreover have "rebuild_mixed_table [] [] = Inr mixed_default"
    by (simp add: rebuild_mixed_table_def mixed_default_def)
  ultimately have "parts_valid crafted_parts mixed_default a"
    using ba_new_zero [OF a(1)]
    by (simp add: parts_valid_def crafted_parts_def entry_valid_def nth_Cons' count_list_replicate less_2_cases_iff)
  then show ?thesis ..
qed

text \<open>
  C10. Loading panics exactly on parts that pass every check and hold a palette entry with no
  references whose mixed slot lies past the mixed table; such parts exist.
\<close>

theorem loading_panics_iff:
  "(from_parts pos parts = None \<longleftrightarrow>
     (\<exists>t a. parts_valid parts t a \<and> (\<exists>(content, refs) \<in> set (pt_palette parts). refs = 0 \<and> dangling t content))) \<and>
   from_parts pos crafted_parts = None"
proof -
  have "(Mixed 0, 0) \<in> set (pt_palette crafted_parts)" "dangling mixed_default (Mixed 0)"
    by (simp_all add: crafted_parts_def dangling_def mixed_default_def)
  then have "from_parts pos crafted_parts = None"
    using crafted_parts_valid unfolding from_parts_panic by blast
  then show ?thesis using from_parts_panic by blast
qed

end
