(* ===== verification/Search.thy ===== *)
theory Search
  imports Prelude
begin

text \<open>
  The binary search of the Rust standard library (\<open>slice::binary_search_by_key\<close>), whose result
  decides where the engine's sorted vectors insert: \<open>Inr i\<close> is \<open>Ok(i)\<close>, an index holding the key,
  and \<open>Inl i\<close> is \<open>Err(i)\<close>, the index that keeps the vector sorted. When the key occurs more than
  once, which index is found follows the library's loop, so the loop is modelled as it is.
\<close>

function search_loop :: "'k::linorder list \<Rightarrow> 'k \<Rightarrow> nat \<Rightarrow> nat \<Rightarrow> nat" where
  "search_loop ks k base len =
     (if len \<le> 1 then base
      else
        (let half = len div 2; mid = base + half
         in search_loop ks k (if k < ks ! mid then base else mid) (len - half)))"
  by pat_completeness auto

termination
  by (relation "measure (\<lambda>(ks, k, base, len). len)") auto

declare search_loop.simps [simp del]

definition binary_search :: "'k::linorder list \<Rightarrow> 'k \<Rightarrow> nat + nat" where
  "binary_search ks k =
     (if ks = [] then Inl 0
      else
        (let base = search_loop ks k 0 (length ks)
         in if ks ! base = k then Inr base
            else Inl (base + (if ks ! base < k then 1 else 0))))"

section \<open>Correctness on a sorted vector\<close>

definition landed :: "'k::linorder list \<Rightarrow> 'k \<Rightarrow> nat \<Rightarrow> bool" where
  "landed ks k i \<longleftrightarrow>
     i < length ks \<and> (i = 0 \<or> ks ! i \<le> k) \<and> (\<forall>j. i < j \<and> j < length ks \<longrightarrow> k < ks ! j)"

lemma search_loop_correct:
  assumes "sorted ks" and "0 < len" and "base + len \<le> length ks"
    and "base = 0 \<or> ks ! base \<le> k" and "\<forall>j. base + len \<le> j \<and> j < length ks \<longrightarrow> k < ks ! j"
  shows "landed ks k (search_loop ks k base len)"
  using assms
proof (induction ks k base len rule: search_loop.induct)
  case (1 ks k base len)
  show ?case
  proof (cases "len \<le> 1")
    case True
    then have "len = 1" using "1.prems"(2) by simp
    then show ?thesis using "1.prems" by (simp add: search_loop.simps landed_def)
  next
    case False
    define half where "half = len div 2"
    define mid where "mid = base + half"
    define base' where "base' = (if k < ks ! mid then base else mid)"
    have half: "0 < half" "half < len" "len - half + mid = base + len"
      using False by (auto simp: half_def mid_def)
    have mid: "mid < length ks" using half "1.prems"(3) by (simp add: mid_def)
    have above: "k < ks ! j" if "base' + (len - half) \<le> j" "j < length ks" for j
    proof (cases "k < ks ! mid")
      case True
      then have "mid \<le> j" using that half by (simp add: base'_def mid_def half_def)
      then show ?thesis using True sorted_nth_mono [OF "1.prems"(1) _ that(2)] by fastforce
    next
      case False
      then have "base + len \<le> j" using that half by (simp add: base'_def mid_def)
      then show ?thesis using "1.prems"(5) that by blast
    qed
    have "landed ks k (search_loop ks k base' (len - half))"
      unfolding base'_def
    proof (rule "1.IH" [OF False half_def mid_def])
      show "(if k < ks ! mid then base else mid) + (len - half) \<le> length ks"
        using "1.prems"(3) half by (auto simp: mid_def)
      show "\<forall>j. (if k < ks ! mid then base else mid) + (len - half) \<le> j \<and> j < length ks \<longrightarrow> k < ks ! j"
        using above unfolding base'_def by blast
    qed (use "1.prems" half in auto)
    moreover have "search_loop ks k base len = search_loop ks k base' (len - half)"
      using False by (subst search_loop.simps) (simp add: base'_def mid_def half_def Let_def)
    ultimately show ?thesis by simp
  qed
qed

lemma binary_search_correct:
  assumes "sorted ks"
  shows "case binary_search ks k of
      Inr i \<Rightarrow> i < length ks \<and> ks ! i = k
    | Inl i \<Rightarrow> i \<le> length ks \<and> (\<forall>j < i. ks ! j < k) \<and> (\<forall>j. i \<le> j \<and> j < length ks \<longrightarrow> k < ks ! j)"
proof (cases "ks = []")
  case False
  define i where "i = search_loop ks k 0 (length ks)"
  have "landed ks k i" unfolding i_def
    by (rule search_loop_correct [OF assms]) (use False in auto)
  then have i: "i < length ks" "i = 0 \<or> ks ! i \<le> k" "\<forall>j. i < j \<and> j < length ks \<longrightarrow> k < ks ! j"
    by (simp_all add: landed_def)
  have below: "ks ! j < k" if "j < i" "ks ! i < k \<or> ks ! i = k \<and> False" for j
    using sorted_nth_mono [OF assms, of j i] i(1) that by fastforce
  show ?thesis
  proof (cases "ks ! i" k rule: linorder_cases)
    case less
    then have "ks ! j < k" if "j < Suc i" for j
      using below [of j] that by (cases "j = i") auto
    then show ?thesis
      using False less i by (simp add: binary_search_def i_def [symmetric] Let_def Suc_le_eq)
  next
    case equal
    then show ?thesis using False i by (simp add: binary_search_def i_def [symmetric] Let_def)
  next
    case greater
    then have "i = 0" using i(2) by auto
    moreover have "k < ks ! j" if "j < length ks" for j
      using i(3) greater that \<open>i = 0\<close> by (cases "j = 0") auto
    ultimately show ?thesis
      using False greater i(1) by (auto simp: binary_search_def i_def [symmetric] Let_def Suc_le_eq)
  qed
qed (simp add: binary_search_def)

text \<open>An insertion where a failed search says keeps the keys sorted, strictly if they were.\<close>

lemma binary_search_found:
  "sorted ks \<Longrightarrow> binary_search ks k = Inr i \<Longrightarrow> i < length ks \<and> ks ! i = k"
  using binary_search_correct [of ks k] by simp

lemma binary_search_missing:
  assumes "sorted ks" and "binary_search ks k = Inl i"
  shows "i \<le> length ks \<and> (\<forall>x \<in> set (take i ks). x < k) \<and> (\<forall>x \<in> set (drop i ks). k < x)"
  using binary_search_correct [OF assms(1), of k] assms(2)
  by (auto simp: in_set_conv_nth)

lemma binary_search_insert:
  assumes "sorted ks" and "binary_search ks k = Inl i"
  shows "sorted (take i ks @ k # drop i ks) \<and> k \<notin> set ks"
proof -
  note m = binary_search_missing [OF assms]
  have "sorted (take i ks)" "sorted (drop i ks)" using assms(1) by (simp_all add: sorted_wrt_take sorted_wrt_drop)
  then have "sorted (take i ks @ k # drop i ks)"
    using m by (auto simp: sorted_append dest: less_imp_le) (meson less_imp_le less_trans)
  moreover have "k \<notin> set (take i ks @ drop i ks)" unfolding set_append using m by blast
  ultimately show ?thesis by simp
qed

lemma binary_search_insert_strict:
  assumes "sorted_wrt (<) ks" and "binary_search ks k = Inl i"
  shows "sorted_wrt (<) (take i ks @ k # drop i ks)"
  using binary_search_insert [of ks k i] assms
    sorted_wrt_append [of "(<)" "take i ks" "drop i ks"]
  by (auto simp: strict_sorted_iff distinct_append dest: in_set_takeD in_set_dropD)

end
