(* ===== verification/Stack.thy ===== *)
theory Stack
  imports Block Search "HOL-Library.Option_ord" "HOL-Library.List_Lexorder" "HOL-Library.Char_ord"
begin

text \<open>
  Quantities of material, from \<^verbatim>\<open>crates/core/src/inventory/mod.rs\<close> and
  \<^verbatim>\<open>crates/core/src/inventory/cut.rs\<close>: a stack of units, the cut each of its items has, its
  identity, the arithmetic of merging and splitting, the turns of a cut, and the conservation laws
  of breaking blocks and consolidating stacks.

  A mutating method returns the updated value: \<open>merge\<close> gives \<open>Inr\<close> the merged stack or \<open>Inl\<close> the
  error, \<open>split\<close> gives \<open>Inr\<close> the rest and the part taken; on an error the caller keeps what it had,
  as the Rust code leaves \<open>self\<close> unchanged. Units are a \<open>u32\<close> and so below \<open>2 ^ 32\<close>, which
  \<open>stack_ok\<close> records; a total over stacks is a \<open>u64\<close> sum that fewer than \<open>2 ^ 32\<close> stacks cannot
  overflow, and is a \<open>nat\<close>.
\<close>

named_theorems stack_defs \<open>definitions of the stack operations\<close>

section \<open>Shapes\<close>

type_synonym shape = u32

definition shape_ALL :: u32 where
  "shape_ALL = push_bit UNITS_PER_BLOCK 1 - 1"

definition shape_new :: "u32 \<Rightarrow> shape option" where
  "shape_new occupancy =
     (let mask = occupancy AND shape_ALL
      in if mask = 0 \<or> mask = shape_ALL then None else Some mask)"

definition shape_cells :: "shape \<Rightarrow> nat" where
  "shape_cells s = count_ones s"

section \<open>Stacks\<close>

record stack =
  st_material :: material_id
  st_units :: nat
  st_shape :: "shape option"
  st_cells :: "cells option"
  st_detail :: "string option"

definition MAX_DETAIL :: nat where "MAX_DETAIL = 256"

datatype stack_error =
    ShapeMismatch "shape option" "shape option"
  | CellsMismatch
  | DetailMismatch
  | MaterialMismatch material_id material_id
  | Overflow nat nat
  | Insufficient nat nat

definition stack_new :: "material_id \<Rightarrow> nat \<Rightarrow> stack option" where
  "stack_new material units =
     (if \<not> is_air material \<and> units > 0
      then Some \<lparr>st_material = material, st_units = units, st_shape = None, st_cells = None,
        st_detail = None\<rparr>
      else None)"

definition stack_shaped :: "material_id \<Rightarrow> shape \<Rightarrow> nat \<Rightarrow> stack option" where
  "stack_shaped material shape count =
     do { units \<leftarrow> checked_mul_u32 count (shape_cells shape);
          map_option (st_shape_update (\<lambda>_. Some shape)) (stack_new material units) }"

definition stack_count :: "stack \<Rightarrow> nat" where
  "stack_count s =
     (let per = (case st_shape s of Some shape \<Rightarrow> shape_cells shape | None \<Rightarrow> UNITS_PER_BLOCK)
      in case checked_div_u32 (st_units s) per of Some count \<Rightarrow> count | None \<Rightarrow> 0)"

definition from_blocks :: "material_id \<Rightarrow> nat \<Rightarrow> stack option" where
  "from_blocks material blocks =
     do { units \<leftarrow> checked_mul_u32 blocks UNITS_PER_BLOCK; stack_new material units }"

definition stack_merge :: "stack \<Rightarrow> stack \<Rightarrow> stack_error + stack" where
  "stack_merge s other =
     (if st_material s \<noteq> st_material other then Inl (MaterialMismatch (st_material s) (st_material other))
      else if st_shape s \<noteq> st_shape other then Inl (ShapeMismatch (st_shape s) (st_shape other))
      else if st_cells s \<noteq> st_cells other then Inl CellsMismatch
      else if st_detail s \<noteq> st_detail other then Inl DetailMismatch
      else case checked_add_u32 (st_units s) (st_units other) of
             None \<Rightarrow> Inl (Overflow (st_units s) (st_units other))
           | Some both \<Rightarrow> Inr (s\<lparr>st_units := both\<rparr>))"

definition stack_split :: "stack \<Rightarrow> nat \<Rightarrow> stack_error + (stack \<times> stack)" where
  "stack_split s units =
     (if units > st_units s then Inl (Insufficient units (st_units s))
      else Inr (s\<lparr>st_units := st_units s - units\<rparr>,
        \<lparr>st_material = st_material s, st_units = units, st_shape = st_shape s,
         st_cells = st_cells s, st_detail = st_detail s\<rparr>))"

definition stack_is_empty :: "stack \<Rightarrow> bool" where
  "stack_is_empty s \<longleftrightarrow> st_units s = 0"

definition display :: "nat \<Rightarrow> nat \<times> nat" where
  "display units = (units div UNITS_PER_BLOCK, units mod UNITS_PER_BLOCK)"

definition stack_display :: "stack \<Rightarrow> nat \<times> nat" where
  "stack_display s = display (st_units s)"

definition ITEMS_PER_STACK :: nat where [simp]: "ITEMS_PER_STACK = 90"

definition stack_capacity :: "shape option \<Rightarrow> nat" where
  "stack_capacity shape =
     (let per_item = (case shape of Some s \<Rightarrow> shape_cells s | None \<Rightarrow> UNITS_PER_BLOCK)
      in ITEMS_PER_STACK * per_item)"

definition capacity :: "stack \<Rightarrow> nat" where
  "capacity s = stack_capacity (st_shape s)"

definition items_of :: "nat \<Rightarrow> u32 \<Rightarrow> nat option" where
  "items_of units shape =
     (if shape = 0 then None else checked_div_u32 units (count_ones shape))"

section \<open>Turning a cut\<close>

datatype facing = North | East | South | West

fun quarters :: "facing \<Rightarrow> nat" where
  "quarters North = 0"
| "quarters East = 1"
| "quarters South = 2"
| "quarters West = 3"

definition turn_index :: "nat \<Rightarrow> nat" where
  "turn_index index = (case subnode_offset index of (x, y, z) \<Rightarrow> subnode_index z y (2 - x))"

definition tip_index :: "nat \<Rightarrow> nat" where
  "tip_index index = (case subnode_offset index of (x, y, z) \<Rightarrow> subnode_index x z (2 - y))"

definition permute :: "u32 \<Rightarrow> (nat \<Rightarrow> nat) \<Rightarrow> u32" where
  "permute occ to =
     fold (\<lambda>index out. if occ AND push_bit index 1 \<noteq> 0 then out OR push_bit (to index) 1 else out)
       [0..<UNITS_PER_BLOCK] 0"

definition permute_cells :: "cells \<Rightarrow> (nat \<Rightarrow> nat) \<Rightarrow> cells" where
  "permute_cells cells to =
     fold (\<lambda>(index, material) out. out[to index := material]) (enumerate 0 cells) EMPTY_CELLS"

definition turned :: "u32 \<Rightarrow> nat \<Rightarrow> u32" where
  "turned occ n = ((\<lambda>m. permute m turn_index) ^^ (n mod 4)) (occ AND shape_ALL)"

definition tipped :: "u32 \<Rightarrow> nat \<Rightarrow> u32" where
  "tipped occ n = ((\<lambda>m. permute m tip_index) ^^ (n mod 4)) (occ AND shape_ALL)"

definition turned_cells :: "cells \<Rightarrow> nat \<Rightarrow> cells" where
  "turned_cells cells n = ((\<lambda>c. permute_cells c turn_index) ^^ (n mod 4)) cells"

definition tipped_cells :: "cells \<Rightarrow> nat \<Rightarrow> cells" where
  "tipped_cells cells n = ((\<lambda>c. permute_cells c tip_index) ^^ (n mod 4)) cells"

section \<open>Placing loose units\<close>

definition fill_order :: "nat list" where
  "fill_order =
     concat (map (\<lambda>y. concat (map (\<lambda>z. map (\<lambda>x. subnode_index x y z)
       [0..<SUBNODES_PER_AXIS]) [0..<SUBNODES_PER_AXIS])) [0..<SUBNODES_PER_AXIS])"

definition placement_mask :: "nat \<Rightarrow> u32" where
  "placement_mask units =
     (if units \<ge> UNITS_PER_BLOCK then push_bit UNITS_PER_BLOCK 1 - 1
      else fold (\<lambda>index mask. mask OR push_bit index 1) (take units fill_order) 0)"

section \<open>Identity\<close>

datatype stack_key =
  StackKey (sk_material: material_id) (sk_shape: "shape option") (sk_cells: "cells option")
    (sk_detail: "string option")

text \<open>The derived order compares the fields in declaration order; \<open>None\<close> comes before \<open>Some\<close>.\<close>

instantiation stack_key :: linorder
begin

definition less_eq_stack_key :: "stack_key \<Rightarrow> stack_key \<Rightarrow> bool" where
  "less_eq_stack_key a b \<longleftrightarrow>
     sk_material a < sk_material b \<or> sk_material a = sk_material b \<and>
       (sk_shape a < sk_shape b \<or> sk_shape a = sk_shape b \<and>
         (sk_cells a < sk_cells b \<or> sk_cells a = sk_cells b \<and> sk_detail a \<le> sk_detail b))"

definition less_stack_key :: "stack_key \<Rightarrow> stack_key \<Rightarrow> bool" where
  "less_stack_key a b \<longleftrightarrow>
     sk_material a < sk_material b \<or> sk_material a = sk_material b \<and>
       (sk_shape a < sk_shape b \<or> sk_shape a = sk_shape b \<and>
         (sk_cells a < sk_cells b \<or> sk_cells a = sk_cells b \<and> sk_detail a < sk_detail b))"

instance
  by standard (auto simp: less_eq_stack_key_def less_stack_key_def stack_key.expand)

end

definition key_of :: "material_id \<Rightarrow> shape option \<Rightarrow> string option \<Rightarrow> stack_key" where
  "key_of material shape detail = StackKey material shape None detail"

definition key_loose :: "material_id \<Rightarrow> stack_key" where
  "key_loose material = key_of material None None"

definition key_of_stack :: "stack \<Rightarrow> stack_key" where
  "key_of_stack s = StackKey (st_material s) (st_shape s) (st_cells s) (st_detail s)"

definition key_matches :: "stack_key \<Rightarrow> stack \<Rightarrow> bool" where
  "key_matches k s \<longleftrightarrow> k = key_of_stack s"

definition same_item :: "stack \<Rightarrow> stack \<Rightarrow> bool" where
  "same_item s other \<longleftrightarrow> key_of_stack s = key_of_stack other"

definition per_item :: "stack \<Rightarrow> nat" where
  "per_item s = (case st_shape s of None \<Rightarrow> UNITS_PER_BLOCK | Some shape \<Rightarrow> shape_cells shape)"

definition stack_grain :: "stack \<Rightarrow> nat" where
  "stack_grain s = (if st_cells s \<noteq> None then per_item s else 1)"

definition takeable_by :: "stack \<Rightarrow> nat \<Rightarrow> nat \<Rightarrow> nat" where
  "takeable_by s grain asked =
     (let most = min (st_units s) asked; grain = max grain 1 in most - most mod grain)"

definition takeable :: "stack \<Rightarrow> nat \<Rightarrow> nat" where
  "takeable s asked = takeable_by s (stack_grain s) asked"

section \<open>Cuts of several materials\<close>

definition occupancy_of :: "cells \<Rightarrow> u32" where
  "occupancy_of cells =
     fold (\<lambda>(index, _) mask. mask OR push_bit index 1)
       (filter (\<lambda>(_, material). \<not> is_air material) (enumerate 0 cells)) 0"

definition by_material_step :: "nat \<times> material_id \<Rightarrow> (material_id \<times> u32) list \<Rightarrow> (material_id \<times> u32) list" where
  "by_material_step = (\<lambda>(index, material) out.
     if is_air material then out
     else case binary_search (map fst out) material of
            Inr found \<Rightarrow> out[found := (fst (out ! found), snd (out ! found) OR push_bit index 1)]
          | Inl at \<Rightarrow> take at out @ (material, push_bit index 1) # drop at out)"

definition by_material :: "cells \<Rightarrow> (material_id \<times> u32) list" where
  "by_material cells = fold by_material_step (enumerate 0 cells) []"

text \<open>The loop of \<open>of_cells\<close>: the lowest material seen, and whether there are several.\<close>

fun of_cells_loop :: "cells \<Rightarrow> material_id option \<Rightarrow> bool \<Rightarrow> material_id option \<times> bool" where
  "of_cells_loop [] lowest several = (lowest, several)"
| "of_cells_loop (material # rest) lowest several =
     (if is_air material then of_cells_loop rest lowest several
      else case lowest of
             None \<Rightarrow> of_cells_loop rest (Some material) several
           | Some seen \<Rightarrow> of_cells_loop rest (Some (min seen material)) (several \<or> material \<noteq> seen))"

definition of_cells :: "cells \<Rightarrow> nat \<Rightarrow> stack option" where
  "of_cells cells units =
     (let (lowest, several) = of_cells_loop cells None False
      in do { material \<leftarrow> lowest;
              stack \<leftarrow> stack_new material units;
              Some (stack\<lparr>st_shape := shape_new (occupancy_of cells),
                st_cells := (if several then Some cells else None)\<rparr>) })"

definition stack_mixed :: "cells \<Rightarrow> nat \<Rightarrow> stack option" where
  "stack_mixed cells count =
     do { units \<leftarrow> checked_mul_u32 count (count_ones (occupancy_of cells)); of_cells cells units }"

definition stack_canonical :: "stack \<Rightarrow> stack option" where
  "stack_canonical s =
     (case st_cells s of
        None \<Rightarrow> Some s
      | Some cells \<Rightarrow> map_option (st_detail_update (\<lambda>_. st_detail s)) (of_cells cells (st_units s)))"

definition item_cells :: "stack \<Rightarrow> cells" where
  "item_cells s =
     (case st_cells s of
        Some cells \<Rightarrow> cells
      | None \<Rightarrow>
          (let mask = (case st_shape s of None \<Rightarrow> shape_ALL | Some shape \<Rightarrow> shape)
           in map (\<lambda>(index, cell). if mask AND push_bit index 1 \<noteq> 0 then st_material s else cell)
                (enumerate 0 EMPTY_CELLS)))"

definition stack_materials :: "stack \<Rightarrow> (material_id \<times> nat) list" where
  "stack_materials s = map (\<lambda>(material, mask). (material, count_ones mask)) (by_material (item_cells s))"

section \<open>What an edit yields, and lists of stacks\<close>

text \<open>One unit of a material into a list kept sorted by material: the body both \<open>break_block\<close> and
  \<open>removed_units\<close> have.\<close>

definition loose_unit :: "material_id \<Rightarrow> stack" where
  "loose_unit material =
     \<lparr>st_material = material, st_units = 1, st_shape = None, st_cells = None, st_detail = None\<rparr>"

definition tally :: "material_id \<Rightarrow> stack list \<Rightarrow> stack list" where
  "tally material stacks =
     (case binary_search (map st_material stacks) material of
        Inr found \<Rightarrow> stacks[found := (stacks ! found)\<lparr>st_units := st_units (stacks ! found) + 1\<rparr>]
      | Inl insert_at \<Rightarrow> take insert_at stacks @ loose_unit material # drop insert_at stacks)"

fun break_block :: "block_view \<Rightarrow> stack list" where
  "break_block (WUniform material) =
     (case stack_new material UNITS_PER_BLOCK of None \<Rightarrow> [] | Some s \<Rightarrow> [s])"
| "break_block (WPartial material occupancy) =
     (case stack_new material (count_ones occupancy) of None \<Rightarrow> [] | Some s \<Rightarrow> [s])"
| "break_block (WMixed cells) =
     fold (\<lambda>material stacks. if is_air material then stacks else tally material stacks) cells []"

definition removed_units :: "block_view \<Rightarrow> block_view \<Rightarrow> stack list" where
  "removed_units before after =
     fold (\<lambda>index stacks.
         let was = view_subnode before index
         in if is_air was \<or> was = view_subnode after index then stacks else tally was stacks)
       [0..<SUBNODES_PER_BLOCK] []"

definition consolidate_step :: "stack \<Rightarrow> stack list \<Rightarrow> stack list" where
  "consolidate_step stack merged =
     (if stack_is_empty stack \<or> is_air (st_material stack) then merged
      else case binary_search (map key_of_stack merged) (key_of_stack stack) of
             Inr found \<Rightarrow>
               (case stack_merge (merged ! found) stack of
                  Inr both \<Rightarrow> merged[found := both]
                | Inl _ \<Rightarrow> take (found + 1) merged @ stack # drop (found + 1) merged)
           | Inl insert_at \<Rightarrow> take insert_at merged @ stack # drop insert_at merged)"

definition consolidate :: "stack list \<Rightarrow> stack list" where
  "consolidate stacks = fold consolidate_step stacks []"

definition total_units :: "stack list \<Rightarrow> nat" where
  "total_units stacks = (\<Sum>s\<leftarrow>stacks. st_units s)"

definition units_of :: "stack list \<Rightarrow> material_id \<Rightarrow> nat" where
  "units_of stacks material =
     fold (\<lambda>s total. saturating_add_u32 total (st_units s))
       (filter (\<lambda>s. st_material s = material \<and> st_cells s = None) stacks) 0"

definition units_of_exactly :: "stack list \<Rightarrow> stack_key \<Rightarrow> nat" where
  "units_of_exactly stacks key =
     fold (\<lambda>s total. saturating_add_u32 total (st_units s)) (filter (key_matches key) stacks) 0"

fun debit_loop :: "stack list \<Rightarrow> material_id \<Rightarrow> nat \<Rightarrow> stack list \<times> nat" where
  "debit_loop [] material remaining = ([], remaining)"
| "debit_loop (s # rest) material remaining =
     (if remaining = 0 then (s # rest, remaining)
      else if st_material s \<noteq> material \<or> st_cells s \<noteq> None then
        (let (rest', r) = debit_loop rest material remaining in (s # rest', r))
      else
        (let taken = min (st_units s) remaining;
             (rest', r) = debit_loop rest material (remaining - taken)
         in (s\<lparr>st_units := st_units s - taken\<rparr> # rest', r)))"

definition debit :: "stack list \<Rightarrow> material_id \<Rightarrow> nat \<Rightarrow> nat \<times> stack list" where
  "debit stacks material units =
     (let (stacks', remaining) = debit_loop stacks material units
      in (units - remaining, filter (\<lambda>s. \<not> stack_is_empty s) stacks'))"

end
