(* ===== verification/Slots.thy ===== *)
theory Slots
  imports Stack
begin

text \<open>
  Slotted inventories and what a click does to them, from
  \<^verbatim>\<open>crates/core/src/inventory/slots.rs\<close>, and the dispatch of a click on the server,
  \<open>click_slot\<close> of \<^verbatim>\<open>crates/server/src/transport/endpoint.rs\<close>.

  A method on \<open>&mut Slots\<close> returns its result and the new state. The indices a method uses come
  from \<open>locate\<close> and \<open>index_of\<close>, which only give indices that exist (\<open>locate_Some\<close>), so no access
  of the model is out of range.
\<close>

record view =
  vw_name :: string
  vw_slots :: "stack option list"

record view_def =
  vd_id :: string
  vd_slots :: nat

definition MAX_VIEW_SLOTS :: nat where "MAX_VIEW_SLOTS = 256"

definition view_empty :: "string \<Rightarrow> nat \<Rightarrow> view" where
  "view_empty name count = \<lparr>vw_name = name, vw_slots = replicate count None\<rparr>"

definition view_total_units :: "view \<Rightarrow> nat" where
  "view_total_units v = (\<Sum>s\<leftarrow>vw_slots v. case s of None \<Rightarrow> 0 | Some stack \<Rightarrow> st_units stack)"

definition grain_for :: "material_id set \<Rightarrow> stack \<Rightarrow> nat" where
  "grain_for items stack =
     (if st_material stack \<in> items then per_item stack else stack_grain stack)"

text \<open>\<open>(!stack.is_empty()).then_some(stack)\<close>.\<close>

definition unless_empty :: "stack \<Rightarrow> stack option" where
  "unless_empty s = (if stack_is_empty s then None else Some s)"

section \<open>Filling matching stacks and empty slots\<close>

text \<open>What one slot takes of a stack of the same item when it has \<open>room\<close> units of room: the body of
  the four loops that fill matching stacks. A refused merge puts the part back.\<close>

definition pour :: "material_id set \<Rightarrow> nat \<Rightarrow> stack \<Rightarrow> stack \<Rightarrow> stack \<times> stack" where
  "pour items room slot stack =
     (let giving = takeable_by stack (grain_for items stack) room
      in if giving > 0 then
           case stack_split stack giving of
             Inl _ \<Rightarrow> (slot, stack)
           | Inr (rest, part) \<Rightarrow>
               (case stack_merge slot part of
                  Inr merged \<Rightarrow> (merged, rest)
                | Inl _ \<Rightarrow> (slot, case stack_merge rest part of Inr whole \<Rightarrow> whole | Inl _ \<Rightarrow> rest))
         else (slot, stack))"

text \<open>The loop over the slots at the listed indices; it stops when the stack is spent.\<close>

fun top_up ::
  "material_id set \<Rightarrow> (stack \<Rightarrow> nat) \<Rightarrow> nat list \<Rightarrow> stack option list \<Rightarrow> stack \<Rightarrow>
     stack option list \<times> stack" where
  "top_up items room [] slots stack = (slots, stack)"
| "top_up items room (i # is) slots stack =
     (case slots ! i of
        None \<Rightarrow> top_up items room is slots stack
      | Some slot \<Rightarrow>
          if \<not> same_item slot stack then top_up items room is slots stack
          else
            (let (slot', stack') = pour items (room slot) slot stack;
                 slots' = slots[i := Some slot']
             in if stack_is_empty stack' then (slots', stack')
                else top_up items room is slots' stack'))"

definition slot_room :: "stack \<Rightarrow> nat" where
  "slot_room slot = capacity slot - st_units slot"

definition merge_room :: "stack \<Rightarrow> nat" where
  "merge_room slot = u32_limit - 1 - st_units slot"

fun fill_empty :: "nat \<Rightarrow> nat list \<Rightarrow> stack option list \<Rightarrow> stack \<Rightarrow> stack option list \<times> stack" where
  "fill_empty cap [] slots stack = (slots, stack)"
| "fill_empty cap (i # is) slots stack =
     (if stack_is_empty stack then (slots, stack)
      else if slots ! i \<noteq> None then fill_empty cap is slots stack
      else case stack_split stack (min (st_units stack) cap) of
             Inl _ \<Rightarrow> (slots, stack)
           | Inr (rest, part) \<Rightarrow> fill_empty cap is (slots[i := Some part]) rest)"

definition fill_by ::
  "view \<Rightarrow> material_id set \<Rightarrow> nat option \<Rightarrow> stack \<Rightarrow> stack option \<times> view" where
  "fill_by v items into stack =
     (if stack_is_empty stack then (None, v)
      else
        case (case into of
                Some index \<Rightarrow> if index < length (vw_slots v) then Some [index] else None
              | None \<Rightarrow> Some [0..<length (vw_slots v)]) of
          None \<Rightarrow> (Some stack, v)
        | Some indices \<Rightarrow>
            (let (slots', stack') = top_up items slot_room indices (vw_slots v) stack
             in if stack_is_empty stack' then (None, v\<lparr>vw_slots := slots'\<rparr>)
                else
                  (let (slots'', stack'') = fill_empty (capacity stack') indices slots' stack'
                   in (unless_empty stack'', v\<lparr>vw_slots := slots''\<rparr>))))"

definition view_fill :: "view \<Rightarrow> nat option \<Rightarrow> stack \<Rightarrow> stack option \<times> view" where
  "view_fill v into stack = fill_by v {} into stack"

section \<open>Taking out of slots\<close>

fun draw_loop ::
  "material_id set \<Rightarrow> stack_key \<Rightarrow> nat list \<Rightarrow> stack option list \<Rightarrow> nat \<Rightarrow> stack option list \<times> nat" where
  "draw_loop items which [] slots left = (slots, left)"
| "draw_loop items which (i # is) slots left =
     (if left = 0 then (slots, left)
      else case slots ! i of
             None \<Rightarrow> draw_loop items which is slots left
           | Some stack \<Rightarrow>
               if \<not> key_matches which stack then draw_loop items which is slots left
               else
                 (case stack_split stack (takeable_by stack (grain_for items stack) left) of
                    Inl _ \<Rightarrow> draw_loop items which is (slots[i := unless_empty stack]) left
                  | Inr (rest, part) \<Rightarrow>
                      draw_loop items which is (slots[i := unless_empty rest]) (left - st_units part)))"

definition draw_by ::
  "view \<Rightarrow> material_id set \<Rightarrow> nat option \<Rightarrow> stack_key \<Rightarrow> nat \<Rightarrow> nat \<times> view" where
  "draw_by v items from which units =
     (case (case from of
              Some index \<Rightarrow> if index < length (vw_slots v) then Some [index] else None
            | None \<Rightarrow> Some [0..<length (vw_slots v)]) of
        None \<Rightarrow> (0, v)
      | Some indices \<Rightarrow>
          (let (slots', left) = draw_loop items which indices (vw_slots v) units
           in (units - left, v\<lparr>vw_slots := slots'\<rparr>)))"

definition view_draw :: "view \<Rightarrow> nat option \<Rightarrow> stack_key \<Rightarrow> nat \<Rightarrow> nat \<times> view" where
  "view_draw v from which units = draw_by v {} from which units"

section \<open>The slots of a player\<close>

record grab =
  held :: "stack option"

record slots =
  sl_views :: "view list"
  sl_grab :: grab
  sl_main_fixed :: bool
  sl_items :: "material_id set"
  sl_grain :: nat

datatype portion = All_of_it | One_grain | One_unit

definition halves :: "nat \<Rightarrow> nat \<Rightarrow> nat \<times> nat" where
  "halves units grain =
     (let grain = max grain 1; grains = units div grain
      in if grains = 0 then (0, units)
         else (let hand = (grains - grains div 2) * grain in (units - hand, hand)))"

definition PLAYER_MAIN :: string where "PLAYER_MAIN = ''player:main''"
definition PLAYER_HOTBAR_SLOTS :: nat where "PLAYER_HOTBAR_SLOTS = 9"
definition PLAYER_MAIN_SLOTS :: nat where "PLAYER_MAIN_SLOTS = 28"
definition PLAYER_OFFHAND_SLOT :: nat where "PLAYER_OFFHAND_SLOT = 27"

definition for_player_sized :: "nat option \<Rightarrow> view_def list \<Rightarrow> slots" where
  "for_player_sized main extra =
     \<lparr>sl_views = view_empty PLAYER_MAIN (case main of None \<Rightarrow> PLAYER_MAIN_SLOTS | Some n \<Rightarrow> n) #
        map (\<lambda>d. view_empty (vd_id d) (vd_slots d)) (filter (\<lambda>d. vd_id d \<noteq> PLAYER_MAIN) extra),
      sl_grab = \<lparr>held = None\<rparr>, sl_main_fixed = (main \<noteq> None), sl_items = {}, sl_grain = 1\<rparr>"

definition for_player_with :: "view_def list \<Rightarrow> slots" where
  "for_player_with extra = for_player_sized None extra"

definition for_player :: slots where
  "for_player = for_player_with []"

definition index_of :: "slots \<Rightarrow> string \<Rightarrow> nat option" where
  "index_of s name = position (\<lambda>v. vw_name v = name) (sl_views s)"

definition locate :: "slots \<Rightarrow> string \<Rightarrow> nat \<Rightarrow> nat option" where
  "locate s name index =
     do { at \<leftarrow> index_of s name;
          (if index < length (vw_slots (sl_views s ! at)) then Some at else None) }"

definition find_view :: "slots \<Rightarrow> string \<Rightarrow> view option" where
  "find_view s name = List.find (\<lambda>v. vw_name v = name) (sl_views s)"

definition slots_total_units :: "slots \<Rightarrow> nat" where
  "slots_total_units s =
     (\<Sum>v\<leftarrow>sl_views s. view_total_units v) +
       (case held (sl_grab s) of None \<Rightarrow> 0 | Some stack \<Rightarrow> st_units stack)"

text \<open>\<open>self.views[at].slots\<close>, one of its slots, and the cursor.\<close>

abbreviation view_at :: "slots \<Rightarrow> nat \<Rightarrow> stack option list" where
  "view_at s at \<equiv> vw_slots (sl_views s ! at)"

definition set_view :: "slots \<Rightarrow> nat \<Rightarrow> stack option list \<Rightarrow> slots" where
  "set_view s at xs = s\<lparr>sl_views := (sl_views s)[at := (sl_views s ! at)\<lparr>vw_slots := xs\<rparr>]\<rparr>"

abbreviation cursor :: "slots \<Rightarrow> stack option" where
  "cursor s \<equiv> held (sl_grab s)"

definition set_cursor :: "slots \<Rightarrow> stack option \<Rightarrow> slots" where
  "set_cursor s h = s\<lparr>sl_grab := \<lparr>held = h\<rparr>\<rparr>"

section \<open>Inserting\<close>

lemma stack_split_units: "stack_split s n = Inr (rest, part) \<Longrightarrow> st_units rest + n = st_units s"
  by (auto simp: stack_split_def split: if_splits)

text \<open>The loop of \<open>insert_within\<close> that lays the rest out over empty slots, growing the view when
  there is none and it may grow.\<close>

function insert_rest ::
  "bool \<Rightarrow> nat \<Rightarrow> nat \<Rightarrow> stack option list \<Rightarrow> stack \<Rightarrow> stack option list \<times> stack option" where
  "insert_rest fixed cap grain slots stack =
     (if stack_is_empty stack then (slots, None)
      else
        (let whole = takeable_by stack grain cap
         in if whole = 0 then (slots, Some stack)
            else case position (\<lambda>slot. slot = None) slots of
                   None \<Rightarrow>
                     if fixed then (slots, Some stack)
                     else (case stack_split stack whole of
                             Inl _ \<Rightarrow> (slots, None)
                           | Inr (rest, part) \<Rightarrow> insert_rest fixed cap grain (slots @ [Some part]) rest)
                 | Some free \<Rightarrow>
                     (case stack_split stack whole of
                        Inl _ \<Rightarrow> (slots, None)
                      | Inr (rest, part) \<Rightarrow>
                          insert_rest fixed cap grain (slots[free := Some part]) rest)))"
  by pat_completeness auto

termination
  by (relation "measure (\<lambda>(fixed, cap, grain, slots, stack). st_units stack)")
    (auto dest!: stack_split_units)

declare insert_rest.simps [simp del]

definition insert_within :: "slots \<Rightarrow> string \<Rightarrow> stack \<Rightarrow> stack option \<times> slots" where
  "insert_within s view stack =
     (if stack_is_empty stack then (None, s)
      else case index_of s view of
             None \<Rightarrow> (Some stack, s)
           | Some at \<Rightarrow>
               (let fixed = (sl_main_fixed s \<and> view = PLAYER_MAIN);
                    (slots', stack') =
                      top_up (sl_items s) slot_room [0..<length (view_at s at)] (view_at s at) stack
                in if stack_is_empty stack' then (None, set_view s at slots')
                   else
                     (let (slots'', left) =
                        insert_rest fixed (capacity stack') (grain_for (sl_items s) stack') slots' stack'
                      in (left, set_view s at slots''))))"

definition slots_insert :: "slots \<Rightarrow> string \<Rightarrow> stack \<Rightarrow> bool \<times> slots" where
  "slots_insert s view stack =
     (let asked = st_units stack;
          (rest, s') = insert_within s view stack;
          left = (case rest of None \<Rightarrow> 0 | Some r \<Rightarrow> st_units r)
      in (left < asked, s'))"

fun fits_all :: "slots \<Rightarrow> string \<Rightarrow> stack list \<Rightarrow> bool" where
  "fits_all trial view [] = True"
| "fits_all trial view (stack # stacks) =
     (let (left, trial') = insert_within trial view stack
      in left = None \<and> fits_all trial' view stacks)"

definition fits :: "slots \<Rightarrow> string \<Rightarrow> stack list \<Rightarrow> bool" where
  "fits s view stacks =
     (if \<not> (sl_main_fixed s \<and> view = PLAYER_MAIN) then True else fits_all s view stacks)"

section \<open>Clicks\<close>

definition merge_or_swap :: "stack \<Rightarrow> stack \<Rightarrow> stack option \<times> stack option" where
  "merge_or_swap hand there =
     (if \<not> same_item hand there then (Some hand, Some there)
      else case stack_merge there hand of
             Inr merged \<Rightarrow> (Some merged, None)
           | Inl _ \<Rightarrow> (Some there, Some hand))"

definition place_one :: "stack \<Rightarrow> stack option \<Rightarrow> nat \<Rightarrow> stack option \<times> stack option" where
  "place_one hand there grain =
     (case stack_split hand (min (max grain 1) (st_units hand)) of
        Inl _ \<Rightarrow> (unless_empty hand, there)
      | Inr (rest, one) \<Rightarrow>
          (case there of
             None \<Rightarrow> (Some one, unless_empty rest)
           | Some t \<Rightarrow>
               if same_item t one then
                 (case stack_merge t one of
                    Inr merged \<Rightarrow> (Some merged, unless_empty rest)
                  | Inl _ \<Rightarrow>
                      (Some t, unless_empty (case stack_merge rest one of Inr h \<Rightarrow> h | Inl _ \<Rightarrow> rest)))
               else
                 (Some t, unless_empty (case stack_merge rest one of Inr h \<Rightarrow> h | Inl _ \<Rightarrow> rest))))"

definition left_click :: "slots \<Rightarrow> string \<Rightarrow> nat \<Rightarrow> bool \<times> slots" where
  "left_click s view index =
     (case locate s view index of
        None \<Rightarrow> (False, s)
      | Some at \<Rightarrow>
          (case (case (cursor s, view_at s at ! index) of
                   (None, Some stack) \<Rightarrow> Some (None, Some stack)
                 | (Some hand, None) \<Rightarrow> Some (Some hand, None)
                 | (Some hand, Some there) \<Rightarrow> Some (merge_or_swap hand there)
                 | (None, None) \<Rightarrow> None) of
             None \<Rightarrow> (False, s)
           | Some (slot, hand) \<Rightarrow> (True, set_cursor (set_view s at ((view_at s at)[index := slot])) hand)))"

definition click_grain :: "slots \<Rightarrow> stack \<Rightarrow> bool \<Rightarrow> nat" where
  "click_grain s stack fine =
     (let whole = grain_for (sl_items s) stack
      in if whole > 1 \<or> fine then whole else min (per_item stack) (max (sl_grain s) 1))"

definition split_half :: "stack \<Rightarrow> nat \<Rightarrow> stack option \<times> stack option" where
  "split_half stack grain =
     (let (behind, _) = halves (st_units stack) grain
      in case stack_split stack (st_units stack - behind) of
           Inl _ \<Rightarrow> (unless_empty stack, None)
         | Inr (rest, taken) \<Rightarrow> (unless_empty rest, Some taken))"

definition split_or_place :: "slots \<Rightarrow> string \<Rightarrow> nat \<Rightarrow> bool \<Rightarrow> bool \<times> slots" where
  "split_or_place s view index fine =
     (case locate s view index of
        None \<Rightarrow> (False, s)
      | Some at \<Rightarrow>
          (case (case (cursor s, view_at s at ! index) of
                   (None, Some stack) \<Rightarrow> Some (split_half stack (click_grain s stack fine))
                 | (Some hand, there) \<Rightarrow> Some (place_one hand there (click_grain s hand fine))
                 | (None, None) \<Rightarrow> None) of
             None \<Rightarrow> (False, s)
           | Some (slot, hand) \<Rightarrow> (True, set_cursor (set_view s at ((view_at s at)[index := slot])) hand)))"

definition right_click :: "slots \<Rightarrow> string \<Rightarrow> nat \<Rightarrow> bool \<times> slots" where
  "right_click s view index = split_or_place s view index False"

definition shift_right_click :: "slots \<Rightarrow> string \<Rightarrow> nat \<Rightarrow> bool \<times> slots" where
  "shift_right_click s view index = split_or_place s view index True"

section \<open>The cursor\<close>

definition return_held :: "slots \<Rightarrow> string \<Rightarrow> bool \<times> slots" where
  "return_held s view =
     (case cursor s of
        None \<Rightarrow> (False, s)
      | Some hand \<Rightarrow>
          (let (added, s') = slots_insert (set_cursor s None) view hand
           in if added then (True, s') else (False, set_cursor s' (Some hand))))"

definition take_held :: "slots \<Rightarrow> portion \<Rightarrow> stack option \<times> slots" where
  "take_held s portion =
     (case cursor s of
        None \<Rightarrow> (None, s)
      | Some hand \<Rightarrow>
          (let units = min (case portion of
                   All_of_it \<Rightarrow> st_units hand
                 | One_grain \<Rightarrow> click_grain s hand False
                 | One_unit \<Rightarrow> click_grain s hand True) (st_units hand)
           in case stack_split hand units of
                Inr (rest, taken) \<Rightarrow> (Some taken, set_cursor s (unless_empty rest))
              | Inl _ \<Rightarrow> (None, set_cursor s (Some hand))))"

definition untake_held :: "slots \<Rightarrow> string \<Rightarrow> stack \<Rightarrow> stack option \<times> slots" where
  "untake_held s view stack =
     (case cursor s of
        None \<Rightarrow> (None, set_cursor s (Some stack))
      | Some hand \<Rightarrow>
          (case (if same_item hand stack then stack_merge hand stack else Inl DetailMismatch) of
             Inr merged \<Rightarrow> (None, set_cursor s (Some merged))
           | Inl _ \<Rightarrow> insert_within s view stack))"

section \<open>Moving between slots and views\<close>

text \<open>What is left after the matching stacks were topped up goes whole to the first empty slot of
  \<open>targets\<close>: the end of \<open>shift_click\<close> and of \<open>stow\<close>.\<close>

definition place_rest :: "nat list \<Rightarrow> stack option list \<Rightarrow> stack \<Rightarrow> stack option list \<times> stack" where
  "place_rest targets slots moving =
     (if stack_is_empty moving then (slots, moving)
      else case List.find (\<lambda>i. slots ! i = None) targets of
             None \<Rightarrow> (slots, moving)
           | Some free \<Rightarrow> (slots[free := Some moving], moving\<lparr>st_units := 0\<rparr>))"

definition shift_click :: "slots \<Rightarrow> string \<Rightarrow> nat \<Rightarrow> string \<Rightarrow> bool \<times> slots" where
  "shift_click s view index into =
     (if view = into then (False, s)
      else case (locate s view index, index_of s into) of
             (Some from, Some to) \<Rightarrow>
               if from = to then (False, s)
               else
                 (case view_at s from ! index of
                    None \<Rightarrow> (False, s)
                  | Some moving \<Rightarrow>
                      (let indices = [0..<length (view_at s to)];
                           (slots', moving') = top_up (sl_items s) merge_room indices (view_at s to) moving;
                           (slots'', moving'') = place_rest indices slots' moving';
                           s' = set_view s to slots''
                       in (True, set_view s' from ((view_at s' from)[index := unless_empty moving'']))))
           | _ \<Rightarrow> (False, s))"

definition swap_offhand :: "slots \<Rightarrow> string \<Rightarrow> nat \<Rightarrow> bool \<times> slots" where
  "swap_offhand s view slot =
     (case locate s view slot of
        None \<Rightarrow> (False, s)
      | Some at \<Rightarrow>
          (let xs = view_at s at
           in if slot = PLAYER_OFFHAND_SLOT \<or> length xs \<le> PLAYER_OFFHAND_SLOT then (False, s)
              else if xs ! slot = None \<and> xs ! PLAYER_OFFHAND_SLOT = None then (False, s)
              else (True, set_view s at
                (xs[slot := xs ! PLAYER_OFFHAND_SLOT, PLAYER_OFFHAND_SLOT := xs ! slot]))))"

definition stow :: "slots \<Rightarrow> string \<Rightarrow> nat \<Rightarrow> nat \<Rightarrow> bool \<times> slots" where
  "stow s view index band =
     (case locate s view index of
        None \<Rightarrow> (False, s)
      | Some at \<Rightarrow>
          (case view_at s at ! index of
             None \<Rightarrow> (False, s)
           | Some moving \<Rightarrow>
               (let xs = (view_at s at)[index := None];
                    target = (if index < band then [band..<length xs] else [0..<min band (length xs)]);
                    (slots', moving') = top_up (sl_items s) merge_room target xs moving;
                    (slots'', moving'') = place_rest target slots' moving'
                in (True, set_view s at (slots''[index := unless_empty moving''])))))"

definition transfer :: "slots \<Rightarrow> string \<Rightarrow> nat \<Rightarrow> string \<Rightarrow> bool \<times> slots" where
  "transfer s from index to =
     (if from = to then (False, s)
      else case locate s from index of
             None \<Rightarrow> (False, s)
           | Some source \<Rightarrow>
               (case index_of s to of
                  None \<Rightarrow> (False, s)
                | Some target \<Rightarrow>
                    (case view_at s source ! index of
                       None \<Rightarrow> (False, s)
                     | Some moving \<Rightarrow>
                         (let offered = st_units moving;
                              s1 = set_view s source ((view_at s source)[index := None]);
                              (left, v) = fill_by (sl_views s1 ! target) (sl_items s1) None moving;
                              moved = (case left of None \<Rightarrow> True | Some rest \<Rightarrow> st_units rest < offered);
                              s2 = s1\<lparr>sl_views := (sl_views s1)[target := v]\<rparr>
                          in (moved, set_view s2 source ((view_at s2 source)[index := left]))))))"

definition give_into :: "slots \<Rightarrow> string \<Rightarrow> nat \<Rightarrow> stack \<Rightarrow> bool \<times> slots" where
  "give_into s view slot stack =
     (if stack_is_empty stack \<or> st_units stack > capacity stack \<or>
         \<not> grain_for (sl_items s) stack dvd st_units stack
      then (False, s)
      else case locate s view slot of
             None \<Rightarrow> (False, s)
           | Some at \<Rightarrow>
               (case view_at s at ! slot of
                  None \<Rightarrow> (True, set_view s at ((view_at s at)[slot := Some stack]))
                | Some there \<Rightarrow>
                    if same_item there stack \<and> slot_room there \<ge> st_units stack then
                      (case stack_merge there stack of
                         Inr merged \<Rightarrow> (True, set_view s at ((view_at s at)[slot := Some merged]))
                       | Inl _ \<Rightarrow> (False, s))
                    else (False, s)))"

definition take_from :: "slots \<Rightarrow> string \<Rightarrow> nat \<Rightarrow> stack_key \<Rightarrow> nat \<Rightarrow> nat \<times> slots" where
  "take_from s view slot which units =
     (case locate s view slot of
        None \<Rightarrow> (0, s)
      | Some at \<Rightarrow>
          (case view_at s at ! slot of
             None \<Rightarrow> (0, s)
           | Some stack \<Rightarrow>
               if \<not> key_matches which stack then (0, s)
               else
                 (case stack_split stack (takeable_by stack (grain_for (sl_items s) stack) units) of
                    Inl _ \<Rightarrow> (0, s)
                  | Inr (rest, part) \<Rightarrow>
                      (st_units part, set_view s at ((view_at s at)[slot := unless_empty rest])))))"

definition slots_take :: "slots \<Rightarrow> string \<Rightarrow> stack_key \<Rightarrow> nat \<Rightarrow> nat \<times> slots" where
  "slots_take s view which units =
     (case index_of s view of
        None \<Rightarrow> (0, s)
      | Some at \<Rightarrow>
          (let (slots', left) =
             draw_loop (sl_items s) which [0..<length (view_at s at)] (view_at s at) units
           in (units - left, set_view s at slots')))"

definition consolidated :: "slots \<Rightarrow> string \<Rightarrow> stack list" where
  "consolidated s name =
     (case find_view s name of
        None \<Rightarrow> []
      | Some v \<Rightarrow> consolidate (List.map_filter id (vw_slots v)))"

section \<open>Dispatch on the server\<close>

datatype click = Left_button | Right_button | ShiftLeft | ShiftRight

definition click_slot :: "slots \<Rightarrow> string \<Rightarrow> nat \<Rightarrow> click \<Rightarrow> string option \<Rightarrow> bool \<times> slots" where
  "click_slot s view index click across =
     (case click of
        Left_button \<Rightarrow> left_click s view index
      | Right_button \<Rightarrow> right_click s view index
      | ShiftRight \<Rightarrow> shift_right_click s view index
      | ShiftLeft \<Rightarrow>
          (case across of
             Some container \<Rightarrow>
               if view = container then transfer s view index PLAYER_MAIN
               else transfer s view index container
           | None \<Rightarrow> stow s view index PLAYER_HOTBAR_SLOTS))"

end
