(* ===== verification/Stack_Laws.thy ===== *)
theory Stack_Laws
  imports Stack
begin

text \<open>
  Laws of stack arithmetic: merging and splitting conserve units item by item, the sorted tally
  that digging uses counts each material exactly, and consolidation conserves what it is given.
  Quantities are measured by \<open>weight P\<close>, the units of the stacks whose identity satisfies \<open>P\<close>:
  with \<open>P = (\<lambda>_. True)\<close> it is the total, with \<open>P = (=) k\<close> the amount of one item, so that one
  conservation lemma says that no operation creates, destroys or transmutes material.
\<close>

text \<open>A stack holds at least one unit, no more than a \<open>u32\<close>, and a cut has a cell (\<open>Shape::new\<close>
  refuses the empty mask).\<close>

definition stack_ok :: "stack \<Rightarrow> bool" where
  "stack_ok s \<longleftrightarrow> 0 < st_units s \<and> st_units s < u32_limit \<and> st_shape s \<noteq> Some 0"

lemma capacity_pos: "st_shape s \<noteq> Some 0 \<Longrightarrow> 0 < capacity s"
  by (auto simp: capacity_def stack_capacity_def Let_def shape_cells_def neq0_conv [symmetric] simp del: neq0_conv
      split: option.splits)

lemma same_key_shape: "key_of_stack s = key_of_stack t \<Longrightarrow> st_shape s = st_shape t"
  by (simp add: key_of_stack_def)

definition weight :: "(stack_key \<Rightarrow> bool) \<Rightarrow> stack \<Rightarrow> nat" where
  "weight P s = (if P (key_of_stack s) then st_units s else 0)"

definition weights :: "(stack_key \<Rightarrow> bool) \<Rightarrow> stack list \<Rightarrow> nat" where
  "weights P ss = (\<Sum>s\<leftarrow>ss. weight P s)"

lemma weights_simps [simp]:
  "weights P [] = 0" "weights P (s # ss) = weight P s + weights P ss"
  "weights P (ss @ ts) = weights P ss + weights P ts"
  by (simp_all add: weights_def)

lemma weights_True: "weights (\<lambda>_. True) ss = total_units ss"
  by (simp add: weights_def weight_def total_units_def)

section \<open>Merging and splitting\<close>

lemma key_of_stack_units [simp]: "key_of_stack (s\<lparr>st_units := n\<rparr>) = key_of_stack s"
  by (simp add: key_of_stack_def)

lemma stack_merge_Inr:
  "stack_merge s t = Inr m \<longleftrightarrow>
     key_of_stack s = key_of_stack t \<and> st_units s + st_units t < u32_limit \<and>
     m = s\<lparr>st_units := st_units s + st_units t\<rparr>"
  by (auto simp: stack_merge_def key_of_stack_def checked_add_u32_def)

lemma stack_merge_Inl:
  "stack_merge s t = Inl e \<Longrightarrow> key_of_stack s \<noteq> key_of_stack t \<or> u32_limit \<le> st_units s + st_units t"
  by (auto simp: stack_merge_def key_of_stack_def checked_add_u32_def split: if_splits)

lemma stack_split_Inr:
  "stack_split s n = Inr (rest, part) \<longleftrightarrow>
     n \<le> st_units s \<and> rest = s\<lparr>st_units := st_units s - n\<rparr> \<and> part = s\<lparr>st_units := n\<rparr>"
  by (auto simp: stack_split_def)

lemma stack_split_le: "n \<le> st_units s \<Longrightarrow> stack_split s n =
    Inr (s\<lparr>st_units := st_units s - n\<rparr>, s\<lparr>st_units := n\<rparr>)"
  by (simp add: stack_split_def)

lemma weight_units [simp]: "weight P (s\<lparr>st_units := n\<rparr>) = (if P (key_of_stack s) then n else 0)"
  by (simp add: weight_def)

lemma takeable_by_le: "takeable_by s g n \<le> st_units s \<and> takeable_by s g n \<le> n"
  by (auto simp: takeable_by_def Let_def min_def intro: le_trans [OF diff_le_self])

lemma takeable_by_dvd: "max g 1 dvd takeable_by s g n"
  by (simp add: takeable_by_def Let_def minus_mod_eq_mult_div)

lemma takeable_by_1 [simp]: "takeable_by s 1 n = min (st_units s) n"
  by (simp add: takeable_by_def)

text \<open>The most that may be taken: any amount in whole grains within both bounds is covered.\<close>

lemma takeable_by_greatest:
  assumes "m \<le> st_units s" and "m \<le> n" and "max g 1 dvd m"
  shows "m \<le> takeable_by s g n"
proof -
  let ?g = "max g 1" and ?most = "min (st_units s) n"
  have "m = ?g * (m div ?g)" using assms(3) by simp
  also have "\<dots> \<le> ?g * (?most div ?g)" using assms(1,2) by (intro mult_le_mono2 div_le_mono) simp
  also have "\<dots> = takeable_by s g n" by (simp add: takeable_by_def Let_def minus_mod_eq_mult_div)
  finally show ?thesis .
qed

section \<open>Sorted tallies\<close>

text \<open>What a list of stacks kept sorted by material says about the units of each material.\<close>

definition loose_sorted :: "stack list \<Rightarrow> bool" where
  "loose_sorted ss \<longleftrightarrow> sorted_wrt (<) (map st_material ss) \<and>
     (\<forall>s \<in> set ss. 0 < st_units s \<and> st_material s \<noteq> AIR \<and> key_of_stack s = key_loose (st_material s))"

definition amount :: "stack list \<Rightarrow> material_id \<Rightarrow> nat" where
  "amount ss m = (\<Sum>s\<leftarrow>ss. if st_material s = m then st_units s else 0)"

lemma amount_simps [simp]:
  "amount [] m = 0" "amount (s # ss) m = (if st_material s = m then st_units s else 0) + amount ss m"
  "amount (ss @ ts) m = amount ss m + amount ts m"
  by (simp_all add: amount_def)

lemma amount_take_drop: "amount (take i ss) m + amount (drop i ss) m = amount ss m"
  by (simp flip: amount_simps(3))

lemma weights_take_drop: "weights P (take i ss) + weights P (drop i ss) = weights P ss"
  by (simp flip: weights_simps(3))

lemma set_insert_at: "set (take i xs @ x # drop i xs) = insert x (set xs)"
  by (metis append_take_drop_id list.simps(15) set_append Un_insert_right)

lemma split_at: "i < length xs \<Longrightarrow> xs = take i xs @ xs ! i # drop (Suc i) xs"
  by (simp add: id_take_nth_drop)

lemma amount_update:
  "i < length ss \<Longrightarrow> st_material s = st_material (ss ! i) \<Longrightarrow>
     amount (ss[i := s]) m + (if st_material s = m then st_units (ss ! i) else 0) =
     amount ss m + (if st_material s = m then st_units s else 0)"
  by (subst (3) split_at [of i ss], assumption) (simp add: upd_conv_take_nth_drop)

lemma map_update_id: "i < length xs \<Longrightarrow> f y = f (xs ! i) \<Longrightarrow> map f (xs[i := y]) = map f xs"
  by (simp add: map_update list_update_same_conv)

lemma tally_correct:
  assumes "loose_sorted ss" and "m \<noteq> AIR"
  shows "loose_sorted (tally m ss) \<and> amount (tally m ss) n = amount ss n + (if n = m then 1 else 0)"
proof -
  have sorted: "sorted (map st_material ss)" and strict: "sorted_wrt (<) (map st_material ss)"
    using assms(1) by (auto simp: loose_sorted_def strict_sorted_iff)
  show ?thesis
  proof (cases "binary_search (map st_material ss) m")
    case (Inr i)
    then have i: "i < length ss" "st_material (ss ! i) = m"
      using binary_search_found [OF sorted Inr] by auto
    let ?s = "(ss ! i)\<lparr>st_units := st_units (ss ! i) + 1\<rparr>"
    have t: "tally m ss = ss[i := ?s]" by (simp add: tally_def Inr)
    have "set (ss[i := ?s]) \<subseteq> insert ?s (set ss)" by (rule set_update_subset_insert)
    moreover have "ss ! i \<in> set ss" using i(1) by simp
    ultimately have "loose_sorted (tally m ss)"
      using assms(1) i unfolding t loose_sorted_def by (auto simp: map_update_id)
    moreover have "amount (tally m ss) n = amount ss n + (if n = m then 1 else 0)"
      using amount_update [OF i(1), of ?s n] i(2) unfolding t by auto
    ultimately show ?thesis ..
  next
    case (Inl i)
    have t: "tally m ss = take i ss @ loose_unit m # drop i ss" by (simp add: tally_def Inl)
    have "sorted_wrt (<) (map st_material (tally m ss))"
      using binary_search_insert_strict [OF strict Inl] by (simp add: t take_map drop_map loose_unit_def)
    moreover have "set (tally m ss) = insert (loose_unit m) (set ss)"
      unfolding t by (rule set_insert_at)
    moreover have "amount (tally m ss) n = amount ss n + (if n = m then 1 else 0)"
      unfolding t by (auto simp: loose_unit_def amount_take_drop)
    ultimately show ?thesis using assms
      by (auto simp: loose_sorted_def loose_unit_def key_of_stack_def key_loose_def key_of_def)
  qed
qed

lemma tally_fold:
  assumes "\<forall>x \<in> set xs. Q x \<or> f x \<noteq> AIR" and "loose_sorted ss"
  shows "loose_sorted (fold (\<lambda>x ss. if Q x then ss else tally (f x) ss) xs ss) \<and>
    amount (fold (\<lambda>x ss. if Q x then ss else tally (f x) ss) xs ss) n =
      amount ss n + length (filter (\<lambda>x. \<not> Q x \<and> f x = n) xs)"
  using assms
proof (induction xs arbitrary: ss)
  case (Cons x xs)
  then show ?case using tally_correct [of ss "f x" n] by (cases "Q x") auto
qed simp

lemma loose_sorted_Nil [simp]: "loose_sorted []"
  by (simp add: loose_sorted_def)

lemma total_amount: "loose_sorted ss \<Longrightarrow> s \<in> set ss \<Longrightarrow> amount ss (st_material s) = st_units s"
proof (induction ss)
  case (Cons t ss)
  have zero: "amount ss m = 0" if "\<forall>u \<in> set ss. st_material u \<noteq> m" for m
    using that by (induction ss) auto
  have tl: "loose_sorted ss" "\<forall>u \<in> set ss. st_material t < st_material u"
    using Cons.prems(1) by (auto simp: loose_sorted_def)
  have "amount ss (st_material t) = 0" using tl(2) by (intro zero) auto
  then show ?case using Cons.IH [OF tl(1)] Cons.prems(2) tl(2) by auto
qed simp

section \<open>Breaking and editing a block\<close>

definition cells_of_material :: "cells \<Rightarrow> material_id \<Rightarrow> nat" where
  "cells_of_material cs m = length (filter (\<lambda>c. c = m) cs)"

lemma cells_of_material_replicate [simp]:
  "cells_of_material (replicate n m) k = (if m = k then n else 0)"
  by (simp add: cells_of_material_def)

lemma cells_of_material_partial:
  assumes "occ AND OCCUPANCY_FULL = occ" and "m \<noteq> AIR" and "k \<noteq> AIR"
  shows "cells_of_material (value_cells (VPartial m occ)) k =
    (if m = k then count_ones occ else 0)"
proof -
  have "count_ones occ = length (filter (bit occ) [0..<27])"
    using count_ones_27 [of occ] by (simp only: assms(1))
  moreover have "filter (\<lambda>i. (if bit occ i then m else AIR) = k) [0..<27] =
      (if m = k then filter (bit occ) [0..<27] else [])"
    using assms(2,3) by (auto intro: filter_cong simp: filter_empty_conv)
  ultimately show ?thesis
    unfolding partial_cells cells_of_material_def by (simp add: filter_map comp_def)
qed

lemma break_block_correct:
  assumes "wf_value (view_to_value w)" and "is_canonical (view_to_value w)"
  shows "loose_sorted (break_block w) \<and>
    (\<forall>m. m \<noteq> AIR \<longrightarrow> amount (break_block w) m = cells_of_material (view_cells w) m)"
proof (cases w)
  case (WUniform k)
  then show ?thesis
    by (auto simp: stack_new_def loose_sorted_def key_of_stack_def key_loose_def key_of_def split: option.splits)
next
  case (WPartial k occ)
  then have c: "canonical (VPartial k occ) = VPartial k occ" using assms(2) by (simp add: is_canonical_def)
  note occ = canonical_partial_occupancy [OF c]
  have "break_block w = [\<lparr>st_material = k, st_units = count_ones occ, st_shape = None, st_cells = None,
      st_detail = None\<rparr>]" using WPartial occ by (simp add: stack_new_def)
  moreover have "cells_of_material (view_cells w) m = (if k = m then count_ones occ else 0)" if "m \<noteq> AIR" for m
    using cells_of_material_partial [OF occ(2,1) that] WPartial by (simp only: view_cells.simps view_to_value.simps)
  ultimately show ?thesis using occ(1,3) neq0_conv [of "count_ones occ"]
    by (simp add: loose_sorted_def key_of_stack_def key_loose_def key_of_def)
next
  case (WMixed cs)
  have f: "break_block w = fold (\<lambda>x ss. if x = AIR then ss else tally x ss) cs []"
    using WMixed by simp
  have "filter (\<lambda>x. x \<noteq> AIR \<and> x = m) cs = filter (\<lambda>c. c = m) cs" if "m \<noteq> AIR" for m
    using that by (auto intro: filter_cong)
  then show ?thesis unfolding f using tally_fold [of cs "\<lambda>x. x = AIR" "\<lambda>x. x" "[]"] WMixed
    by (simp add: cells_of_material_def)
qed

lemma removed_units_correct:
  "loose_sorted (removed_units before after) \<and>
    (m \<noteq> AIR \<longrightarrow> amount (removed_units before after) m =
      length (filter (\<lambda>i. view_subnode before i = m \<and> view_subnode after i \<noteq> m) [0..<27]))"
proof -
  let ?Q = "\<lambda>i. view_subnode before i = AIR \<or> view_subnode before i = view_subnode after i"
  have f: "removed_units before after =
      fold (\<lambda>x ss. if ?Q x then ss else tally (view_subnode before x) ss) [0..<27] []"
    by (simp add: removed_units_def Let_def del: upt_rec_numeral)
  have "filter (\<lambda>i. \<not> ?Q i \<and> view_subnode before i = m) [0..<27] =
      filter (\<lambda>i. view_subnode before i = m \<and> view_subnode after i \<noteq> m) [0..<27]" if "m \<noteq> AIR"
    using that by (auto intro!: filter_cong)
  moreover have "loose_sorted (removed_units before after) \<and> amount (removed_units before after) m =
      amount [] m + length (filter (\<lambda>i. \<not> ?Q i \<and> view_subnode before i = m) [0..<27])"
    unfolding f by (rule tally_fold) auto
  ultimately show ?thesis by simp
qed

section \<open>Consolidation\<close>

definition real_stack :: "stack \<Rightarrow> bool" where
  "real_stack s \<longleftrightarrow> \<not> stack_is_empty s \<and> \<not> is_air (st_material s)"

definition consolidated_ok :: "stack list \<Rightarrow> bool" where
  "consolidated_ok ss \<longleftrightarrow> sorted (map key_of_stack ss) \<and> (\<forall>s \<in> set ss. real_stack s \<and> st_units s < u32_limit)"

lemma weights_update:
  "i < length ss \<Longrightarrow> weights P (ss[i := s]) + weight P (ss ! i) = weights P ss + weight P s"
  by (subst (3) split_at [of i ss], assumption) (simp add: upd_conv_take_nth_drop)

lemma sorted_insert_after:
  assumes "sorted ks" and "i < length ks"
  shows "sorted (take (Suc i) ks @ ks ! i # drop (Suc i) ks)"
proof -
  have "sorted (take (Suc i) ks)" "sorted (drop i ks)"
    using assms(1) by (simp_all add: sorted_wrt_take sorted_wrt_drop)
  moreover have "take (Suc i) ks = take i ks @ [ks ! i]" "drop i ks = ks ! i # drop (Suc i) ks"
    using assms(2) by (simp_all add: take_Suc_conv_app_nth Cons_nth_drop_Suc)
  moreover have "sorted (take i ks @ drop i ks)" using assms(1) by simp
  ultimately show ?thesis by (auto simp: sorted_append)
qed

lemma consolidate_step_correct:
  assumes "consolidated_ok ss" and "st_units s < u32_limit"
  shows "consolidated_ok (consolidate_step s ss) \<and>
    weights P (consolidate_step s ss) = weights P ss + (if real_stack s then weight P s else 0)"
proof (cases "real_stack s")
  case True
  let ?ks = "map key_of_stack ss"
  have sorted: "sorted ?ks" using assms(1) by (simp add: consolidated_ok_def)
  have insert: "consolidated_ok (take i ss @ s # drop i ss) \<and>
      weights P (take i ss @ s # drop i ss) = weights P ss + weight P s"
    if "sorted (take i ?ks @ key_of_stack s # drop i ?ks)" for i
  proof
    have "\<forall>t \<in> set (take i ss @ s # drop i ss). real_stack t \<and> st_units t < u32_limit"
      unfolding set_insert_at using assms True by (auto simp: consolidated_ok_def)
    then show "consolidated_ok (take i ss @ s # drop i ss)"
      using that unfolding consolidated_ok_def by (simp add: take_map drop_map)
  qed (use weights_take_drop [of P i ss] in simp)
  show ?thesis
  proof (cases "binary_search ?ks (key_of_stack s)")
    case (Inl i)
    then have "consolidate_step s ss = take i ss @ s # drop i ss"
      using True by (simp add: consolidate_step_def real_stack_def)
    then show ?thesis using insert [OF conjunct1 [OF binary_search_insert [OF sorted Inl]]] True by simp
  next
    case (Inr i)
    then have i: "i < length ss" "key_of_stack (ss ! i) = key_of_stack s"
      using binary_search_found [OF sorted Inr] by auto
    show ?thesis
    proof (cases "stack_merge (ss ! i) s")
      case (Inl e)
      then have "consolidate_step s ss = take (Suc i) ss @ s # drop (Suc i) ss"
        using True Inr by (simp add: consolidate_step_def real_stack_def)
      then show ?thesis using insert [of "Suc i"] sorted_insert_after [OF sorted, of i] i True by simp
    next
      case (Inr both)
      then have c: "consolidate_step s ss = ss[i := both]"
        using True \<open>binary_search ?ks (key_of_stack s) = Inr i\<close>
        by (simp add: consolidate_step_def real_stack_def)
      have both: "both = (ss ! i)\<lparr>st_units := st_units (ss ! i) + st_units s\<rparr>"
          "st_units (ss ! i) + st_units s < u32_limit" using Inr by (auto simp: stack_merge_Inr)
      have "real_stack (ss ! i)" using assms(1) i(1) by (simp add: consolidated_ok_def)
      then have "consolidated_ok (ss[i := both])"
        using assms(1) i both set_update_subset_insert [of ss i both]
        by (auto simp: consolidated_ok_def map_update_id real_stack_def stack_is_empty_def)
      moreover have "weights P (ss[i := both]) = weights P ss + weight P s"
        using weights_update [OF i(1), of P both] i(2) both(1) by (simp add: weight_def split: if_splits)
      ultimately show ?thesis using c True by simp
    qed
  qed
next
  case False
  then show ?thesis using assms(1) by (auto simp: consolidate_step_def real_stack_def)
qed

lemma consolidate_fold:
  assumes "consolidated_ok ss" and "\<forall>s \<in> set ts. st_units s < u32_limit"
  shows "consolidated_ok (fold consolidate_step ts ss) \<and>
    weights P (fold consolidate_step ts ss) = weights P ss + weights P (filter real_stack ts)"
  using assms
proof (induction ts arbitrary: ss)
  case (Cons t ts)
  have "consolidated_ok (consolidate_step t ss)"
      "weights P (consolidate_step t ss) = weights P ss + (if real_stack t then weight P t else 0)"
    using consolidate_step_correct [OF Cons.prems(1), of t P] Cons.prems(2) by simp_all
  then show ?case using Cons.IH [of "consolidate_step t ss"] Cons.prems(2) by simp
qed simp

section \<open>Spending\<close>

definition spendable :: "material_id \<Rightarrow> stack_key \<Rightarrow> bool" where
  "spendable m k \<longleftrightarrow> sk_material k = m \<and> sk_cells k = None"

lemma weight_spendable:
  "weight (spendable m) s = (if st_material s = m \<and> st_cells s = None then st_units s else 0)"
  by (simp add: weight_def spendable_def key_of_stack_def)

lemma debit_loop_correct:
  assumes "debit_loop ss m n = (ts, r)"
  shows "r + min n (weights (spendable m) ss) = n \<and>
    weights (spendable m) ts + (n - r) = weights (spendable m) ss \<and>
    (\<forall>Q. (\<forall>k. spendable m k \<longrightarrow> \<not> Q k) \<longrightarrow> weights Q ts = weights Q ss)"
  using assms
proof (induction ss m n arbitrary: ts r rule: debit_loop.induct)
  case (2 s rest m n)
  consider "n = 0" | "0 < n" "st_material s \<noteq> m \<or> st_cells s \<noteq> None"
    | "0 < n" "st_material s = m" "st_cells s = None" by auto
  then show ?case
  proof cases
    case 1
    then show ?thesis using "2.prems" by simp
  next
    case 2
    then obtain ts' where l: "debit_loop rest m n = (ts', r)" "ts = s # ts'"
      using "2.prems" by (auto split: prod.splits)
    have "weight (spendable m) s = 0" using 2(2) by (auto simp: weight_spendable)
    then show ?thesis using "2.IH"(1) [OF _ 2(2) l(1)] 2(1) l(2) by simp
  next
    case 3
    define taken where "taken = min (st_units s) n"
    obtain ts' where l: "debit_loop rest m (n - taken) = (ts', r)"
        "ts = s\<lparr>st_units := st_units s - taken\<rparr> # ts'"
      using "2.prems" 3 by (auto simp: taken_def Let_def split: prod.splits)
    have s: "spendable m (key_of_stack s)" using 3 by (simp add: spendable_def key_of_stack_def)
    have "r + min (n - taken) (weights (spendable m) rest) = n - taken \<and>
      weights (spendable m) ts' + (n - taken - r) = weights (spendable m) rest \<and>
      (\<forall>Q. (\<forall>k. spendable m k \<longrightarrow> \<not> Q k) \<longrightarrow> weights Q ts' = weights Q rest)"
      using "2.IH"(2) [OF _ _ taken_def l(1)] 3 by simp
    moreover have "weight (spendable m) s = st_units s" "taken \<le> st_units s" "taken \<le> n"
        "taken = st_units s \<or> taken = n"
      using s by (auto simp: weight_def taken_def)
    ultimately show ?thesis unfolding l(2) using s by (auto simp: weight_def)
  qed
qed simp

lemma weights_filter_nonempty: "weights P (filter (\<lambda>s. \<not> stack_is_empty s) ss) = weights P ss"
  by (induction ss) (auto simp: stack_is_empty_def weight_def)

section \<open>Uniqueness\<close>

text \<open>A sorted tally is determined by the amount of each material.\<close>

lemma amount_pos_iff: "loose_sorted ss \<Longrightarrow> 0 < amount ss m \<longleftrightarrow> m \<in> st_material ` set ss"
proof
  assume ls: "loose_sorted ss"
  { assume "m \<in> st_material ` set ss"
    then obtain s where "s \<in> set ss" "m = st_material s" by blast
    then show "0 < amount ss m" using total_amount [OF ls] ls by (auto simp: loose_sorted_def) }
  assume "0 < amount ss m"
  then show "m \<in> st_material ` set ss" by (induction ss) (auto split: if_splits)
qed

lemma loose_sorted_unique:
  assumes "loose_sorted ss" and "loose_sorted ts" and "\<And>m. m \<noteq> AIR \<Longrightarrow> amount ss m = amount ts m"
  shows "ss = ts"
proof -
  have mem: "st_material ` set ss = st_material ` set ts"
  proof -
    have "AIR \<notin> st_material ` set us" if "loose_sorted us" for us
      using that by (auto simp: loose_sorted_def)
    then have "m \<in> st_material ` set ss \<longleftrightarrow> m \<in> st_material ` set ts" for m
      using amount_pos_iff [OF assms(1), of m] amount_pos_iff [OF assms(2), of m] assms by metis
    then show ?thesis by blast
  qed
  then have ms: "map st_material ss = map st_material ts"
    using assms(1,2) by (intro strict_sorted_equal) (auto simp: loose_sorted_def)
  show ?thesis
  proof (rule nth_equalityI)
    show "length ss = length ts" using map_eq_imp_length_eq [OF ms] .
    fix i assume i: "i < length ss"
    then have it: "i < length ts" "st_material (ss ! i) = st_material (ts ! i)"
      using map_eq_imp_length_eq [OF ms] arg_cong [OF ms, of "\<lambda>l. l ! i"] by auto
    have "st_material (ss ! i) \<noteq> AIR" using assms(1) i by (simp add: loose_sorted_def)
    then have "st_units (ss ! i) = st_units (ts ! i)"
      using total_amount [OF assms(1), of "ss ! i"] total_amount [OF assms(2), of "ts ! i"]
        assms(3) [of "st_material (ss ! i)"] i it by simp
    moreover have "key_of_stack (ss ! i) = key_of_stack (ts ! i)"
      using assms(1,2) i it by (auto simp: loose_sorted_def)
    ultimately show "ss ! i = ts ! i" by (simp add: key_of_stack_def)
  qed
qed

text \<open>A merge within one list of stacks is refused only for an overflow, so a list whose total fits
  has each item once.\<close>

lemma consolidate_step_distinct:
  assumes "consolidated_ok ss" and "distinct (map key_of_stack ss)" and "total_units ss + st_units s < u32_limit"
  shows "distinct (map key_of_stack (consolidate_step s ss))"
proof (cases "real_stack s")
  case True
  let ?ks = "map key_of_stack ss"
  have sorted: "sorted ?ks" using assms(1) by (simp add: consolidated_ok_def)
  show ?thesis
  proof (cases "binary_search ?ks (key_of_stack s)")
    case (Inl i)
    then have "consolidate_step s ss = take i ss @ s # drop i ss"
      using True by (simp add: consolidate_step_def real_stack_def)
    moreover have "key_of_stack s \<notin> set ?ks" using binary_search_insert [OF sorted Inl] by blast
    moreover have "distinct (take i ?ks @ drop i ?ks)" using assms(2) by simp
    ultimately show ?thesis
      by (auto simp: distinct_append take_map drop_map simp del: append_take_drop_id dest: in_set_takeD in_set_dropD)
  next
    case (Inr i)
    then have i: "i < length ss" "key_of_stack (ss ! i) = key_of_stack s"
      using binary_search_found [OF sorted Inr] by auto
    have "st_units (ss ! i) \<le> total_units ss"
      using i(1) by (auto simp: total_units_def intro!: member_le_sum_list)
    then have "stack_merge (ss ! i) s = Inr ((ss ! i)\<lparr>st_units := st_units (ss ! i) + st_units s\<rparr>)"
      using i(2) assms(3) by (simp add: stack_merge_Inr)
    then have "consolidate_step s ss = ss[i := (ss ! i)\<lparr>st_units := st_units (ss ! i) + st_units s\<rparr>]"
      using True Inr by (simp add: consolidate_step_def real_stack_def)
    then show ?thesis using assms(2) i(1) by (simp add: map_update_id)
  qed
qed (use assms(2) in \<open>auto simp: consolidate_step_def real_stack_def\<close>)

lemma consolidate_fold_distinct:
  assumes "consolidated_ok ss" and "distinct (map key_of_stack ss)" and "total_units ss + total_units ts < u32_limit"
  shows "distinct (map key_of_stack (fold consolidate_step ts ss))"
  using assms
proof (induction ts arbitrary: ss)
  case (Cons t ts)
  have u: "st_units t < u32_limit" "total_units ss + st_units t < u32_limit"
    using Cons.prems(3) by (simp_all add: total_units_def)
  have "consolidated_ok (consolidate_step t ss)" "total_units (consolidate_step t ss) \<le> total_units ss + st_units t"
    using consolidate_step_correct [OF Cons.prems(1) u(1), of "\<lambda>_. True"]
    by (auto simp: weights_True weight_def split: if_splits)
  then show ?case
    using Cons.IH [of "consolidate_step t ss"] consolidate_step_distinct [OF Cons.prems(1,2) u(2)] Cons.prems(3)
    by (simp add: total_units_def)
qed simp

end
