(* ===== verification/Slots_Laws.thy ===== *)
theory Slots_Laws
  imports Slots Stack_Laws
begin

text \<open>
  The laws of the slot operations: every operation keeps the state well formed (no slot holds an
  empty stack or more than a \<open>u32\<close>) and accounts for every unit of every item. The loops are treated
  first, on plain lists of slots, then the operations on the whole state.
\<close>

named_theorems slot_weight \<open>how much of an item a list of slots holds after an update\<close>

section \<open>Lists of slots\<close>

definition slot_weight1 :: "(stack_key \<Rightarrow> bool) \<Rightarrow> stack option \<Rightarrow> nat" where
  "slot_weight1 P x = (case x of None \<Rightarrow> 0 | Some s \<Rightarrow> weight P s)"

definition slots_weight :: "(stack_key \<Rightarrow> bool) \<Rightarrow> stack option list \<Rightarrow> nat" where
  "slots_weight P xs = (\<Sum>x\<leftarrow>xs. slot_weight1 P x)"

definition slot_ok :: "stack option \<Rightarrow> bool" where
  "slot_ok x \<longleftrightarrow> (case x of None \<Rightarrow> True | Some s \<Rightarrow> stack_ok s)"

definition slots_ok :: "stack option list \<Rightarrow> bool" where
  "slots_ok xs \<longleftrightarrow> (\<forall>x \<in> set xs. slot_ok x)"

lemma slot_simps [simp]:
  "slot_weight1 P None = 0" "slot_weight1 P (Some s) = weight P s" "slot_ok None" "slot_ok (Some s) = stack_ok s"
  by (simp_all add: slot_weight1_def slot_ok_def)

lemma slots_simps [simp]:
  "slots_weight P [] = 0" "slots_weight P (x # xs) = slot_weight1 P x + slots_weight P xs"
  "slots_weight P (xs @ ys) = slots_weight P xs + slots_weight P ys"
  "slots_ok []" "slots_ok (xs @ ys) \<longleftrightarrow> slots_ok xs \<and> slots_ok ys" "slots_ok (x # xs) \<longleftrightarrow> slot_ok x \<and> slots_ok xs"
  by (auto simp: slots_weight_def slots_ok_def)

lemma slots_weight_update [slot_weight]:
  "i < length xs \<Longrightarrow> slots_weight P (xs[i := x]) + slot_weight1 P (xs ! i) = slots_weight P xs + slot_weight1 P x"
  by (subst (3) split_at [of i xs], assumption) (simp add: upd_conv_take_nth_drop)

lemma slots_ok_update: "slots_ok xs \<Longrightarrow> slot_ok x \<Longrightarrow> slots_ok (xs[i := x])"
  unfolding slots_ok_def using set_update_subset_insert [of xs i x] by auto

lemma slots_ok_nth: "slots_ok xs \<Longrightarrow> i < length xs \<Longrightarrow> slot_ok (xs ! i)"
  by (simp add: slots_ok_def)

lemma slots_ok_Some: "slots_ok xs \<Longrightarrow> i < length xs \<Longrightarrow> xs ! i = Some s \<Longrightarrow> stack_ok s"
  using slots_ok_nth by fastforce

lemma weight_units_le: "weight P s = (if P (key_of_stack s) then st_units s else 0)"
  by (simp add: weight_def)

lemma unless_empty_weight [simp]: "slot_weight1 P (unless_empty s) = weight P s"
  by (simp add: unless_empty_def stack_is_empty_def weight_def)

lemma unless_empty_ok: "st_units s < u32_limit \<Longrightarrow> st_shape s \<noteq> Some 0 \<Longrightarrow> slot_ok (unless_empty s)"
  by (auto simp: unless_empty_def stack_is_empty_def stack_ok_def)

section \<open>Pouring\<close>

text \<open>What is left of a stack is the same item, and no more of it than before.\<close>

definition less_of :: "stack \<Rightarrow> stack \<Rightarrow> bool" where
  "less_of s t \<longleftrightarrow> key_of_stack s = key_of_stack t \<and> st_units s \<le> st_units t"

lemma less_of_refl [simp]: "less_of s s"
  by (simp add: less_of_def)

lemma less_of_trans: "less_of a b \<Longrightarrow> less_of b c \<Longrightarrow> less_of a c"
  by (simp add: less_of_def)

lemma less_of_ok: "less_of s t \<Longrightarrow> stack_ok t \<Longrightarrow> \<not> stack_is_empty s \<Longrightarrow> stack_ok s"
  by (auto simp: less_of_def stack_ok_def stack_is_empty_def dest: same_key_shape)

lemma same_item_less_of: "less_of s t \<Longrightarrow> same_item x s \<longleftrightarrow> same_item x t"
  by (simp add: less_of_def same_item_def)

lemma pour_correct:
  assumes "stack_ok slot" and "stack_ok stack" and "same_item slot stack"
    and "pour items room slot stack = (slot', stack')"
  shows "stack_ok slot' \<and> less_of stack' stack \<and> key_of_stack slot' = key_of_stack slot \<and>
    st_units slot' \<le> max (st_units slot) (st_units slot + room) \<and>
    weight P slot' + weight P stack' = weight P slot + weight P stack"
proof -
  define n where "n = takeable_by stack (grain_for items stack) room"
  have n: "n \<le> st_units stack" "n \<le> room" using takeable_by_le unfolding n_def by blast+
  have keys: "key_of_stack slot = key_of_stack stack" using assms(3) by (simp add: same_item_def)
  show ?thesis
  proof (cases "0 < n \<and> st_units slot + n < u32_limit")
    case True
    then have "stack_merge slot (stack\<lparr>st_units := n\<rparr>) = Inr (slot\<lparr>st_units := st_units slot + n\<rparr>)"
      using keys by (simp add: stack_merge_Inr)
    then have "pour items room slot stack =
        (slot\<lparr>st_units := st_units slot + n\<rparr>, stack\<lparr>st_units := st_units stack - n\<rparr>)"
      using True n by (simp add: pour_def Let_def n_def [symmetric] stack_split_le)
    then show ?thesis using assms True n keys
      by (auto simp: less_of_def stack_ok_def weight_def)
  next
    case False
    have "pour items room slot stack = (slot, stack)"
    proof (cases "n = 0")
      case False
      then have big: "u32_limit \<le> st_units slot + n" using \<open>\<not> (0 < n \<and> _)\<close> by simp
      obtain e where e: "stack_merge slot (stack\<lparr>st_units := n\<rparr>) = Inl e"
        using stack_merge_Inr [of slot "stack\<lparr>st_units := n\<rparr>"] big
        by (cases "stack_merge slot (stack\<lparr>st_units := n\<rparr>)") auto
      have "stack_merge (stack\<lparr>st_units := st_units stack - n\<rparr>) (stack\<lparr>st_units := n\<rparr>) = Inr stack"
        using n assms(2) by (simp add: stack_merge_Inr stack_ok_def)
      then show ?thesis using False e n by (simp add: pour_def Let_def n_def [symmetric] stack_split_le)
    qed (simp add: pour_def Let_def n_def [symmetric])
    then show ?thesis using assms by (auto simp: less_of_def)
  qed
qed

definition poured :: "nat list \<Rightarrow> stack option list \<Rightarrow> stack \<Rightarrow> stack option list \<Rightarrow> stack \<Rightarrow> bool" where
  "poured is xs st xs' st' \<longleftrightarrow> length xs' = length xs \<and> slots_ok xs' \<and> less_of st' st \<and>
     (\<forall>j < length xs. xs' ! j = None \<longrightarrow> xs ! j = None) \<and>
     (\<forall>j < length xs. j \<notin> set is \<longrightarrow> xs' ! j = xs ! j) \<and>
     (\<forall>P. slots_weight P xs' + weight P st' = slots_weight P xs + weight P st)"

lemma poured_trans:
  assumes "poured is xs st ys st1" and "poured js ys st1 zs st2" and "set is \<union> set js \<subseteq> set ks"
  shows "poured ks xs st zs st2"
  using assms less_of_trans unfolding poured_def by fastforce

lemma poured_refl: "slots_ok xs \<Longrightarrow> poured is xs st xs st"
  by (simp add: poured_def)

lemma poured_step:
  assumes "slots_ok xs" and "i < length xs" and "slot_ok x" and "less_of st' st"
    and "x = None \<Longrightarrow> xs ! i = None"
    and "\<And>P. slot_weight1 P x + weight P st' = slot_weight1 P (xs ! i) + weight P st"
  shows "poured [i] xs st (xs[i := x]) st'"
  unfolding poured_def
proof (intro conjI allI)
  fix P
  show "slots_weight P (xs[i := x]) + weight P st' = slots_weight P xs + weight P st"
    using slots_weight_update [OF assms(2), of P x] assms(6) [of P] by linarith
qed (use assms in \<open>auto simp: slots_ok_update nth_list_update\<close>)

lemma top_up_poured:
  assumes "slots_ok xs" and "stack_ok st" and "\<forall>i \<in> set is. i < length xs"
    and "top_up items room is xs st = (xs', st')"
  shows "poured is xs st xs' st'"
  using assms
proof (induction items room "is" xs st arbitrary: xs' st' rule: top_up.induct)
  case (2 items room i "is" xs st)
  have i: "i < length xs" using "2.prems"(3) by simp
  have skip: "poured is xs st xs' st' \<Longrightarrow> ?case"
    using poured_trans [OF poured_refl [OF "2.prems"(1)]] by (metis Un_upper2 empty_set le_sup_iff list.set_intros set_subset_Cons subsetI)
  show ?case
  proof (cases "xs ! i")
    case None
    then show ?thesis using "2.IH"(1) "2.prems" by (intro skip) simp
  next
    case (Some slot)
    show ?thesis
    proof (cases "same_item slot st")
      case False
      then show ?thesis using "2.IH"(2) [OF Some] "2.prems" Some by (intro skip) simp
    next
      case True
      obtain slot' st1 where p: "pour items (room slot) slot st = (slot', st1)" by fastforce
      have ok: "stack_ok slot" using slots_ok_Some [OF "2.prems"(1) i Some] .
      note c = pour_correct [OF ok "2.prems"(2) True p]
      have step: "poured [i] xs st (xs[i := Some slot']) st1"
        by (rule poured_step) (use "2.prems"(1) i c Some in auto)
      show ?thesis
      proof (cases "stack_is_empty st1")
        case True
        then have "xs' = xs[i := Some slot']" "st' = st1"
          using "2.prems"(4) Some \<open>same_item slot st\<close> p by (simp_all add: Let_def)
        then show ?thesis using poured_trans [OF step poured_refl [of _ "[]"]] step
          by (simp add: poured_def)
      next
        case False
        then have t: "top_up items room is (xs[i := Some slot']) st1 = (xs', st')"
          using "2.prems"(4) Some True p by (simp add: Let_def)
        have "poured is (xs[i := Some slot']) st1 xs' st'"
        proof (rule "2.IH"(3) [OF Some _ p [symmetric] refl refl False _ _ _ t])
          show "slots_ok (xs[i := Some slot'])" using step by (simp add: poured_def)
          show "stack_ok st1" using c "2.prems"(2) False less_of_ok by blast
        qed (use True "2.prems"(3) in auto)
        then show ?thesis using poured_trans [OF step, of "is" xs' st' "i # is"] by auto
      qed
    qed
  qed
qed (simp add: poured_refl)

section \<open>Laying out over empty slots\<close>

lemma split_part_poured:
  assumes "slots_ok xs" and "stack_ok st" and "i < length xs" and "xs ! i = None"
    and "0 < n" and "n \<le> st_units st"
  shows "poured [i] xs st (xs[i := Some (st\<lparr>st_units := n\<rparr>)]) (st\<lparr>st_units := st_units st - n\<rparr>)"
  by (rule poured_step) (use assms in \<open>auto simp: stack_ok_def less_of_def weight_def\<close>)

lemma fill_empty_poured:
  assumes "slots_ok xs" and "st_units st < u32_limit \<and> st_shape st \<noteq> Some 0" and "\<forall>i \<in> set is. i < length xs" and "0 < cap"
    and "fill_empty cap is xs st = (xs', st')"
  shows "poured is xs st xs' st'"
  using assms
proof (induction cap "is" xs st arbitrary: xs' st' rule: fill_empty.induct)
  case (2 cap i "is" xs st)
  have i: "i < length xs" using "2.prems"(3) by simp
  consider "stack_is_empty st" | "\<not> stack_is_empty st" "xs ! i \<noteq> None" | "\<not> stack_is_empty st" "xs ! i = None"
    by blast
  then show ?case
  proof cases
    case 1
    then show ?thesis using "2.prems"(1,5) poured_refl by simp
  next
    case 2
    then have "poured is xs st xs' st'" using "2.IH"(1) "2.prems" by simp
    then show ?thesis by (auto simp: poured_def)
  next
    case 3
    let ?n = "min (st_units st) cap"
    let ?part = "st\<lparr>st_units := ?n\<rparr>" and ?rest = "st\<lparr>st_units := st_units st - ?n\<rparr>"
    have s: "stack_split st ?n = Inr (?rest, ?part)" by (simp add: stack_split_le)
    have n: "0 < ?n" using 3(1) "2.prems"(4) by (simp add: stack_is_empty_def)
    have step: "poured [i] xs st (xs[i := Some ?part]) ?rest"
      by (rule split_part_poured) (use "2.prems"(1,2) i 3 n in \<open>auto simp: stack_ok_def\<close>)
    have "poured is (xs[i := Some ?part]) ?rest xs' st'"
    proof (rule "2.IH"(2) [OF 3(1) _ s refl])
      show "slots_ok (xs[i := Some ?part])" using step by (simp add: poured_def)
      show "fill_empty cap is (xs[i := Some ?part]) ?rest = (xs', st')"
        using "2.prems"(5) 3 s by simp
    qed (use 3 "2.prems" in auto)
    then show ?thesis using poured_trans [OF step, of "is" xs' st' "i # is"] by auto
  qed
qed (simp add: poured_refl)

lemma insert_rest_correct:
  assumes "slots_ok xs" and "st_units st < u32_limit \<and> st_shape st \<noteq> Some 0" and "insert_rest fixed cap grain xs st = (xs', left)"
  shows "slots_ok xs' \<and> length xs \<le> length xs' \<and> (fixed \<longrightarrow> length xs' = length xs) \<and>
    (\<forall>l. left = Some l \<longrightarrow> less_of l st \<and> stack_ok l) \<and>
    slots_weight P xs' + slot_weight1 P left = slots_weight P xs + weight P st"
  using assms
proof (induction fixed cap grain xs st arbitrary: xs' left rule: insert_rest.induct)
  case (1 fixed cap grain xs st)
  define n where "n = takeable_by st grain cap"
  have n: "n \<le> st_units st" using takeable_by_le n_def by blast
  let ?part = "st\<lparr>st_units := n\<rparr>" and ?rest = "st\<lparr>st_units := st_units st - n\<rparr>"
  note eq = insert_rest.simps [of fixed cap grain xs st, folded n_def, unfolded Let_def]
  have s: "stack_split st n = Inr (?rest, ?part)" using n by (simp add: stack_split_le)
  have r: "st_units ?rest < u32_limit \<and> st_shape ?rest \<noteq> Some 0" using "1.prems"(2) by auto
  have parts: "weight P ?part + weight P ?rest = weight P st" using n by (simp add: weight_def)
  consider "stack_is_empty st" | "\<not> stack_is_empty st" "n = 0 \<or> position (\<lambda>x. x = None) xs = None \<and> fixed"
    | "\<not> stack_is_empty st" "n \<noteq> 0" "position (\<lambda>x. x = None) xs = None" "\<not> fixed"
    | i where "\<not> stack_is_empty st" "n \<noteq> 0" "position (\<lambda>x. x = None) xs = Some i"
    by (metis option.exhaust)
  then show ?case
  proof cases
    case 1
    then show ?thesis using "1.prems" eq by (auto simp: stack_is_empty_def weight_def)
  next
    case 2
    then have "xs' = xs" "left = Some st" using "1.prems"(3) eq by (auto split: if_splits option.splits)
    then show ?thesis using "1.prems" 2(1) by (simp add: stack_ok_def stack_is_empty_def)
  next
    case 3
    have ok: "slots_ok (xs @ [Some ?part])" using "1.prems"(1,2) 3(2) n by (simp add: stack_ok_def)
    have "insert_rest fixed cap grain (xs @ [Some ?part]) ?rest = (xs', left)"
      using "1.prems"(3) 3 eq s by simp
    then have "slots_ok xs' \<and> length (xs @ [Some ?part]) \<le> length xs' \<and>
      (fixed \<longrightarrow> length xs' = length (xs @ [Some ?part])) \<and>
      (\<forall>l. left = Some l \<longrightarrow> less_of l ?rest \<and> stack_ok l) \<and>
      slots_weight P xs' + slot_weight1 P left = slots_weight P (xs @ [Some ?part]) + weight P ?rest"
      by (rule "1.IH"(1) [OF 3(1) n_def 3(2,3,4) s refl ok r])
    then show ?thesis using parts 3(4) n by (auto simp: less_of_def)
  next
    case (4 i)
    have i: "i < length xs" "xs ! i = None" using position_Some [OF 4(3)] by simp_all
    have ok: "slots_ok (xs[i := Some ?part])"
      using "1.prems"(1,2) 4(2) n by (intro slots_ok_update) (simp_all add: stack_ok_def)
    have "insert_rest fixed cap grain (xs[i := Some ?part]) ?rest = (xs', left)"
      using "1.prems"(3) 4 eq s by simp
    then have "slots_ok xs' \<and> length (xs[i := Some ?part]) \<le> length xs' \<and>
      (fixed \<longrightarrow> length xs' = length (xs[i := Some ?part])) \<and>
      (\<forall>l. left = Some l \<longrightarrow> less_of l ?rest \<and> stack_ok l) \<and>
      slots_weight P xs' + slot_weight1 P left = slots_weight P (xs[i := Some ?part]) + weight P ?rest"
      by (rule "1.IH"(2) [OF 4(1) n_def 4(2,3) s refl ok r])
    moreover have "slots_weight P (xs[i := Some ?part]) = slots_weight P xs + weight P ?part"
      using slots_weight_update [OF i(1), of P "Some ?part"] i(2) by simp
    ultimately show ?thesis using parts n by (auto simp: less_of_def)
  qed
qed

text \<open>A view that may grow takes all of a stack that moves by the unit.\<close>

lemma insert_rest_all:
  assumes "insert_rest fixed cap grain xs st = (xs', left)" and "\<not> fixed" and "grain \<le> 1" and "0 < cap"
  shows "left = None"
  using assms
proof (induction fixed cap grain xs st arbitrary: xs' left rule: insert_rest.induct)
  case (1 fixed cap grain xs st)
  define n where "n = takeable_by st grain cap"
  have n: "n = min (st_units st) cap" using "1.prems"(3) by (simp add: n_def takeable_by_def max_absorb2)
  note eq = insert_rest.simps [of fixed cap grain xs st, folded n_def, unfolded Let_def]
  have s: "stack_split st n = Inr (st\<lparr>st_units := st_units st - n\<rparr>, st\<lparr>st_units := n\<rparr>)"
    by (simp add: n stack_split_le)
  show ?case
  proof (cases "stack_is_empty st")
    case False
    then have n0: "n \<noteq> 0" using "1.prems"(4) n by (simp add: stack_is_empty_def)
    show ?thesis
    proof (cases "position (\<lambda>x. x = None) xs")
      case None
      have "insert_rest fixed cap grain (xs @ [Some (st\<lparr>st_units := n\<rparr>)]) (st\<lparr>st_units := st_units st - n\<rparr>) = (xs', left)"
        using "1.prems"(1,2) False n0 eq s None by simp
      then show ?thesis using "1.IH"(1) [OF False n_def n0 None "1.prems"(2) s refl _ "1.prems"(2-4)] by blast
    next
      case (Some i)
      have "insert_rest fixed cap grain (xs[i := Some (st\<lparr>st_units := n\<rparr>)]) (st\<lparr>st_units := st_units st - n\<rparr>) = (xs', left)"
        using "1.prems"(1,2) False n0 eq s Some by simp
      then show ?thesis using "1.IH"(2) [OF False n_def n0 Some s refl _ "1.prems"(2-4)] by blast
    qed
  qed (use "1.prems"(1) eq in simp)
qed

section \<open>Taking out\<close>

lemma draw_loop_correct:
  assumes "slots_ok xs" and "\<forall>i \<in> set is. i < length xs" and "draw_loop items which is xs n = (xs', left)"
  shows "length xs' = length xs \<and> slots_ok xs' \<and> left \<le> n \<and>
    slots_weight P xs' + (if P which then n - left else 0) = slots_weight P xs"
  using assms
proof (induction items which "is" xs n arbitrary: xs' left rule: draw_loop.induct)
  case (2 items which i "is" xs n)
  have i: "i < length xs" using "2.prems"(2) by simp
  show ?case
  proof (cases "n = 0")
    case False
    show ?thesis
    proof (cases "xs ! i")
      case None
      then show ?thesis using "2.IH"(1) [OF False None "2.prems"(1)] "2.prems" False by simp
    next
      case (Some st)
      show ?thesis
      proof (cases "key_matches which st")
        case False
        then show ?thesis using "2.IH"(2) [OF \<open>n \<noteq> 0\<close> Some False "2.prems"(1)] "2.prems" Some \<open>n \<noteq> 0\<close> by simp
      next
        case True
        define k where "k = takeable_by st (grain_for items st) n"
        have k: "k \<le> st_units st" "k \<le> n" using takeable_by_le unfolding k_def by blast+
        let ?part = "st\<lparr>st_units := k\<rparr>" and ?rest = "st\<lparr>st_units := st_units st - k\<rparr>"
        have s: "stack_split st (takeable_by st (grain_for items st) n) = Inr (?rest, ?part)"
          using k(1) by (simp add: stack_split_le k_def [symmetric])
        have st: "stack_ok st" using slots_ok_Some [OF "2.prems"(1) i Some] .
        have ok: "slots_ok (xs[i := unless_empty ?rest])"
          using st "2.prems"(1) by (intro slots_ok_update unless_empty_ok) (auto simp: stack_ok_def)
        have d: "draw_loop items which is (xs[i := unless_empty ?rest]) (n - st_units ?part) = (xs', left)"
          using "2.prems"(3) False Some True s by simp
        have "length xs' = length (xs[i := unless_empty ?rest]) \<and> slots_ok xs' \<and> left \<le> n - st_units ?part \<and>
          slots_weight P xs' + (if P which then n - st_units ?part - left else 0) =
            slots_weight P (xs[i := unless_empty ?rest])"
          by (rule "2.IH"(4) [OF False Some _ s refl ok _ d]) (use True "2.prems"(2) in auto)
        moreover have "slots_weight P (xs[i := unless_empty ?rest]) + weight P st =
            slots_weight P xs + weight P ?rest"
          using slots_weight_update [OF i, of P "unless_empty ?rest"] Some by simp
        moreover have "weight P st = weight P ?rest + (if P which then k else 0)"
          using k(1) True by (auto simp: weight_def key_matches_def)
        ultimately show ?thesis using k by auto
      qed
    qed
  qed (use "2.prems" in simp)
qed simp

section \<open>The whole state\<close>

definition slots_inv :: "slots \<Rightarrow> bool" where
  "slots_inv s \<longleftrightarrow> (\<forall>v \<in> set (sl_views s). slots_ok (vw_slots v)) \<and> slot_ok (cursor s)"

definition holds :: "(stack_key \<Rightarrow> bool) \<Rightarrow> slots \<Rightarrow> nat" where
  "holds P s = (\<Sum>v\<leftarrow>sl_views s. slots_weight P (vw_slots v)) + slot_weight1 P (cursor s)"

lemma holds_total: "holds (\<lambda>_. True) s = slots_total_units s"
proof -
  have w: "weight (\<lambda>_. True) = st_units" by (simp add: fun_eq_iff weight_def)
  have "slots_weight (\<lambda>_. True) (vw_slots v) = view_total_units v" for v
    unfolding slots_weight_def view_total_units_def slot_weight1_def w ..
  then show ?thesis unfolding holds_def slots_total_units_def slot_weight1_def w by simp
qed

text \<open>The names and sizes of the views: what no click may change.\<close>

definition layout :: "slots \<Rightarrow> (string \<times> nat) list" where
  "layout s = map (\<lambda>v. (vw_name v, length (vw_slots v))) (sl_views s)"

lemma index_of_Some: "index_of s name = Some at \<Longrightarrow> at < length (sl_views s) \<and> vw_name (sl_views s ! at) = name"
  unfolding index_of_def using position_Some by fastforce

lemma locate_Some:
  "locate s name i = Some at \<Longrightarrow>
     at < length (sl_views s) \<and> vw_name (sl_views s ! at) = name \<and> i < length (view_at s at)"
  by (auto simp: locate_def bind_eq_Some_conv dest!: index_of_Some split: if_splits)

lemma slots_inv_view: "slots_inv s \<Longrightarrow> at < length (sl_views s) \<Longrightarrow> slots_ok (view_at s at)"
  by (simp add: slots_inv_def)

lemma set_view_simps [simp]:
  "cursor (set_view s at xs) = cursor s" "sl_items (set_view s at xs) = sl_items s"
  "sl_main_fixed (set_view s at xs) = sl_main_fixed s" "sl_grain (set_view s at xs) = sl_grain s"
  "length (sl_views (set_view s at xs)) = length (sl_views s)"
  "at < length (sl_views s) \<Longrightarrow> sl_views (set_view s at xs) ! j =
     (if j = at then (sl_views s ! at)\<lparr>vw_slots := xs\<rparr> else sl_views s ! j)"
  "cursor (set_cursor s h) = h" "sl_views (set_cursor s h) = sl_views s" "sl_items (set_cursor s h) = sl_items s"
  "sl_main_fixed (set_cursor s h) = sl_main_fixed s"
  by (auto simp: set_view_def set_cursor_def nth_list_update)

lemma slots_inv_set_view: "slots_inv s \<Longrightarrow> slots_ok xs \<Longrightarrow> slots_inv (set_view s at xs)"
  unfolding slots_inv_def set_view_def
  using set_update_subset_insert [of "sl_views s" at "(sl_views s ! at)\<lparr>vw_slots := xs\<rparr>"] by auto

lemma slots_inv_set_cursor [simp]:
  "slots_inv (set_cursor s h) \<longleftrightarrow> (\<forall>v \<in> set (sl_views s). slots_ok (vw_slots v)) \<and> slot_ok h"
  by (simp add: slots_inv_def)

lemma holds_set_view:
  assumes "at < length (sl_views s)"
  shows "holds P (set_view s at xs) + slots_weight P (view_at s at) = holds P s + slots_weight P xs"
  unfolding holds_def set_view_simps set_view_def slots.simps
  by (subst (3) split_at [OF assms]) (simp add: upd_conv_take_nth_drop [OF assms])

lemma holds_set_cursor: "holds P (set_cursor s h) + slot_weight1 P (cursor s) = holds P s + slot_weight1 P h"
  by (simp add: holds_def)

lemma layout_set_view: "length xs = length (view_at s at) \<Longrightarrow> layout (set_view s at xs) = layout s"
  by (cases "at < length (sl_views s)")
    (simp_all add: layout_def set_view_def map_update list_update_same_conv list_update_beyond)

lemma layout_set_cursor [simp]: "layout (set_cursor s h) = layout s"
  by (simp add: layout_def)

section \<open>What every operation does\<close>

text \<open>An operation that neither adds nor removes: the invariant, the views and what is held of every
  item stay.\<close>

definition rearranged :: "slots \<Rightarrow> slots \<Rightarrow> bool" where
  "rearranged s s' \<longleftrightarrow> slots_inv s' \<and> layout s' = layout s \<and> sl_main_fixed s' = sl_main_fixed s \<and>
     sl_items s' = sl_items s \<and> (\<forall>P. holds P s' = holds P s)"

lemma rearranged_refl: "slots_inv s \<Longrightarrow> rearranged s s"
  by (simp add: rearranged_def)

lemma rearranged_slot:
  assumes "slots_inv s" and "at < length (sl_views s)" and "length xs = length (view_at s at)"
    and "slots_ok xs" and "slot_ok h"
    and "\<And>P. slots_weight P xs + slot_weight1 P h = slots_weight P (view_at s at) + slot_weight1 P (cursor s)"
  shows "rearranged s (set_cursor (set_view s at xs) h)"
proof -
  have "holds P (set_cursor (set_view s at xs) h) = holds P s" for P
    using holds_set_cursor [of P "set_view s at xs" h] holds_set_view [OF assms(2), of P xs] assms(6) [of P]
    by simp
  then show ?thesis using assms slots_inv_set_view [OF assms(1,4), of at]
    by (auto simp: rearranged_def layout_set_view slots_inv_def)
qed

lemma set_cursor_same [simp]: "set_cursor s (cursor s) = s"
  by (simp add: set_cursor_def)

lemma rearranged_view:
  assumes "slots_inv s" and "at < length (sl_views s)" and "length xs = length (view_at s at)"
    and "slots_ok xs" and "\<And>P. slots_weight P xs = slots_weight P (view_at s at)"
  shows "rearranged s (set_view s at xs)"
proof -
  have "rearranged s (set_cursor (set_view s at xs) (cursor s))"
    by (rule rearranged_slot) (use assms in \<open>auto simp: slots_inv_def\<close>)
  moreover have "set_cursor (set_view s at xs) (cursor s) = set_view s at xs"
    by (metis set_cursor_same set_view_simps(1))
  ultimately show ?thesis by simp
qed

text \<open>One slot and the cursor exchange what they hold.\<close>

lemma rearranged_exchange:
  assumes "slots_inv s" and "locate s view i = Some at" and "slot_ok x" and "slot_ok h"
    and "\<And>P. slot_weight1 P x + slot_weight1 P h = slot_weight1 P (view_at s at ! i) + slot_weight1 P (cursor s)"
  shows "rearranged s (set_cursor (set_view s at ((view_at s at)[i := x])) h)"
proof (rule rearranged_slot [OF assms(1)])
  note l = locate_Some [OF assms(2)]
  then show "at < length (sl_views s)" by simp
  show "slots_ok ((view_at s at)[i := x])" using slots_inv_view assms(1,3) l by (simp add: slots_ok_update)
  fix P
  show "slots_weight P ((view_at s at)[i := x]) + slot_weight1 P h =
      slots_weight P (view_at s at) + slot_weight1 P (cursor s)"
    using slots_weight_update [of i "view_at s at" P x] l assms(5) [of P] by simp
qed (simp_all add: assms(4))

lemma merge_or_swap_correct:
  assumes "stack_ok hand" and "stack_ok there" and "merge_or_swap hand there = (x, h)"
  shows "slot_ok x \<and> slot_ok h \<and> slot_weight1 P x + slot_weight1 P h = weight P there + weight P hand"
proof (cases "\<exists>m. same_item hand there \<and> stack_merge there hand = Inr m")
  case True
  then obtain m where m: "same_item hand there" "stack_merge there hand = Inr m" by blast
  then have "x = Some m" "h = None" using assms(3) by (simp_all add: merge_or_swap_def)
  then show ?thesis using m assms(1,2) by (auto simp: stack_merge_Inr stack_ok_def weight_def)
next
  case False
  then have "x = Some hand \<and> h = Some there \<or> x = Some there \<and> h = Some hand"
    using assms(3) unfolding merge_or_swap_def
    by (cases "stack_merge there hand") (simp_all split: if_splits)
  then show ?thesis using assms(1,2) by (elim disjE conjE) simp_all
qed

lemma remerge:
  "n \<le> st_units s \<Longrightarrow> st_units s < u32_limit \<Longrightarrow>
     stack_merge (s\<lparr>st_units := st_units s - n\<rparr>) (s\<lparr>st_units := n\<rparr>) = Inr s"
  by (simp add: stack_merge_Inr)

lemma place_one_correct:
  assumes "stack_ok hand" and "slot_ok there" and "place_one hand there grain = (x, h)"
  shows "slot_ok x \<and> slot_ok h \<and> slot_weight1 P x + slot_weight1 P h = slot_weight1 P there + weight P hand"
proof -
  define n where "n = min (max grain 1) (st_units hand)"
  let ?one = "hand\<lparr>st_units := n\<rparr>" and ?rest = "hand\<lparr>st_units := st_units hand - n\<rparr>"
  have n: "0 < n" "n \<le> st_units hand" using assms(1) by (auto simp: n_def stack_ok_def)
  have s: "stack_split hand (min (max grain 1) (st_units hand)) = Inr (?rest, ?one)"
    unfolding n_def [symmetric] using n(2) by (rule stack_split_le)
  have again: "stack_merge ?rest ?one = Inr hand" using remerge n assms(1) by (simp add: stack_ok_def)
  have rest: "slot_ok (unless_empty ?rest)" using assms(1) by (intro unless_empty_ok) (auto simp: stack_ok_def)
  have hand: "unless_empty hand = Some hand" using assms(1) by (simp add: unless_empty_def stack_is_empty_def stack_ok_def)
  show ?thesis
  proof (cases there)
    case None
    then show ?thesis using assms(1,3) s n rest by (auto simp: place_one_def stack_ok_def weight_def)
  next
    case (Some t)
    show ?thesis
    proof (cases "\<exists>m. same_item t ?one \<and> stack_merge t ?one = Inr m")
      case True
      then obtain m where m: "same_item t ?one" "stack_merge t ?one = Inr m" by blast
      then have "x = Some m" "h = unless_empty ?rest" using assms(3) s Some by (simp_all add: place_one_def)
      moreover have "stack_ok m" "weight P m = weight P t + weight P ?one"
        using m(2) assms(2) n Some by (auto simp: stack_merge_Inr stack_ok_def weight_def)
      ultimately show ?thesis using rest n(2) Some by (auto simp: weight_def)
    next
      case False
      then have "x = Some t" "h = Some hand"
        using assms(3) s Some again hand by (auto simp: place_one_def split: if_splits sum.splits)
      then show ?thesis using assms Some by auto
    qed
  qed
qed

lemma halves_sum: "halves n g = (behind, hand) \<Longrightarrow> behind + hand = n"
proof -
  let ?g = "max g 1"
  have "(n div ?g - n div ?g div 2) * ?g \<le> n div ?g * ?g" by (intro mult_le_mono1) simp
  also have "\<dots> \<le> n" by simp
  finally have "(n div ?g - n div ?g div 2) * ?g \<le> n" .
  then show "halves n g = (behind, hand) \<Longrightarrow> behind + hand = n"
    by (auto simp: halves_def Let_def split: if_splits)
qed

lemma split_half_correct:
  assumes "stack_ok st" and "split_half st grain = (x, h)"
  shows "slot_ok x \<and> slot_ok h \<and> slot_weight1 P x + slot_weight1 P h = weight P st"
proof -
  obtain behind hand where b: "halves (st_units st) grain = (behind, hand)" by fastforce
  note sum = halves_sum [OF b]
  have hand: "0 < hand"
  proof (cases "st_units st div max grain 1")
    case 0
    then show ?thesis using b assms(1) by (simp add: halves_def Let_def stack_ok_def)
  next
    case (Suc k)
    then show ?thesis using b by (auto simp: halves_def Let_def split: if_splits)
  qed
  have "stack_split st (st_units st - behind) = Inr (st\<lparr>st_units := behind\<rparr>, st\<lparr>st_units := hand\<rparr>)"
    using sum by (auto simp: stack_split_def)
  then have "x = unless_empty (st\<lparr>st_units := behind\<rparr>)" "h = Some (st\<lparr>st_units := hand\<rparr>)"
    using assms(2) b by (simp_all add: split_half_def)
  moreover have "slot_ok (unless_empty (st\<lparr>st_units := behind\<rparr>))"
    using assms(1) sum by (intro unless_empty_ok) (auto simp: stack_ok_def)
  ultimately show ?thesis using assms(1) sum hand by (auto simp: weight_def stack_ok_def)
qed

section \<open>Slots stay within one stack\<close>

definition within_cap :: "stack option list \<Rightarrow> bool" where
  "within_cap xs \<longleftrightarrow> (\<forall>s. Some s \<in> set xs \<longrightarrow> st_units s \<le> capacity s)"

lemma same_key_capacity: "key_of_stack s = key_of_stack t \<Longrightarrow> capacity s = capacity t"
  unfolding capacity_def by (drule same_key_shape) simp

lemma within_cap_update:
  "within_cap xs \<Longrightarrow> st_units s \<le> capacity s \<Longrightarrow> within_cap (xs[i := Some s])"
  unfolding within_cap_def using set_update_subset_insert [of xs i "Some s"] by auto

lemma pour_within:
  assumes "stack_ok slot" and "stack_ok st" and "same_item slot st" and "st_units slot \<le> capacity slot"
    and "pour items (slot_room slot) slot st = (slot', st')"
  shows "st_units slot' \<le> capacity slot'"
proof -
  have "st_units slot' \<le> capacity slot"
    using pour_correct [OF assms(1-3,5)] assms(4) by (auto simp: slot_room_def)
  moreover have "capacity slot' = capacity slot"
    using pour_correct [OF assms(1-3,5)] by (intro same_key_capacity) blast
  ultimately show ?thesis by simp
qed

lemma top_up_within:
  assumes "slots_ok xs" and "stack_ok st" and "\<forall>i \<in> set is. i < length xs" and "within_cap xs"
    and "top_up items slot_room is xs st = (xs', st')"
  shows "within_cap xs'"
  using assms
proof (induction items slot_room "is" xs st arbitrary: xs' st' rule: top_up.induct)
  case (2 items i "is" xs st)
  have i: "i < length xs" using "2.prems"(3) by simp
  show ?case
  proof (cases "\<exists>slot. xs ! i = Some slot \<and> same_item slot st")
    case True
    then obtain slot where slot: "xs ! i = Some slot" "same_item slot st" by blast
    obtain slot' st1 where p: "pour items (slot_room slot) slot st = (slot', st1)" by fastforce
    have ok: "stack_ok slot" using slots_ok_Some [OF "2.prems"(1) i slot(1)] .
    note c = pour_correct [OF ok "2.prems"(2) slot(2) p]
    have w: "within_cap (xs[i := Some slot'])"
      by (intro within_cap_update [OF "2.prems"(4)] pour_within [OF ok "2.prems"(2) slot(2) _ p])
        (use "2.prems"(4) slot(1) i in \<open>auto simp: within_cap_def intro: nth_mem dest: sym\<close>)
    show ?thesis
    proof (cases "stack_is_empty st1")
      case True
      then show ?thesis using "2.prems"(5) slot p w by (simp add: Let_def)
    next
      case False
      then have t: "top_up items slot_room is (xs[i := Some slot']) st1 = (xs', st')"
        using "2.prems"(5) slot p by (simp add: Let_def)
      show ?thesis
        by (rule "2.hyps"(3) [OF slot(1) _ p [symmetric] refl refl False _ _ _ w t])
          (use slot "2.prems" c False less_of_ok in \<open>auto intro: slots_ok_update\<close>)
    qed
  next
    case False
    then have "top_up items slot_room is xs st = (xs', st')"
      using "2.prems"(5) by (auto split: option.splits)
    moreover have "xs ! i = None \<or> (\<exists>slot. xs ! i = Some slot \<and> \<not> same_item slot st)" using False by auto
    ultimately show ?thesis using "2.hyps"(1,2) "2.prems" by (metis list.set_intros(2))
  qed
qed simp

lemma insert_rest_within:
  assumes "within_cap xs" and "cap \<le> capacity st" and "insert_rest fixed cap grain xs st = (xs', left)"
  shows "within_cap xs'"
  using assms
proof (induction fixed cap grain xs st arbitrary: xs' left rule: insert_rest.induct)
  case (1 fixed cap grain xs st)
  define n where "n = takeable_by st grain cap"
  have n: "n \<le> st_units st" "n \<le> cap" using takeable_by_le n_def by blast+
  let ?part = "st\<lparr>st_units := n\<rparr>" and ?rest = "st\<lparr>st_units := st_units st - n\<rparr>"
  note eq = insert_rest.simps [of fixed cap grain xs st, folded n_def, unfolded Let_def]
  have s: "stack_split st n = Inr (?rest, ?part)" using n by (simp add: stack_split_le)
  have part: "st_units ?part \<le> capacity ?part" "cap \<le> capacity ?rest"
    using n(2) "1.prems"(2) by (simp_all add: capacity_def)
  consider "xs' = xs"
    | "\<not> stack_is_empty st" "n \<noteq> 0" "position (\<lambda>x. x = None) xs = None" "\<not> fixed"
    | i where "\<not> stack_is_empty st" "n \<noteq> 0" "position (\<lambda>x. x = None) xs = Some i"
    using "1.prems"(3) eq by (cases "position (\<lambda>x. x = None) xs") (auto split: if_splits)
  then show ?case
  proof cases
    case 1
    then show ?thesis using "1.prems"(1) by simp
  next
    case 2
    have "insert_rest fixed cap grain (xs @ [Some ?part]) ?rest = (xs', left)"
      using "1.prems"(3) 2 eq s by simp
    moreover have "within_cap (xs @ [Some ?part])" using "1.prems"(1) part(1) by (auto simp: within_cap_def)
    ultimately show ?thesis using "1.IH"(1) [OF 2(1) n_def 2(2,3,4) s refl _ part(2)] by blast
  next
    case (3 i)
    have "insert_rest fixed cap grain (xs[i := Some ?part]) ?rest = (xs', left)"
      using "1.prems"(3) 3 eq s by simp
    moreover have "within_cap (xs[i := Some ?part])" using "1.prems"(1) part(1) by (rule within_cap_update)
    ultimately show ?thesis using "1.IH"(2) [OF 3(1) n_def 3(2,3) s refl _ part(2)] by blast
  qed
qed

end
