(* ===== verification/Slots_Ops.thy ===== *)
theory Slots_Ops
  imports Slots_Laws
begin

text \<open>
  Every operation on a player's slots, classified: clicks rearrange what is there, and the
  operations that add or remove account for exactly what crossed the boundary.
\<close>

section \<open>Clicks rearrange\<close>

lemma slots_inv_cursor: "slots_inv s \<Longrightarrow> cursor s = Some h \<Longrightarrow> stack_ok h"
  by (simp add: slots_inv_def)

lemma located_slot:
  assumes "slots_inv s" and "locate s view i = Some at"
  shows "slot_ok (view_at s at ! i)"
  using slots_ok_nth [OF slots_inv_view [OF assms(1)]] locate_Some [OF assms(2)] by blast

lemma left_click_rearranged:
  assumes "slots_inv s"
  shows "rearranged s (snd (left_click s view i))"
proof (cases "locate s view i")
  case (Some at)
  note slot = located_slot [OF assms Some]
  show ?thesis
  proof (cases "cursor s")
    case None
    show ?thesis
    proof (cases "view_at s at ! i")
      case None
      then show ?thesis using \<open>cursor s = None\<close> Some assms by (simp add: left_click_def rearranged_refl)
    next
      case (Some st)
      then show ?thesis using \<open>cursor s = None\<close> \<open>locate s view i = Some at\<close> slot
          rearranged_exchange [OF assms \<open>locate s view i = Some at\<close>, of None "Some st"]
        by (simp add: left_click_def)
    qed
  next
    case (Some hand)
    note hand = slots_inv_cursor [OF assms Some]
    show ?thesis
    proof (cases "view_at s at ! i")
      case None
      then show ?thesis using Some \<open>locate s view i = Some at\<close> hand
          rearranged_exchange [OF assms \<open>locate s view i = Some at\<close>, of "Some hand" None]
        by (simp add: left_click_def)
    next
      case there: (Some t)
      obtain x h where m: "merge_or_swap hand t = (x, h)" by fastforce
      have t: "stack_ok t" using slot there by simp
      show ?thesis using Some there \<open>locate s view i = Some at\<close> m
          rearranged_exchange [OF assms \<open>locate s view i = Some at\<close>, of x h]
          merge_or_swap_correct [OF hand t m]
        by (simp add: left_click_def)
    qed
  qed
qed (use assms in \<open>simp add: left_click_def rearranged_refl\<close>)

lemma split_or_place_rearranged:
  assumes "slots_inv s"
  shows "rearranged s (snd (split_or_place s view i fine))"
proof (cases "locate s view i")
  case (Some at)
  note slot = located_slot [OF assms Some]
  show ?thesis
  proof (cases "cursor s")
    case None
    show ?thesis
    proof (cases "view_at s at ! i")
      case None
      then show ?thesis using \<open>cursor s = None\<close> Some assms by (simp add: split_or_place_def rearranged_refl)
    next
      case there: (Some st)
      obtain x h where m: "split_half st (click_grain s st fine) = (x, h)" by fastforce
      have st: "stack_ok st" using slot there by simp
      show ?thesis using None there Some m rearranged_exchange [OF assms Some, of x h]
          split_half_correct [OF st m] by (simp add: split_or_place_def)
    qed
  next
    case hand: (Some hand)
    obtain x h where m: "place_one hand (view_at s at ! i) (click_grain s hand fine) = (x, h)" by fastforce
    show ?thesis using Some hand m rearranged_exchange [OF assms Some, of x h]
        place_one_correct [OF slots_inv_cursor [OF assms hand] slot m]
      by (simp add: split_or_place_def)
  qed
qed (use assms in \<open>simp add: split_or_place_def rearranged_refl\<close>)

lemma place_rest_poured:
  assumes "slots_ok xs" and "stack_ok st \<or> stack_is_empty st" and "\<forall>i \<in> set is. i < length xs"
    and "place_rest is xs st = (xs', st')"
  shows "poured is xs st xs' st'"
proof (cases "stack_is_empty st \<or> List.find (\<lambda>i. xs ! i = None) is = None")
  case True
  then show ?thesis using assms(1,4) by (auto simp: place_rest_def poured_refl split: if_splits)
next
  case False
  then obtain i where i: "List.find (\<lambda>i. xs ! i = None) is = Some i" by auto
  then have "i \<in> set is" "xs ! i = None" by (auto simp: find_Some_iff)
  moreover have "poured [i] xs st (xs[i := Some st]) (st\<lparr>st_units := 0\<rparr>)"
    by (rule poured_step) (use calculation assms False in \<open>auto simp: less_of_def weight_def\<close>)
  moreover have "xs' = xs[i := Some st]" "st' = st\<lparr>st_units := 0\<rparr>"
    using assms(4) False i by (simp_all add: place_rest_def)
  ultimately show ?thesis using poured_trans [OF _ poured_refl [of _ "[]"]]
    by (metis (no_types, lifting) Un_empty_right bot.extremum empty_set insert_subset list.simps(15) poured_def)
qed

lemma top_up_place_rest:
  assumes "slots_ok xs" and "stack_ok st" and "\<forall>i \<in> set is. i < length xs"
    and "top_up items room is xs st = (ys, st1)" and "place_rest is ys st1 = (zs, st2)"
  shows "poured is xs st zs st2"
proof -
  have t: "poured is xs st ys st1" by (rule top_up_poured [OF assms(1-4)])
  have "poured is ys st1 zs st2"
    by (rule place_rest_poured [OF _ _ _ assms(5)])
      (use t assms less_of_ok in \<open>auto simp: poured_def\<close>)
  then show ?thesis using poured_trans [OF t] by simp
qed

lemma less_of_unless_empty: "less_of st' st \<Longrightarrow> stack_ok st \<Longrightarrow> slot_ok (unless_empty st')"
  by (rule unless_empty_ok) (auto simp: less_of_def stack_ok_def dest: same_key_shape)

lemma stow_rearranged:
  assumes "slots_inv s"
  shows "rearranged s (snd (stow s view i band))"
proof (cases "locate s view i")
  case (Some at)
  note l = locate_Some [OF Some]
  show ?thesis
  proof (cases "view_at s at ! i")
    case None
    then show ?thesis using Some assms by (simp add: stow_def rearranged_refl)
  next
    case moving: (Some st)
    let ?xs = "(view_at s at)[i := None]"
    define target where "target = (if i < band then [band..<length ?xs] else [0..<min band (length ?xs)])"
    obtain ys st1 where t: "top_up (sl_items s) merge_room target ?xs st = (ys, st1)" by fastforce
    obtain zs st2 where r: "place_rest target ys st1 = (zs, st2)" by fastforce
    have st: "stack_ok st" using located_slot [OF assms Some] moving by simp
    have i: "i \<notin> set target" by (auto simp: target_def)
    have "slots_ok ?xs" using slots_inv_view [OF assms] l by (simp add: slots_ok_update)
    then have p: "poured target ?xs st zs st2"
      by (rule top_up_place_rest [OF _ st _ t r]) (auto simp: target_def)
    then have z: "length zs = length (view_at s at)" "slots_ok zs" "less_of st2 st" "zs ! i = None"
      using i l by (auto simp: poured_def)
    have s': "snd (stow s view i band) = set_view s at (zs[i := unless_empty st2])"
      using Some moving t r by (simp add: stow_def Let_def target_def)
    show ?thesis unfolding s'
    proof (rule rearranged_view [OF assms])
      show "slots_ok (zs[i := unless_empty st2])"
        using z st less_of_unless_empty by (simp add: slots_ok_update)
      fix P
      have "slots_weight P ?xs + weight P st = slots_weight P (view_at s at)"
        using slots_weight_update [of i "view_at s at" P None] l moving by simp
      moreover have "slots_weight P zs + weight P st2 = slots_weight P ?xs + weight P st"
        using p by (simp add: poured_def)
      moreover have "slots_weight P (zs[i := unless_empty st2]) = slots_weight P zs + weight P st2"
        using slots_weight_update [of i zs P "unless_empty st2"] z l by simp
      ultimately show "slots_weight P (zs[i := unless_empty st2]) = slots_weight P (view_at s at)" by simp
    qed (use l z in auto)
  qed
qed (use assms in \<open>simp add: stow_def rearranged_refl\<close>)

text \<open>A stack leaves a slot of one view, another view takes some of it, the rest goes back.\<close>

lemma rearranged_across:
  assumes "slots_inv s" and "at < length (sl_views s)" and "to < length (sl_views s)" and "at \<noteq> to"
    and "i < length (view_at s at)" and "view_at s at ! i = Some st"
    and "length ys = length (view_at s to)" and "slots_ok ys" and "slot_ok x"
    and "\<And>P. slots_weight P ys + slot_weight1 P x = slots_weight P (view_at s to) + weight P st"
  shows "rearranged s (set_view (set_view s to ys) at ((view_at s at)[i := x]))"
proof -
  let ?s1 = "set_view s to ys" and ?xs = "(view_at s at)[i := x]"
  have at: "view_at ?s1 at = view_at s at" using assms(3,4) by simp
  have "holds P (set_view ?s1 at ?xs) = holds P s" for P
    using holds_set_view [OF assms(3), of P ys] holds_set_view [of at ?s1 P ?xs] at
      slots_weight_update [OF assms(5), of P x] assms(2,6) assms(10) [of P] by simp
  moreover have "slots_inv (set_view ?s1 at ?xs)"
    by (intro slots_inv_set_view slots_ok_update) (use assms slots_inv_view in auto)
  moreover have "layout (set_view ?s1 at ?xs) = layout s"
    using layout_set_view [of ?xs ?s1 at] layout_set_view [of ys s to] assms(7) at by simp
  ultimately show ?thesis by (simp add: rearranged_def)
qed

lemma shift_click_rearranged:
  assumes "slots_inv s"
  shows "rearranged s (snd (shift_click s view i into))"
proof (cases "\<exists>at to st. view \<noteq> into \<and> locate s view i = Some at \<and> index_of s into = Some to \<and> at \<noteq> to \<and>
    view_at s at ! i = Some st")
  case True
  then obtain at to st where c: "view \<noteq> into" "locate s view i = Some at" "index_of s into = Some to"
    "at \<noteq> to" "view_at s at ! i = Some st" by blast
  note l = locate_Some [OF c(2)] and t = index_of_Some [OF c(3)]
  let ?is = "[0..<length (view_at s to)]"
  obtain ys st1 where u: "top_up (sl_items s) merge_room ?is (view_at s to) st = (ys, st1)" by fastforce
  obtain zs st2 where r: "place_rest ?is ys st1 = (zs, st2)" by fastforce
  have st: "stack_ok st" using located_slot [OF assms c(2)] c(5) by simp
  have p: "poured ?is (view_at s to) st zs st2"
    by (rule top_up_place_rest [OF _ st _ u r]) (use slots_inv_view [OF assms] t in auto)
  have s': "snd (shift_click s view i into) =
      set_view (set_view s to zs) at ((view_at s at)[i := unless_empty st2])"
    using c u r t by (simp add: shift_click_def Let_def)
  show ?thesis unfolding s'
    by (rule rearranged_across [OF assms _ _ c(4) _ c(5)])
      (use l t p st less_of_unless_empty in \<open>auto simp: poured_def\<close>)
next
  case False
  then have "snd (shift_click s view i into) = s"
    by (auto simp: shift_click_def split: option.splits)
  then show ?thesis using assms by (simp add: rearranged_refl)
qed

lemma fill_by_poured:
  assumes "slots_ok (vw_slots v)" and "stack_ok st" and "fill_by v items into st = (left, v')"
  shows "\<exists>xs. v' = v\<lparr>vw_slots := xs\<rparr> \<and> length xs = length (vw_slots v) \<and> slots_ok xs \<and> slot_ok left \<and>
    (\<forall>l. left = Some l \<longrightarrow> less_of l st) \<and>
    (\<forall>P. slots_weight P xs + slot_weight1 P left = slots_weight P (vw_slots v) + weight P st)"
proof -
  have ne: "\<not> stack_is_empty st" using assms(2) by (simp add: stack_ok_def stack_is_empty_def)
  define r where "r = (case into of Some i \<Rightarrow> if i < length (vw_slots v) then Some [i] else None
    | None \<Rightarrow> Some [0..<length (vw_slots v)])"
  show ?thesis
  proof (cases r)
    case None
    then have "left = Some st" "v' = v" using assms(3) ne by (simp_all add: fill_by_def r_def [symmetric])
    then show ?thesis using assms(1,2) by (intro exI [of _ "vw_slots v"]) simp
  next
    case (Some "is")
    have bound: "\<forall>i \<in> set is. i < length (vw_slots v)"
      using Some by (auto simp: r_def split: option.splits if_splits)
    obtain ys st1 where t: "top_up items slot_room is (vw_slots v) st = (ys, st1)" by fastforce
    have p: "poured is (vw_slots v) st ys st1" by (rule top_up_poured [OF assms(1,2) bound t])
    then have st1: "st_units st1 < u32_limit \<and> st_shape st1 \<noteq> Some 0"
      using assms(2) by (auto simp: poured_def less_of_def stack_ok_def dest: same_key_shape)
    obtain zs st2 where f: "fill_empty (capacity st1) is ys st1 = (zs, st2)" by fastforce
    have q: "poured is ys st1 zs st2"
      by (rule fill_empty_poured [OF _ st1 _ _ f]) (use p bound st1 capacity_pos in \<open>auto simp: poured_def\<close>)
    have pq: "poured is (vw_slots v) st zs st2" using poured_trans [OF p q] by simp
    have e: "stack_is_empty st1 \<Longrightarrow> weight P st1 = 0" for P by (simp add: stack_is_empty_def weight_def)
    show ?thesis
    proof (cases "stack_is_empty st1")
      case True
      then have "left = None" "v' = v\<lparr>vw_slots := ys\<rparr>"
        using assms(3) ne Some t by (simp_all add: fill_by_def r_def [symmetric])
      then show ?thesis using p e [OF True] by (intro exI [of _ ys]) (simp add: poured_def)
    next
      case False
      then have "left = unless_empty st2" "v' = v\<lparr>vw_slots := zs\<rparr>"
        using assms(3) ne Some t f by (simp_all add: fill_by_def r_def [symmetric])
      moreover have "slot_ok (unless_empty st2)" "less_of st2 st"
        using pq less_of_unless_empty assms(2) by (auto simp: poured_def)
      moreover have "unless_empty st2 = Some l \<Longrightarrow> l = st2" for l
        by (simp add: unless_empty_def split: if_splits)
      ultimately show ?thesis using pq by (intro exI [of _ zs]) (auto simp: poured_def)
    qed
  qed
qed

lemma transfer_rearranged:
  assumes "slots_inv s"
  shows "rearranged s (snd (transfer s from i to))"
proof (cases "\<exists>at t st. from \<noteq> to \<and> locate s from i = Some at \<and> index_of s to = Some t \<and>
    view_at s at ! i = Some st")
  case True
  then obtain at t st where c: "from \<noteq> to" "locate s from i = Some at" "index_of s to = Some t"
    "view_at s at ! i = Some st" by blast
  note l = locate_Some [OF c(2)] and t = index_of_Some [OF c(3)]
  have at: "at \<noteq> t" using c(1) l t by auto
  let ?s1 = "set_view s at ((view_at s at)[i := None])"
  have v: "sl_views ?s1 ! t = sl_views s ! t" using l at by simp
  obtain left v' where f: "fill_by (sl_views s ! t) (sl_items s) None st = (left, v')" by fastforce
  have st: "stack_ok st" using located_slot [OF assms c(2)] c(4) by simp
  have "slots_ok (vw_slots (sl_views s ! t))" using slots_inv_view [OF assms] t by blast
  then obtain xs where xs: "v' = (sl_views s ! t)\<lparr>vw_slots := xs\<rparr>" "length xs = length (view_at s t)"
      "slots_ok xs" "slot_ok left"
      "\<forall>P. slots_weight P xs + slot_weight1 P left = slots_weight P (view_at s t) + weight P st"
    using fill_by_poured [OF _ st f] by blast
  have "snd (transfer s from i to) = set_view (set_view s t xs) at ((view_at s at)[i := left])"
    using c f v xs(1) at l by (simp add: transfer_def Let_def) (simp add: set_view_def list_update_swap)
  then show ?thesis
    using rearranged_across [OF assms _ _ at _ c(4) xs(2-4)] l t xs(5) by simp
next
  case False
  then have "snd (transfer s from i to) = s"
    by (auto simp: transfer_def split: option.splits)
  then show ?thesis using assms by (simp add: rearranged_refl)
qed

lemma swap_offhand_rearranged:
  assumes "slots_inv s"
  shows "rearranged s (snd (swap_offhand s view i))"
proof (cases "\<exists>at. locate s view i = Some at \<and> i \<noteq> PLAYER_OFFHAND_SLOT \<and>
    PLAYER_OFFHAND_SLOT < length (view_at s at) \<and>
    \<not> (view_at s at ! i = None \<and> view_at s at ! PLAYER_OFFHAND_SLOT = None)")
  case True
  then obtain at where at: "locate s view i = Some at" "i \<noteq> PLAYER_OFFHAND_SLOT"
      "PLAYER_OFFHAND_SLOT < length (view_at s at)"
      "\<not> (view_at s at ! i = None \<and> view_at s at ! PLAYER_OFFHAND_SLOT = None)" by blast
  note l = locate_Some [OF at(1)]
  let ?xs = "view_at s at" and ?j = PLAYER_OFFHAND_SLOT
  let ?ys = "?xs[i := ?xs ! ?j, ?j := ?xs ! i]"
  have "snd (swap_offhand s view i) = set_view s at ?ys"
    using at by (auto simp: swap_offhand_def Let_def)
  moreover have "rearranged s (set_view s at ?ys)"
  proof (rule rearranged_view [OF assms])
    have ok: "slots_ok ?xs" using slots_inv_view [OF assms] l by blast
    then show "slots_ok ?ys" using l at(3) by (intro slots_ok_update slots_ok_nth) auto
    show "slots_weight P ?ys = slots_weight P ?xs" for P
      using slots_weight_update [of i ?xs P "?xs ! ?j"] at(2,3) l
        slots_weight_update [of ?j "?xs[i := ?xs ! ?j]" P "?xs ! i"] by simp
  qed (use l in simp_all)
  ultimately show ?thesis by simp
next
  case False
  then have "snd (swap_offhand s view i) = s"
    by (auto simp: swap_offhand_def Let_def split: option.splits)
  then show ?thesis using assms by (simp add: rearranged_refl)
qed

lemmas click_lemmas = left_click_rearranged split_or_place_rearranged stow_rearranged transfer_rearranged

lemma click_slot_rearranged:
  "slots_inv s \<Longrightarrow> rearranged s (snd (click_slot s view i click across))"
  by (cases click) (auto simp: click_slot_def right_click_def shift_right_click_def intro: click_lemmas
      split: option.splits)

section \<open>What crosses the boundary\<close>

text \<open>The state holds \<open>n\<close> units more, or fewer, of the item \<open>k\<close> and is otherwise as it was.\<close>

definition gained :: "slots \<Rightarrow> stack_key \<Rightarrow> nat \<Rightarrow> slots \<Rightarrow> bool" where
  "gained s k n s' \<longleftrightarrow> slots_inv s' \<and> (\<forall>P. holds P s' = holds P s + (if P k then n else 0))"

definition lost :: "slots \<Rightarrow> stack_key \<Rightarrow> nat \<Rightarrow> slots \<Rightarrow> bool" where
  "lost s k n s' \<longleftrightarrow> slots_inv s' \<and> (\<forall>P. holds P s' + (if P k then n else 0) = holds P s)"

definition left_units :: "stack option \<Rightarrow> nat" where
  "left_units x = (case x of None \<Rightarrow> 0 | Some s \<Rightarrow> st_units s)"

lemma left_units_weight:
  "\<forall>l. x = Some l \<longrightarrow> less_of l st \<Longrightarrow> slot_weight1 P x = (if P (key_of_stack st) then left_units x else 0)"
  by (cases x) (auto simp: left_units_def weight_def less_of_def)

lemma insert_within_correct:
  assumes "slots_inv s" and "stack_ok st" and "insert_within s view st = (left, s')"
  shows "gained s (key_of_stack st) (st_units st - left_units left) s' \<and>
    (\<forall>l. left = Some l \<longrightarrow> less_of l st \<and> stack_ok l)"
proof -
  have ne: "\<not> stack_is_empty st" using assms(2) by (simp add: stack_ok_def stack_is_empty_def)
  show ?thesis
  proof (cases "index_of s view")
    case None
    then have "left = Some st" "s' = s" using assms(3) ne by (simp_all add: insert_within_def)
    then show ?thesis using assms(1,2) by (simp add: gained_def left_units_def)
  next
    case (Some at)
    note at = conjunct1 [OF index_of_Some [OF Some]]
    let ?xs = "view_at s at"
    have ok: "slots_ok ?xs" using slots_inv_view [OF assms(1) at] .
    obtain ys st1 where t: "top_up (sl_items s) slot_room [0..<length ?xs] ?xs st = (ys, st1)" by fastforce
    have p: "poured [0..<length ?xs] ?xs st ys st1" by (rule top_up_poured [OF ok assms(2) _ t]) simp
    have st1: "st_units st1 < u32_limit \<and> st_shape st1 \<noteq> Some 0"
      using p assms(2) by (auto simp: poured_def less_of_def stack_ok_def dest: same_key_shape)
    define fixed where "fixed = (sl_main_fixed s \<and> view = PLAYER_MAIN)"
    obtain zs r where i: "insert_rest fixed (capacity st1) (grain_for (sl_items s) st1) ys st1 = (zs, r)"
      by fastforce
    have ys: "slots_ok ys" using p by (simp add: poured_def)
    note c = insert_rest_correct [OF ys st1 i]
    have main: "gained s (key_of_stack st) (st_units st - left_units left) (set_view s at ws) \<and>
        (\<forall>l. left = Some l \<longrightarrow> less_of l st \<and> stack_ok l)"
      if "slots_ok ws" and l: "\<forall>l. left = Some l \<longrightarrow> less_of l st \<and> stack_ok l"
        and "\<And>P. slots_weight P ws + slot_weight1 P left = slots_weight P ?xs + weight P st" for ws
    proof -
      have le: "left_units left \<le> st_units st" using l by (cases left) (auto simp: left_units_def less_of_def)
      have "holds P (set_view s at ws) = holds P s + (if P (key_of_stack st) then st_units st - left_units left else 0)" for P
        using holds_set_view [OF at, of P ws] that(3) [of P] left_units_weight [of left st P] l le
        by (auto simp: weight_def split: if_splits)
      then show ?thesis using slots_inv_set_view [OF assms(1) that(1)] l by (simp add: gained_def)
    qed
    show ?thesis
    proof (cases "stack_is_empty st1")
      case True
      then have "left = None" "s' = set_view s at ys"
        using assms(3) ne Some t by (simp_all add: insert_within_def Let_def)
      moreover have "weight P st1 = 0" for P using True by (simp add: stack_is_empty_def weight_def)
      then have "slots_weight P ys = slots_weight P ?xs + weight P st" for P
        using p by (metis add.right_neutral poured_def)
      ultimately show ?thesis using main [OF ys] by simp
    next
      case False
      then have lr: "left = r" "s' = set_view s at zs"
        using assms(3) ne Some t i by (simp_all add: insert_within_def Let_def fixed_def)
      have zs: "slots_ok zs" using c by blast
      show ?thesis unfolding lr(2)
      proof (rule main [OF zs])
        show "\<forall>l. left = Some l \<longrightarrow> less_of l st \<and> stack_ok l"
          using c p less_of_trans [of _ st1 st] unfolding poured_def lr by blast
        show "slots_weight P zs + slot_weight1 P left = slots_weight P ?xs + weight P st" for P
          using c [of P] p unfolding poured_def lr by metis
      qed
    qed
  qed
qed

text \<open>One slot of a view changes.\<close>

lemma holds_set_slot:
  assumes "locate s view i = Some at"
  shows "holds P (set_view s at ((view_at s at)[i := x])) + slot_weight1 P (view_at s at ! i) =
    holds P s + slot_weight1 P x"
  using holds_set_view [of at s P "(view_at s at)[i := x]"] slots_weight_update [of i "view_at s at" P x]
    locate_Some [OF assms] by simp

lemma slots_inv_set_slot:
  "slots_inv s \<Longrightarrow> locate s view i = Some at \<Longrightarrow> slot_ok x \<Longrightarrow> slots_inv (set_view s at ((view_at s at)[i := x]))"
  using slots_inv_set_view slots_ok_update slots_inv_view locate_Some by metis

lemma give_into_correct:
  assumes "slots_inv s" and "stack_ok st" and "give_into s view i st = (given, s')"
  shows "if given then gained s (key_of_stack st) (st_units st) s' else s' = s"
proof (cases given)
  case True
  then obtain at where at: "locate s view i = Some at"
    using assms(3) by (auto simp: give_into_def split: if_splits option.splits)
  show ?thesis
  proof (cases "view_at s at ! i")
    case None
    then have s': "s' = set_view s at ((view_at s at)[i := Some st])"
      using assms(3) True at by (auto simp: give_into_def split: if_splits)
    show ?thesis unfolding s'
      using True slots_inv_set_slot [OF assms(1) at, of "Some st"] assms(2)
        holds_set_slot [OF at, of _ "Some st"] None by (simp add: gained_def weight_def)
  next
    case (Some there)
    then obtain m where m: "stack_merge there st = Inr m" "s' = set_view s at ((view_at s at)[i := Some m])"
      using assms(3) True at by (auto simp: give_into_def split: if_splits sum.splits)
    have "stack_ok there" using located_slot [OF assms(1) at] Some by simp
    then have ok: "stack_ok m" and w: "weight P m = weight P there + weight P st" for P
      using m(1) assms(2) by (auto simp: stack_merge_Inr stack_ok_def weight_def)
    have "holds P s' = holds P s + (if P (key_of_stack st) then st_units st else 0)" for P
      using holds_set_slot [OF at, of P "Some m"] Some w [of P] m(2) by (simp add: weight_def)
    then show ?thesis using True m(2) slots_inv_set_slot [OF assms(1) at, of "Some m"] ok
      by (simp add: gained_def)
  qed
next
  case False
  then have "s' = s" using assms(3) by (auto simp: give_into_def split: if_splits option.splits sum.splits)
  then show ?thesis using False by simp
qed

lemma slots_take_correct:
  assumes "slots_inv s" and "slots_take s view which n = (got, s')"
  shows "got \<le> n \<and> lost s which got s'"
proof (cases "index_of s view")
  case None
  then show ?thesis using assms by (auto simp: slots_take_def lost_def)
next
  case (Some at)
  note at = conjunct1 [OF index_of_Some [OF Some]]
  let ?xs = "view_at s at"
  obtain ys left where d: "draw_loop (sl_items s) which [0..<length ?xs] ?xs n = (ys, left)" by fastforce
  have r: "got = n - left" "s' = set_view s at ys" using assms(2) Some d by (auto simp: slots_take_def)
  note c = draw_loop_correct [OF slots_inv_view [OF assms(1) at] _ d]
  have "holds P s' + (if P which then n - left else 0) = holds P s" for P
    using holds_set_view [OF at, of P ys] c [of P] r(2) by simp
  then show ?thesis using r slots_inv_set_view [OF assms(1)] c by (simp add: lost_def)
qed

lemma split_units:
  assumes "n \<le> st_units st" and "stack_ok st"
  shows "slot_ok (unless_empty (st\<lparr>st_units := st_units st - n\<rparr>))"
    and "weight P (st\<lparr>st_units := st_units st - n\<rparr>) + (if P (key_of_stack st) then n else 0) = weight P st"
  using assms by (auto intro!: unless_empty_ok simp: stack_ok_def weight_def)

lemma take_from_correct:
  assumes "slots_inv s" and "take_from s view i which n = (got, s')"
  shows "got \<le> n \<and> lost s which got s'"
proof (cases "\<exists>at st. locate s view i = Some at \<and> view_at s at ! i = Some st \<and> key_matches which st")
  case True
  then obtain at st where at: "locate s view i = Some at" "view_at s at ! i = Some st" "key_matches which st"
    by blast
  define k where "k = takeable_by st (grain_for (sl_items s) st) n"
  have k: "k \<le> st_units st" "k \<le> n" using takeable_by_le unfolding k_def by blast+
  let ?rest = "st\<lparr>st_units := st_units st - k\<rparr>"
  have r: "got = k" "s' = set_view s at ((view_at s at)[i := unless_empty ?rest])"
    using assms(2) at stack_split_le [OF k(1)] by (auto simp: take_from_def k_def [symmetric])
  have st: "stack_ok st" using located_slot [OF assms(1) at(1)] at(2) by simp
  note u = split_units [OF k(1) st]
  have "holds P s' + (if P which then k else 0) = holds P s" for P
    using holds_set_slot [OF at(1), of P "unless_empty ?rest"] u(2) [of P] at(2,3) r(2)
    by (simp add: key_matches_def weight_def split: if_splits)
  then show ?thesis using r k(2) slots_inv_set_slot [OF assms(1) at(1) u(1)] by (simp add: lost_def)
next
  case False
  then have "got = 0" "s' = s"
    using assms(2) by (auto simp: take_from_def split: option.splits if_splits)
  then show ?thesis using assms(1) by (simp add: lost_def)
qed

lemma take_held_correct:
  assumes "slots_inv s" and "take_held s portion = (taken, s')"
  shows "case taken of None \<Rightarrow> cursor s = None \<and> s' = s
    | Some t \<Rightarrow> (\<exists>hand. cursor s = Some hand \<and> less_of t hand) \<and> lost s (key_of_stack t) (st_units t) s'"
proof (cases "cursor s")
  case None
  then show ?thesis using assms by (auto simp: take_held_def)
next
  case (Some hand)
  define k where "k = min (case portion of All_of_it \<Rightarrow> st_units hand | One_grain \<Rightarrow> click_grain s hand False
    | One_unit \<Rightarrow> click_grain s hand True) (st_units hand)"
  let ?rest = "hand\<lparr>st_units := st_units hand - k\<rparr>"
  have k: "k \<le> st_units hand" by (simp add: k_def)
  have r: "taken = Some (hand\<lparr>st_units := k\<rparr>)" "s' = set_cursor s (unless_empty ?rest)"
    using assms(2) Some stack_split_le [OF k] by (simp_all add: take_held_def k_def [symmetric])
  note u = split_units [OF k slots_inv_cursor [OF assms(1) Some]]
  have "holds P s' + (if P (key_of_stack hand) then k else 0) = holds P s" for P
    using holds_set_cursor [of P s "unless_empty ?rest"] u(2) [of P] Some r(2) by simp
  then show ?thesis using r u(1) assms(1) k Some by (simp add: lost_def less_of_def slots_inv_def)
qed

lemma untake_held_correct:
  assumes "slots_inv s" and "stack_ok st" and "untake_held s view st = (left, s')"
  shows "gained s (key_of_stack st) (st_units st - left_units left) s'"
proof (cases "cursor s")
  case None
  then show ?thesis using assms holds_set_cursor [of _ s "Some st"]
    by (auto simp: untake_held_def gained_def left_units_def slots_inv_def weight_def)
next
  case (Some hand)
  show ?thesis
  proof (cases "\<exists>m. same_item hand st \<and> stack_merge hand st = Inr m")
    case True
    then obtain m where m: "same_item hand st" "stack_merge hand st = Inr m" by blast
    have r: "left = None" "s' = set_cursor s (Some m)"
      using assms(3) Some m by (simp_all add: untake_held_def)
    have ok: "stack_ok m" and w: "weight P m = weight P hand + weight P st" for P
      using m(2) slots_inv_cursor [OF assms(1) Some] assms(2)
      by (auto simp: stack_merge_Inr stack_ok_def weight_def)
    have "holds P s' = holds P s + (if P (key_of_stack st) then st_units st else 0)" for P
      using holds_set_cursor [of P s "Some m"] w [of P] Some r(2) by (simp add: weight_def)
    then show ?thesis using r ok assms(1) by (simp add: gained_def left_units_def slots_inv_def)
  next
    case False
    then have "untake_held s view st = insert_within s view st"
      unfolding untake_held_def Some by (cases "stack_merge hand st") auto
    then show ?thesis using insert_within_correct [OF assms(1,2)] assms(3) by simp
  qed
qed

section \<open>Room\<close>

text \<open>How an insertion treats the view it goes into: a fixed view keeps its size, a growing view takes
  all of a stack that moves by the unit, and no slot passes one stack.\<close>

lemma insert_within_view:
  assumes "slots_inv s" and "stack_ok st" and "index_of s view = Some at"
    and "insert_within s view st = (left, s')"
  shows "\<exists>zs. s' = set_view s at zs \<and> length (view_at s at) \<le> length zs \<and>
    (sl_main_fixed s \<and> view = PLAYER_MAIN \<longrightarrow> length zs = length (view_at s at)) \<and>
    (\<not> (sl_main_fixed s \<and> view = PLAYER_MAIN) \<and> grain_for (sl_items s) st \<le> 1 \<longrightarrow> left = None) \<and>
    (within_cap (view_at s at) \<longrightarrow> within_cap zs)"
proof -
  have ne: "\<not> stack_is_empty st" using assms(2) by (simp add: stack_ok_def stack_is_empty_def)
  note at = conjunct1 [OF index_of_Some [OF assms(3)]]
  let ?xs = "view_at s at"
  have ok: "slots_ok ?xs" using slots_inv_view [OF assms(1) at] .
  obtain ys st1 where t: "top_up (sl_items s) slot_room [0..<length ?xs] ?xs st = (ys, st1)" by fastforce
  have p: "poured [0..<length ?xs] ?xs st ys st1" by (rule top_up_poured [OF ok assms(2) _ t]) simp
  have w: "within_cap ?xs \<Longrightarrow> within_cap ys" using top_up_within [OF ok assms(2) _ _ t] by simp
  have st1: "st_units st1 < u32_limit \<and> st_shape st1 \<noteq> Some 0" "length ys = length ?xs" "slots_ok ys"
    using p assms(2) by (auto simp: poured_def less_of_def stack_ok_def dest: same_key_shape)
  have "key_of_stack st1 = key_of_stack st" using p by (simp add: poured_def less_of_def)
  then have g: "grain_for (sl_items s) st1 = grain_for (sl_items s) st"
    by (auto simp: grain_for_def per_item_def stack_grain_def key_of_stack_def)
  define fixed where "fixed = (sl_main_fixed s \<and> view = PLAYER_MAIN)"
  obtain zs r where i: "insert_rest fixed (capacity st1) (grain_for (sl_items s) st1) ys st1 = (zs, r)"
    by fastforce
  note c = insert_rest_correct [OF st1(3,1) i]
  show ?thesis
  proof (cases "stack_is_empty st1")
    case True
    then show ?thesis using assms(3,4) ne t w st1(2)
      by (intro exI [of _ ys]) (auto simp: insert_within_def Let_def)
  next
    case False
    then have r: "left = r" "s' = set_view s at zs"
      using assms(3,4) ne t i by (simp_all add: insert_within_def Let_def fixed_def)
    have "\<not> fixed \<and> grain_for (sl_items s) st \<le> 1 \<longrightarrow> r = None"
      using insert_rest_all [OF i] g capacity_pos st1(1) by simp
    moreover have "within_cap ys \<Longrightarrow> within_cap zs" using insert_rest_within [OF _ _ i] by simp
    ultimately show ?thesis using c r w st1(2) by (intro exI [of _ zs]) (auto simp: fixed_def)
  qed
qed

lemma fits_all_paid:
  assumes "slots_inv s" and "\<forall>st \<in> set sts. stack_ok st" and "fits_all s view sts"
  shows "\<exists>s'. fold (\<lambda>st s. snd (insert_within s view st)) sts s = s' \<and> slots_inv s' \<and>
    (\<forall>P. holds P s' = holds P s + weights P sts)"
  using assms
proof (induction sts arbitrary: s)
  case (Cons st sts)
  obtain left s1 where i: "insert_within s view st = (left, s1)" by fastforce
  have l: "left = None" "fits_all s1 view sts" using Cons.prems(3) i by simp_all
  have g: "slots_inv s1" "\<forall>P. holds P s1 = holds P s + weight P st"
    using insert_within_correct [OF Cons.prems(1) _ i] Cons.prems(2) l(1)
    by (auto simp: gained_def left_units_def weight_def)
  then show ?case using Cons.IH [OF g(1) _ l(2)] Cons.prems(2) i by (simp add: add.assoc)
qed simp

section \<open>The cursor and the off-hand\<close>

text \<open>Returning what is held: what did not fit is gone unless nothing at all fitted.\<close>

lemma return_held_balance:
  assumes "slots_inv s" and "cursor s = Some hand"
    and "insert_within (set_cursor s None) view hand = (left, s1)" and "return_held s view = (moved, s')"
  shows "slots_inv s' \<and>
    holds P s' + (if moved \<and> P (key_of_stack hand) then left_units left else 0) = holds P s"
proof -
  let ?s0 = "set_cursor s None"
  have hand: "stack_ok hand" using slots_inv_cursor [OF assms(1,2)] .
  have inv: "slots_inv ?s0" using assms(1) by (simp add: slots_inv_def)
  note c = insert_within_correct [OF inv hand assms(3)]
  have le: "left_units left \<le> st_units hand" using c by (cases left) (auto simp: left_units_def less_of_def)
  have h: "holds P ?s0 + weight P hand = holds P s" for P
    using holds_set_cursor [of P s None] assms(2) by simp
  have m: "moved \<longleftrightarrow> left_units left < st_units hand"
      "s' = (if moved then s1 else set_cursor s1 (Some hand))"
    using assms(2-4) by (auto simp: return_held_def slots_insert_def Let_def left_units_def
        split: if_splits option.splits)
  have s1: "slots_inv s1" "holds P s1 = holds P ?s0 + (if P (key_of_stack hand) then st_units hand - left_units left else 0)"
    using c by (auto simp: gained_def)
  have "cursor s1 = None"
    using assms(3) insert_within_view [OF inv hand _ assms(3)]
    by (cases "index_of ?s0 view") (auto simp: insert_within_def split: if_splits)
  then show ?thesis
    using m s1 h [of P] le hand holds_set_cursor [of P s1 "Some hand"]
    by (auto simp: weight_def slots_inv_def split: if_splits)
qed

lemma set_view_twice [simp]: "set_view (set_view s at xs) at ys = set_view s at ys"
  by (cases "at < length (sl_views s)") (simp_all add: set_view_def list_update_beyond)

lemma set_view_same: "at < length (sl_views s) \<Longrightarrow> set_view s at (view_at s at) = s"
  by (simp add: set_view_def)

lemma index_of_set_view: "index_of (set_view s at xs) name = index_of s name"
proof -
  have "position (\<lambda>v. vw_name v = name) vs = position (\<lambda>n. n = name) (map vw_name vs)" for vs
    by (induction vs) auto
  moreover have "map vw_name (sl_views (set_view s at xs)) = map vw_name (sl_views s)"
    by (cases "at < length (sl_views s)") (simp_all add: set_view_def map_update_id list_update_beyond)
  ultimately show ?thesis unfolding index_of_def by metis
qed

lemma locate_set_view:
  "locate s name i = Some at \<Longrightarrow> length xs = length (view_at s at) \<Longrightarrow> locate (set_view s at xs) name i = Some at"
  using locate_Some [of s name i at]
  by (auto simp: locate_def index_of_set_view bind_eq_Some_conv split: if_splits)

lemma swap_offhand_swaps:
  assumes "swap_offhand s view i = (True, s')"
  shows "\<exists>at. locate s view i = Some at \<and> i \<noteq> PLAYER_OFFHAND_SLOT \<and> PLAYER_OFFHAND_SLOT < length (view_at s at) \<and>
    \<not> (view_at s at ! i = None \<and> view_at s at ! PLAYER_OFFHAND_SLOT = None) \<and>
    s' = set_view s at ((view_at s at)[i := view_at s at ! PLAYER_OFFHAND_SLOT,
      PLAYER_OFFHAND_SLOT := view_at s at ! i])"
  using assms by (auto simp: swap_offhand_def Let_def split: option.splits if_splits)

lemma swap_offhand_twice:
  assumes "swap_offhand s view i = (True, s')"
  shows "swap_offhand s' view i = (True, s)"
proof -
  obtain at where at: "locate s view i = Some at" "i \<noteq> PLAYER_OFFHAND_SLOT" "PLAYER_OFFHAND_SLOT < length (view_at s at)"
      "\<not> (view_at s at ! i = None \<and> view_at s at ! PLAYER_OFFHAND_SLOT = None)"
    and s': "s' = set_view s at ((view_at s at)[i := view_at s at ! PLAYER_OFFHAND_SLOT,
      PLAYER_OFFHAND_SLOT := view_at s at ! i])"
    using swap_offhand_swaps [OF assms] by blast
  note l = locate_Some [OF at(1)]
  define xs where "xs = view_at s at"
  let ?ys = "xs[i := xs ! PLAYER_OFFHAND_SLOT, PLAYER_OFFHAND_SLOT := xs ! i]"
  have "locate s' view i = Some at" unfolding s' using at(1) by (rule locate_set_view) simp
  moreover have "view_at s' at = ?ys" unfolding s' using l by (simp add: xs_def)
  moreover have "?ys[i := ?ys ! PLAYER_OFFHAND_SLOT, PLAYER_OFFHAND_SLOT := ?ys ! i] = xs"
    using l at(2,3) by (intro nth_equalityI) (auto simp: xs_def nth_list_update)
  moreover have "set_view s' at xs = s" unfolding s' using set_view_same l by (simp add: xs_def)
  moreover have "\<not> (?ys ! i = None \<and> ?ys ! PLAYER_OFFHAND_SLOT = None)" "PLAYER_OFFHAND_SLOT < length ?ys"
    using at(2-4) l by (auto simp: xs_def)
  ultimately show ?thesis using at(2) by (simp add: swap_offhand_def Let_def)
qed

end
