(* ===== verification/Cut_Laws.thy ===== *)
theory Cut_Laws
  imports Stack_Laws "HOL-Library.Multiset"
begin

text \<open>
  Laws of the cuts a stack carries: a turn moves the cells of a mask and the materials of a cut by
  the same permutation, loose units are placed from the bottom up, and the stack built from 27 cells
  is determined by them.
\<close>

section \<open>Turns\<close>

lemma shape_ALL_full: "shape_ALL = OCCUPANCY_FULL"
  by (simp add: shape_ALL_def OCCUPANCY_FULL_def)

lemma bit_shape_ALL [simp]: "bit shape_ALL i \<longleftrightarrow> i < 27"
  by (simp add: shape_ALL_full)

lemma bit_fold_or:
  "bit (fold (\<lambda>i out. if P i then out OR push_bit (f i) 1 else out) is w) j \<longleftrightarrow>
     bit (w :: u32) j \<or> (\<exists>i \<in> set is. P i \<and> f i = j \<and> j < 32)"
  by (induction "is" arbitrary: w) (auto simp: bit_or_iff bit_exp_iff)

lemma bit_permute: "bit (permute occ to) j \<longleftrightarrow> (\<exists>i < 27. bit occ i \<and> to i = j \<and> j < 32)"
  unfolding permute_def by (subst bit_fold_or) auto

definition cell_permutation :: "(nat \<Rightarrow> nat) \<Rightarrow> bool" where
  "cell_permutation f \<longleftrightarrow> bij_betw f {..<27} {..<27} \<and> (\<forall>i < 27. f (f (f (f i))) = i)"

lemma all_less_27: "(\<forall>i < 27. P i) \<longleftrightarrow> list_all P [0..<27]" for P :: "nat \<Rightarrow> bool"
  by (auto simp: list_all_iff)

lemma cell_permutationI:
  assumes "\<And>i. i < 27 \<Longrightarrow> f i < 27" and "\<And>i. i < 27 \<Longrightarrow> f (f (f (f i))) = i"
  shows "cell_permutation f"
  unfolding cell_permutation_def using assms
  by (auto intro: bij_betw_byWitness [where f' = "\<lambda>i. f (f (f i))"])

lemma turn_index_permutation: "cell_permutation turn_index"
proof (rule cell_permutationI)
  have "\<forall>i < 27. turn_index i < 27 \<and> turn_index (turn_index (turn_index (turn_index i))) = i"
    unfolding all_less_27 turn_index_def subnode_offset_def subnode_index_def by code_simp
  then show "i < 27 \<Longrightarrow> turn_index i < 27"
    and "i < 27 \<Longrightarrow> turn_index (turn_index (turn_index (turn_index i))) = i" for i by blast+
qed

lemma tip_index_permutation: "cell_permutation tip_index"
proof (rule cell_permutationI)
  have "\<forall>i < 27. tip_index i < 27 \<and> tip_index (tip_index (tip_index (tip_index i))) = i"
    unfolding all_less_27 tip_index_def subnode_offset_def subnode_index_def by code_simp
  then show "i < 27 \<Longrightarrow> tip_index i < 27"
    and "i < 27 \<Longrightarrow> tip_index (tip_index (tip_index (tip_index i))) = i" for i by blast+
qed

lemma bit_fold_enumerate:
  "bit (fold (\<lambda>(i, _) out. out OR push_bit i 1) (filter Q xs) w) j \<longleftrightarrow>
     bit (w :: u32) j \<or> (\<exists>x \<in> set xs. Q x \<and> fst x = j \<and> j < 32)"
  by (induction xs arbitrary: w) (auto simp: bit_or_iff bit_exp_iff)

lemma bit_occupancy_of:
  "length cs = 27 \<Longrightarrow> bit (occupancy_of cs) i \<longleftrightarrow> i < 27 \<and> cs ! i \<noteq> AIR"
  unfolding occupancy_of_def by (subst bit_fold_enumerate) (auto simp: in_set_enumerate_eq)

lemma occupancy_of_masked: "length cs = 27 \<Longrightarrow> occupancy_of cs AND shape_ALL = occupancy_of cs"
  by (rule bit_word_eqI) (auto simp: bit_and_iff bit_occupancy_of)

lemma fold_place:
  assumes "distinct (map f is)" and "\<forall>i \<in> set is. f i < length out"
  shows "length (fold (\<lambda>i out. out[f i := g i]) is out) = length out \<and>
    (\<forall>i \<in> set is. fold (\<lambda>i out. out[f i := g i]) is out ! f i = g i) \<and>
    (\<forall>j. j \<notin> f ` set is \<longrightarrow> fold (\<lambda>i out. out[f i := g i]) is out ! j = out ! j)"
  using assms
proof (induction "is" arbitrary: out)
  case (Cons i "is")
  then show ?case using Cons.IH [of "out[f i := g i]"] by auto
qed simp

text \<open>A quarter turn about one axis, given by where it sends each cell: what masks and cuts do
  under it.\<close>

locale quarter_turn =
  fixes to :: "nat \<Rightarrow> nat"
  assumes permutation: "cell_permutation to"
begin

lemma to_less: "i < 27 \<Longrightarrow> to i < 27"
  using permutation bij_betwE [of to "{..<27}" "{..<27}"] by (auto simp: cell_permutation_def)

lemma to_inj: "inj_on to {..<27}"
  using permutation by (simp add: cell_permutation_def bij_betw_def)

lemma to_four: "i < 27 \<Longrightarrow> to (to (to (to i))) = i"
  using permutation by (simp add: cell_permutation_def)

lemma to_onto: "j < 27 \<Longrightarrow> \<exists>i < 27. to i = j"
  using to_four to_less by blast

lemma bit_permute_to: "i < 27 \<Longrightarrow> bit (permute occ to) (to i) \<longleftrightarrow> bit occ i"
  using to_less [of i] inj_onD [OF to_inj] by (fastforce simp: bit_permute)

lemma bit_permute_less: "bit (permute occ to) j \<Longrightarrow> j < 27"
  using to_less by (auto simp: bit_permute)

lemma permute_masked: "permute occ to AND shape_ALL = permute occ to"
  by (rule bit_word_eqI) (auto simp: bit_and_iff dest: bit_permute_less)

lemma count_ones_permute: "count_ones (permute occ to) = count_ones (occ AND shape_ALL)"
proof -
  have "{j. bit (permute occ to) j} = to ` {i. bit (occ AND shape_ALL) i}"
    using to_less by (fastforce simp: bit_permute bit_and_iff)
  moreover have "inj_on to {i. bit (occ AND shape_ALL) i}"
    by (rule inj_on_subset [OF to_inj]) (auto simp: bit_and_iff)
  ultimately show ?thesis by (simp add: count_ones_card card_image)
qed

lemma permute_four:
  "occ AND shape_ALL = occ \<Longrightarrow> ((\<lambda>m. permute m to) ^^ 4) occ = occ"
proof -
  assume occ: "occ AND shape_ALL = occ"
  let ?p = "permute (permute (permute (permute occ to) to) to) to"
  have "bit ?p i \<longleftrightarrow> bit occ i" for i
  proof (cases "i < 27")
    case True
    then have "bit ?p (to (to (to (to i)))) \<longleftrightarrow> bit occ i" using to_less by (simp add: bit_permute_to)
    then show ?thesis using to_four [OF True] by simp
  next
    case False
    then have "\<not> bit occ i" using occ bit_and_iff [of occ shape_ALL i] by simp
    then show ?thesis using False bit_permute_less by blast
  qed
  then have "?p = occ" by (auto intro: bit_word_eqI)
  then show ?thesis by (simp add: numeral_eq_Suc)
qed

lemma permute_cells_enumerate:
  "length cs = 27 \<Longrightarrow> permute_cells cs to = fold (\<lambda>i out. out[to i := cs ! i]) [0..<27] EMPTY_CELLS"
proof -
  assume "length cs = 27"
  then have "enumerate 0 cs = map (\<lambda>i. (i, cs ! i)) [0..<27]"
    by (intro nth_equalityI) (simp_all add: nth_enumerate_eq del: upt_rec_numeral)
  then show ?thesis by (simp add: permute_cells_def fold_map comp_def del: upt_rec_numeral)
qed

lemma permute_cells_nth:
  assumes "length cs = 27"
  shows "length (permute_cells cs to) = 27 \<and> (\<forall>i < 27. permute_cells cs to ! to i = cs ! i)"
proof -
  have d: "distinct (map to [0..<27])" "\<forall>i \<in> set [0..<27]. to i < length EMPTY_CELLS"
    using to_inj to_less by (auto simp: distinct_map atLeast0LessThan EMPTY_CELLS_def simp del: upt_rec_numeral)
  have "length EMPTY_CELLS = 27" by (simp add: EMPTY_CELLS_def)
  then show ?thesis
    unfolding permute_cells_enumerate [OF assms]
    using fold_place [OF d, of "(!) cs"] by (auto simp del: upt_rec_numeral)
qed

lemma permute_cells_four:
  assumes "length cs = 27"
  shows "((\<lambda>c. permute_cells c to) ^^ 4) cs = cs"
proof -
  let ?p = "\<lambda>c. permute_cells c to"
  have len: "length (?p c) = 27" if "length c = 27" for c using permute_cells_nth [OF that] by simp
  have "?p (?p (?p (?p cs))) ! i = cs ! i" if "i < 27" for i
  proof -
    have "?p (?p (?p (?p cs))) ! to (to (to (to i))) = cs ! i"
      using permute_cells_nth that to_less len assms by metis
    then show ?thesis using to_four [OF that] by simp
  qed
  then have "?p (?p (?p (?p cs))) = cs" using assms len by (intro nth_equalityI) simp_all
  then show ?thesis by (simp add: numeral_eq_Suc)
qed

text \<open>The outline of a turned cut is the turned outline of the cut.\<close>

lemma occupancy_permute_cells:
  assumes "length cs = 27"
  shows "occupancy_of (permute_cells cs to) = permute (occupancy_of cs) to"
proof (rule bit_word_eqI)
  fix j
  note nth = permute_cells_nth [OF assms]
  show "bit (occupancy_of (permute_cells cs to)) j \<longleftrightarrow> bit (permute (occupancy_of cs) to) j"
  proof (cases "j < 27")
    case True
    then obtain i where i: "i < 27" "j = to i" using to_onto by blast
    then show ?thesis using nth bit_permute_to [of i "occupancy_of cs"] True
      by (auto simp: bit_occupancy_of assms)
  next
    case False
    then show ?thesis using nth bit_permute_less by (auto simp: bit_occupancy_of)
  qed
qed

lemma cells_permute_cells:
  assumes "length cs = 27"
  shows "mset (permute_cells cs to) = mset cs"
proof -
  have "map ((!) (permute_cells cs to)) (map to [0..<27]) = cs"
    using permute_cells_nth [OF assms] assms by (intro nth_equalityI) (simp_all del: upt_rec_numeral)
  moreover have "mset (map to [0..<27]) = mset [0..<27]"
    using to_inj permutation
    by (intro set_eq_iff_mset_eq_distinct [THEN iffD1])
      (auto simp: cell_permutation_def bij_betw_def distinct_map atLeast0LessThan simp del: upt_rec_numeral)
  ultimately have "mset cs = image_mset ((!) (permute_cells cs to)) (mset [0..<27])"
    by (metis mset_map)
  then show ?thesis using permute_cells_nth [OF assms] by (metis map_nth mset_map)
qed

end

interpretation turn: quarter_turn turn_index
  by unfold_locales (rule turn_index_permutation)

interpretation tip: quarter_turn tip_index
  by unfold_locales (rule tip_index_permutation)

text \<open>Iterated turns add up, and keep whatever one turn keeps.\<close>

lemma funpow_turns:
  assumes "(f ^^ 4) x = x"
  shows "(f ^^ (b mod 4)) ((f ^^ (a mod 4)) x) = (f ^^ ((a + b) mod 4)) x"
proof -
  have "(f ^^ (b mod 4)) ((f ^^ (a mod 4)) x) = (f ^^ (b mod 4 + a mod 4)) x" by (simp add: funpow_add)
  also have "\<dots> = (f ^^ ((b mod 4 + a mod 4) mod 4)) x" using funpow_mod_eq [OF assms] by metis
  also have "(b mod 4 + a mod 4) mod 4 = (a + b) mod 4" by presburger
  finally show ?thesis .
qed

lemma funpow_keeps: "(\<And>x. D x \<Longrightarrow> D (f x) \<and> g (f x) = g x) \<Longrightarrow> D x \<Longrightarrow> D ((f ^^ n) x) \<and> g ((f ^^ n) x) = g x"
  by (induction n) auto

lemma funpow_commute:
  "(\<And>x. D x \<Longrightarrow> D (f x) \<and> h (f x) = g (h x)) \<Longrightarrow> D x \<Longrightarrow> D ((f ^^ n) x) \<and> h ((f ^^ n) x) = (g ^^ n) (h x)"
  by (induction n) auto

definition masked :: "u32 \<Rightarrow> bool" where
  "masked occ \<longleftrightarrow> occ AND shape_ALL = occ"

lemma masked_and [simp]: "masked (occ AND shape_ALL)"
  by (simp add: masked_def and.assoc)

lemma turned_masked: "masked (turned occ n) \<and> count_ones (turned occ n) = count_ones (occ AND shape_ALL)"
  unfolding turned_def
  by (rule funpow_keeps) (simp_all add: masked_def turn.permute_masked turn.count_ones_permute and.assoc)

lemma tipped_masked: "masked (tipped occ n) \<and> count_ones (tipped occ n) = count_ones (occ AND shape_ALL)"
  unfolding tipped_def
  by (rule funpow_keeps) (simp_all add: masked_def tip.permute_masked tip.count_ones_permute and.assoc)

lemma turned_add: "turned (turned occ a) b = turned occ (a + b)"
proof -
  have "turned occ a AND shape_ALL = turned occ a" using turned_masked masked_def by blast
  then have "turned (turned occ a) b = ((\<lambda>m. permute m turn_index) ^^ (b mod 4)) (turned occ a)"
    by (simp add: turned_def [of _ b])
  also have "\<dots> = turned occ (a + b)" unfolding turned_def
    by (rule funpow_turns) (simp add: turn.permute_four and.assoc)
  finally show ?thesis .
qed

lemma tipped_add: "tipped (tipped occ a) b = tipped occ (a + b)"
proof -
  have "tipped occ a AND shape_ALL = tipped occ a" using tipped_masked masked_def by blast
  then have "tipped (tipped occ a) b = ((\<lambda>m. permute m tip_index) ^^ (b mod 4)) (tipped occ a)"
    by (simp add: tipped_def [of _ b])
  also have "\<dots> = tipped occ (a + b)" unfolding tipped_def
    by (rule funpow_turns) (simp add: tip.permute_four and.assoc)
  finally show ?thesis .
qed

lemma turned_cells_occupancy:
  assumes "length cs = 27"
  shows "length (turned_cells cs n) = 27 \<and> occupancy_of (turned_cells cs n) = turned (occupancy_of cs) n"
  unfolding turned_def turned_cells_def occupancy_of_masked [OF assms]
  by (rule funpow_commute [where D = "\<lambda>cs. length cs = 27"])
    (simp_all add: assms turn.permute_cells_nth turn.occupancy_permute_cells)

lemma tipped_cells_occupancy:
  assumes "length cs = 27"
  shows "length (tipped_cells cs n) = 27 \<and> occupancy_of (tipped_cells cs n) = tipped (occupancy_of cs) n"
  unfolding tipped_def tipped_cells_def occupancy_of_masked [OF assms]
  by (rule funpow_commute [where D = "\<lambda>cs. length cs = 27"])
    (simp_all add: assms tip.permute_cells_nth tip.occupancy_permute_cells)

lemma turned_cells_mset: "length cs = 27 \<Longrightarrow> mset (turned_cells cs n) = mset cs"
  unfolding turned_cells_def
  using funpow_keeps [where D = "\<lambda>cs. length cs = 27" and g = mset]
  by (metis (no_types, lifting) turn.cells_permute_cells turn.permute_cells_nth)

lemma tipped_cells_mset: "length cs = 27 \<Longrightarrow> mset (tipped_cells cs n) = mset cs"
  unfolding tipped_cells_def
  using funpow_keeps [where D = "\<lambda>cs. length cs = 27" and g = mset]
  by (metis (no_types, lifting) tip.cells_permute_cells tip.permute_cells_nth)

section \<open>Placing loose units\<close>

lemma fill_order_explicit:
  "fill_order = [0,1,2,9,10,11,18,19,20,3,4,5,12,13,14,21,22,23,6,7,8,15,16,17,24,25,26]"
  by (simp add: fill_order_def subnode_index_def numeral_eq_Suc)

lemma fill_order_nth: "i < 27 \<Longrightarrow> fill_order ! i = i mod 3 + 3 * (i div 9) + 9 * ((i div 3) mod 3)"
proof -
  have "\<forall>i < 27. fill_order ! i = i mod 3 + 3 * (i div 9) + 9 * ((i div 3) mod 3)"
    unfolding all_less_27 fill_order_explicit by code_simp
  then show "i < 27 \<Longrightarrow> ?thesis" by blast
qed

lemma length_fill_order [simp]: "length fill_order = 27"
  by (simp add: fill_order_explicit)

lemma bit_placement_mask:
  assumes "x < 3" and "y < 3" and "z < 3"
  shows "bit (placement_mask n) (subnode_index x y z) \<longleftrightarrow> x + 3 * z + 9 * y < n"
proof (cases "27 \<le> n")
  case True
  then have "placement_mask n = shape_ALL" by (simp add: placement_mask_def shape_ALL_def)
  then show ?thesis using subnode_index_less [OF assms] True assms by simp
next
  case False
  let ?rank = "x + 3 * z + 9 * y"
  have rank: "?rank < 27" using assms by linarith
  have "?rank mod 3 = x" "?rank div 3 = z + 3 * y"
    using radix_mod [OF assms(1), of z y] radix_div [OF assms(1), of z y] by simp_all
  moreover have "?rank div 9 = y" using assms by simp
  ultimately have at: "fill_order ! ?rank = subnode_index x y z"
    unfolding fill_order_nth [OF rank] subnode_index_def using assms(3) by simp
  have distinct: "distinct fill_order" by (simp add: fill_order_explicit)
  have "bit (placement_mask n) (subnode_index x y z) \<longleftrightarrow> subnode_index x y z \<in> set (take n fill_order)"
    using False bit_fold_or [of "\<lambda>_. True" "\<lambda>i. i" "take n fill_order" 0 "subnode_index x y z"]
      subnode_index_less [OF assms] by (auto simp: placement_mask_def)
  also have "\<dots> \<longleftrightarrow> ?rank < n"
  proof
    assume "subnode_index x y z \<in> set (take n fill_order)"
    then obtain i where "i < n" "i < 27" "fill_order ! i = subnode_index x y z"
      by (auto simp: in_set_conv_nth)
    then show "?rank < n"
      using at rank nth_eq_iff_index_eq [OF distinct, of i ?rank] by simp
  next
    assume "?rank < n"
    then show "subnode_index x y z \<in> set (take n fill_order)"
      using at rank by (metis in_set_conv_nth length_take length_fill_order min_less_iff_conj nth_take)
  qed
  finally show ?thesis .
qed

lemma count_placement_mask: "count_ones (placement_mask n) = min n 27"
proof (cases "27 \<le> n")
  case True
  then have "placement_mask n = OCCUPANCY_FULL"
    by (simp add: placement_mask_def OCCUPANCY_FULL_def)
  then show ?thesis using True count_ones_27 [of OCCUPANCY_FULL] by simp
next
  case False
  have "set fill_order \<subseteq> {..<27}" by (simp add: fill_order_explicit)
  then have "{j. bit (placement_mask n) j} = set (take n fill_order)"
    using False bit_fold_or [of "\<lambda>_. True" "\<lambda>i. i" "take n fill_order" 0] set_take_subset [of n fill_order]
    by (fastforce simp: placement_mask_def)
  moreover have "distinct (take n fill_order)" by (simp add: fill_order_explicit distinct_take)
  ultimately show ?thesis using False by (simp add: count_ones_card distinct_card)
qed

section \<open>Stacks built from cells\<close>

lemma of_cells_loop_Some:
  "of_cells_loop cs (Some m) several =
     (Some (Min (insert m (solids cs))), several \<or> \<not> solids cs \<subseteq> {m})"
proof (induction cs arbitrary: m several)
  case (Cons c cs)
  have fin: "finite (solids cs)" by (simp add: solids_def)
  show ?case
  proof (cases "c = AIR")
    case False
    have "Min (insert (min m c) (solids cs)) = Min (insert m (insert c (solids cs)))"
      using fin by (cases "solids cs = {}") (simp_all add: min.assoc)
    then show ?thesis using False Cons.IH [of "min m c" "several \<or> c \<noteq> m"] by (auto simp: min_def)
  qed (use Cons.IH in simp)
qed (simp add: solids_def)

lemma of_cells_loop_None:
  "of_cells_loop cs None False =
     (if solids cs = {} then None else Some (Min (solids cs)), \<not> single (solids cs))"
proof (induction cs)
  case (Cons c cs)
  show ?case
  proof (cases "c = AIR")
    case False
    then show ?thesis by (simp add: of_cells_loop_Some single_insert)
  qed (use Cons.IH in simp)
qed (simp add: solids_def single_def)

text \<open>The canonical stack of a cut, as a function of its cells.\<close>

definition cut_stack :: "cells \<Rightarrow> nat \<Rightarrow> stack" where
  "cut_stack cs units =
     \<lparr>st_material = Min (solids cs), st_units = units, st_shape = shape_new (occupancy_of cs),
      st_cells = (if single (solids cs) then None else Some cs), st_detail = None\<rparr>"

lemma of_cells_eq:
  "of_cells cs units = (if solids cs = {} \<or> units = 0 then None else Some (cut_stack cs units))"
proof (cases "solids cs = {}")
  case False
  have "finite (solids cs)" by (simp add: solids_def)
  then have "Min (solids cs) \<in> solids cs" using False by simp
  then have "Min (solids cs) \<noteq> AIR" by (simp add: solids_def)
  then show ?thesis using False
    by (simp add: of_cells_def of_cells_loop_None stack_new_def cut_stack_def)
qed (simp add: of_cells_def of_cells_loop_None)

lemma count_occupancy: "length cs = 27 \<Longrightarrow> count_ones (occupancy_of cs) = solid_count cs"
proof -
  assume len: "length cs = 27"
  have "{i. bit (occupancy_of cs) i} = {i. i < length cs \<and> cs ! i \<noteq> AIR}"
    using len by (auto simp: bit_occupancy_of)
  then show ?thesis
    by (simp add: count_ones_card solid_count_def length_filter_conv_card)
qed

lemma shape_new_None: "shape_new occ = None \<longleftrightarrow> occ AND shape_ALL = 0 \<or> occ AND shape_ALL = shape_ALL"
  by (simp add: shape_new_def Let_def)

lemma count_ones_ALL [simp]: "count_ones shape_ALL = 27"
  using count_ones_27 [of OCCUPANCY_FULL] by (simp add: shape_ALL_full)

text \<open>An item of the canonical stack costs one unit per occupied cell, and lists those cells.\<close>

lemma per_item_cut:
  assumes "length cs = 27" and "solids cs \<noteq> {}"
  shows "per_item (cut_stack cs units) = solid_count cs"
proof -
  note m = occupancy_of_masked [OF assms(1)] and c = count_occupancy [OF assms(1)]
  have "occupancy_of cs \<noteq> 0"
  proof
    assume "occupancy_of cs = 0"
    then have "solid_count cs = 0" using c by simp
    then show False using assms(2) by (auto simp: solid_count_def solids_def filter_empty_conv)
  qed
  then show ?thesis using c m
    by (auto simp: per_item_def cut_stack_def shape_new_def Let_def shape_cells_def split: if_splits)
qed

lemma item_cells_cut:
  assumes "length cs = 27" and "solids cs \<noteq> {}"
  shows "item_cells (cut_stack cs units) = cs"
proof (cases "single (solids cs)")
  case True
  then obtain m where m: "solids cs = {m}" using assms(2) unfolding single_def by blast
  define occ where "occ = (case shape_new (occupancy_of cs) of None \<Rightarrow> shape_ALL | Some s \<Rightarrow> s)"
  have "occ = occupancy_of cs"
  proof (cases "occupancy_of cs = 0")
    case True
    obtain i where "i < 27" "cs ! i = m" using m assms(1)
      by (metis Diff_iff in_set_conv_nth insertI1 solids_def)
    then show ?thesis using True m bit_occupancy_of [OF assms(1), of i] by (auto simp: solids_def)
  qed (auto simp: occ_def shape_new_def Let_def occupancy_of_masked [OF assms(1)])
  then have "item_cells (cut_stack cs units) = value_cells (VPartial m (occupancy_of cs))"
    using True m occ_def by (simp add: item_cells_def cut_stack_def Let_def value_cells.simps)
  moreover have "value_cells (VPartial m (occupancy_of cs)) = cs"
    using m assms(1) solids_single_nth [OF m]
    by (intro nth_equalityI) (auto simp: bit_occupancy_of occupancy_nth simp del: value_cells.simps)
  ultimately show ?thesis by simp
qed (simp add: item_cells_def cut_stack_def)

section \<open>The materials of a cut\<close>

definition mask_at :: "(material_id \<times> u32) list \<Rightarrow> material_id \<Rightarrow> u32" where
  "mask_at out m = (case map_of out m of None \<Rightarrow> 0 | Some w \<Rightarrow> w)"

definition masks_ok :: "(material_id \<times> u32) list \<Rightarrow> bool" where
  "masks_ok out \<longleftrightarrow> sorted_wrt (<) (map fst out) \<and> (\<forall>(m, w) \<in> set out. m \<noteq> AIR \<and> w \<noteq> 0)"

lemma masks_okD:
  assumes "masks_ok out"
  shows "sorted (map fst out)" and "distinct (map fst out)"
  using assms by (auto simp: masks_ok_def strict_sorted_iff)

lemma mask_at_member: "masks_ok out \<Longrightarrow> (m, w) \<in> set out \<longleftrightarrow> mask_at out m = w \<and> w \<noteq> 0"
proof -
  assume ok: "masks_ok out"
  then have "(m, w) \<in> set out \<longleftrightarrow> map_of out m = Some w" by (simp add: masks_okD(2))
  moreover have "map_of out m = Some w \<Longrightarrow> w \<noteq> 0"
    using ok map_of_SomeD [of out m w] by (auto simp: masks_ok_def)
  ultimately show ?thesis by (auto simp: mask_at_def split: option.splits)
qed

lemma map_of_middle: "x \<notin> fst ` set ys \<Longrightarrow> map_of (ys @ (x, w) # zs) = (map_of (ys @ zs))(x \<mapsto> w)"
  by (induction ys) (auto simp: fun_eq_iff)

lemma map_of_insert_at:
  "x \<notin> fst ` set xs \<Longrightarrow> map_of (take i xs @ (x, w) # drop i xs) = (map_of xs)(x \<mapsto> w)"
  using map_of_middle [of x "take i xs" w "drop i xs"] by (auto dest: in_set_takeD)

lemma map_of_update_at:
  assumes "distinct (map fst xs)" and "i < length xs"
  shows "map_of (xs[i := (fst (xs ! i), w)]) = (map_of xs)(fst (xs ! i) \<mapsto> w)"
proof -
  have out: "fst (xs ! i) \<notin> fst ` set (take i xs)"
  proof
    assume "fst (xs ! i) \<in> fst ` set (take i xs)"
    then obtain j where "j < i" "fst (xs ! j) = fst (xs ! i)" by (auto simp: in_set_conv_nth)
    then show False using nth_eq_iff_index_eq [OF assms(1), of j i] assms(2) by simp
  qed
  have "xs = take i xs @ (fst (xs ! i), snd (xs ! i)) # drop (Suc i) xs"
    using split_at [OF assms(2)] by simp
  then have "map_of xs = (map_of (take i xs @ drop (Suc i) xs))(fst (xs ! i) \<mapsto> snd (xs ! i))"
    using map_of_middle [OF out] by metis
  then show ?thesis
    using map_of_middle [OF out, of w "drop (Suc i) xs"] by (simp add: upd_conv_take_nth_drop [OF assms(2)])
qed

lemma by_material_step_correct:
  assumes "masks_ok out" and "i < 32"
  shows "masks_ok (by_material_step (i, c) out) \<and>
    mask_at (by_material_step (i, c) out) m =
      (if c = m \<and> c \<noteq> AIR then mask_at out m OR push_bit i 1 else mask_at out m)"
proof (cases "c = AIR")
  case False
  note sorted = masks_okD [OF assms(1)]
  have new: "(push_bit i 1 :: u32) \<noteq> 0" 
  proof -
    have "bit (push_bit i 1 :: u32) i" using assms(2) by (simp add: bit_exp_iff)
    then show ?thesis by (metis bit_0_eq bot_apply bot_bool_def)
  qed
  show ?thesis
  proof (cases "binary_search (map fst out) c")
    case (Inr k)
    then have k: "k < length out" "fst (out ! k) = c" using binary_search_found [OF sorted(1) Inr] by auto
    let ?w = "snd (out ! k) OR push_bit i 1"
    have s: "by_material_step (i, c) out = out[k := (fst (out ! k), ?w)]"
      using False Inr by (simp add: by_material_step_def)
    have map_of: "map_of (by_material_step (i, c) out) = (map_of out)(c \<mapsto> ?w)"
      unfolding s using map_of_update_at [OF sorted(2) k(1)] k(2) by simp
    have "?w \<noteq> 0" using new by (metis or_eq_0_iff)
    then have "masks_ok (by_material_step (i, c) out)"
      unfolding s using assms(1) k False set_update_subset_insert [of out k "(fst (out ! k), ?w)"]
      by (auto simp: masks_ok_def map_update_id)
    moreover have "map_of out c = Some (snd (out ! k))"
      using k sorted(2) by (metis map_of_eq_Some_iff nth_mem prod.collapse)
    ultimately show ?thesis using map_of False by (auto simp: mask_at_def)
  next
    case (Inl k)
    have s: "by_material_step (i, c) out = take k out @ (c, push_bit i 1) # drop k out"
      using False Inl by (simp add: by_material_step_def)
    have fresh: "c \<notin> fst ` set out" using binary_search_insert [OF sorted(1) Inl] by simp
    have map_of: "map_of (by_material_step (i, c) out) = (map_of out)(c \<mapsto> push_bit i 1)"
      unfolding s by (rule map_of_insert_at [OF fresh])
    have "sorted_wrt (<) (map fst (by_material_step (i, c) out))"
      using binary_search_insert_strict [OF _ Inl] assms(1) unfolding s masks_ok_def
      by (simp add: take_map drop_map)
    then have "masks_ok (by_material_step (i, c) out)"
      using assms(1) new False unfolding masks_ok_def s set_insert_at by auto
    moreover have "map_of out c = None" using fresh by (simp add: map_of_eq_None_iff)
    ultimately show ?thesis using map_of False by (auto simp: mask_at_def)
  qed
qed (use assms(1) in \<open>simp add: by_material_step_def\<close>)

lemma by_material_fold:
  assumes "masks_ok out" and "\<forall>(i, c) \<in> set xs. i < 32"
  shows "masks_ok (fold by_material_step xs out) \<and>
    (bit (mask_at (fold by_material_step xs out) m) j \<longleftrightarrow>
      bit (mask_at out m) j \<or> m \<noteq> AIR \<and> (j, m) \<in> set xs)"
  using assms
proof (induction xs arbitrary: out)
  case (Cons x xs)
  obtain i c where x: "x = (i, c)" by (cases x)
  have "i < 32" using Cons.prems(2) x by auto
  then show ?case
    using by_material_step_correct [OF Cons.prems(1), of i c m] Cons.IH [of "by_material_step x out"]
      Cons.prems(2) x by (auto simp: bit_or_iff bit_exp_iff)
qed simp

lemma by_material_correct:
  assumes "length cs = 27"
  shows "masks_ok (by_material cs) \<and>
    (bit (mask_at (by_material cs) m) j \<longleftrightarrow> m \<noteq> AIR \<and> j < 27 \<and> cs ! j = m)"
proof -
  have "masks_ok (by_material cs) \<and> (bit (mask_at (by_material cs) m) j \<longleftrightarrow>
      bit (mask_at [] m) j \<or> m \<noteq> AIR \<and> (j, m) \<in> set (enumerate 0 cs))"
    unfolding by_material_def
    by (rule by_material_fold) (auto simp: masks_ok_def in_set_enumerate_eq assms)
  then show ?thesis by (auto simp: mask_at_def in_set_enumerate_eq assms)
qed

lemma count_mask_at:
  assumes "length cs = 27" and "m \<noteq> AIR"
  shows "count_ones (mask_at (by_material cs) m) = cells_of_material cs m"
proof -
  have "{j. bit (mask_at (by_material cs) m) j} = {j. j < length cs \<and> cs ! j = m}"
    using by_material_correct [OF assms(1)] assms by auto
  then show ?thesis by (simp add: count_ones_card cells_of_material_def length_filter_conv_card)
qed

end
