(* ===== verification/Ledger.thy ===== *)
theory Ledger
  imports Main
begin

text \<open>
  The contract of a store of countable things: each step reports what it took in and what it gave
  out, and what the store holds changes by exactly that. The client proved here once is a run of any
  steps, whose books balance. \<open>amount P\<close> counts the things whose kind satisfies \<open>P\<close>.
\<close>

definition entries :: "('k \<Rightarrow> bool) \<Rightarrow> ('k \<times> nat) list \<Rightarrow> nat" where
  "entries P es = (\<Sum>(k, n)\<leftarrow>es. if P k then n else 0)"

lemma entries_simps [simp]:
  "entries P [] = 0" "entries P ((k, n) # es) = (if P k then n else 0) + entries P es"
  "entries P (es @ fs) = entries P es + entries P fs"
  by (simp_all add: entries_def)

inductive trace ::
  "('s \<Rightarrow> ('k \<times> nat) list \<Rightarrow> ('k \<times> nat) list \<Rightarrow> 's \<Rightarrow> bool) \<Rightarrow>
     's \<Rightarrow> ('k \<times> nat) list \<Rightarrow> ('k \<times> nat) list \<Rightarrow> 's \<Rightarrow> bool"
  for step and s0 where
  start: "trace step s0 [] [] s0"
| next_step: "trace step s0 ins outs s \<Longrightarrow> step s i out s' \<Longrightarrow> trace step s0 (i @ ins) (out @ outs) s'"

locale ledger =
  fixes step :: "'s \<Rightarrow> ('k \<times> nat) list \<Rightarrow> ('k \<times> nat) list \<Rightarrow> 's \<Rightarrow> bool"
    and invar :: "'s \<Rightarrow> bool"
    and amount :: "('k \<Rightarrow> bool) \<Rightarrow> 's \<Rightarrow> nat"
  assumes step_invar: "invar s \<Longrightarrow> step s i out s' \<Longrightarrow> invar s'"
    and step_amount: "invar s \<Longrightarrow> step s i out s' \<Longrightarrow>
      amount P s' + entries P out = amount P s + entries P i"
begin

lemma run_invar: "trace step s0 ins outs s \<Longrightarrow> invar s0 \<Longrightarrow> invar s"
  by (induction rule: trace.induct) (auto intro: step_invar)

lemma run_balances:
  "trace step s0 ins outs s \<Longrightarrow> invar s0 \<Longrightarrow> amount P s + entries P outs = amount P s0 + entries P ins"
proof (induction rule: trace.induct)
  case (next_step ins outs s i out s')
  have "invar s" using run_invar next_step.hyps(1) next_step.prems .
  then show ?case using step_amount [OF _ next_step.hyps(2), of P] next_step.IH [OF next_step.prems] by simp
qed simp

text \<open>A run that takes nothing in gives out no more of a kind than there was.\<close>

lemma run_bounded:
  "trace step s0 [] outs s \<Longrightarrow> invar s0 \<Longrightarrow> entries P outs \<le> amount P s0"
  using run_balances [of s0 "[]" outs s P] by simp

end

end
