(* ===== verification/Inventory.thy ===== *)
theory Inventory
  imports Slots_Ops Cut_Laws Ledger
begin

text \<open>
  The properties of the inventory: the steps a player's slots can take, the balance of their books
  over any run, and the laws of single operations, of stacks and of cuts.
\<close>

section \<open>The steps of a player's slots\<close>

inductive slots_step ::
  "slots \<Rightarrow> (stack_key \<times> nat) list \<Rightarrow> (stack_key \<times> nat) list \<Rightarrow> slots \<Rightarrow> bool" where
  click: "slots_step s [] [] (snd (click_slot s view i button across))"
| swap: "slots_step s [] [] (snd (swap_offhand s view i))"
| shift: "slots_step s [] [] (snd (shift_click s view i into))"
| insert: "stack_ok st \<Longrightarrow> insert_within s view st = (left, s') \<Longrightarrow>
    slots_step s [(key_of_stack st, st_units st - left_units left)] [] s'"
| give: "stack_ok st \<Longrightarrow> give_into s view i st = (True, s') \<Longrightarrow>
    slots_step s [(key_of_stack st, st_units st)] [] s'"
| take: "slots_take s view which n = (got, s') \<Longrightarrow> slots_step s [] [(which, got)] s'"
| take_from: "take_from s view i which n = (got, s') \<Longrightarrow> slots_step s [] [(which, got)] s'"
| take_held: "take_held s portion = (Some t, s') \<Longrightarrow> slots_step s [] [(key_of_stack t, st_units t)] s'"
| untake_held: "stack_ok st \<Longrightarrow> untake_held s view st = (left, s') \<Longrightarrow>
    slots_step s [(key_of_stack st, st_units st - left_units left)] [] s'"

inductive_cases slots_step_cases: "slots_step s ins outs s'"



section \<open>Books\<close>


definition stone :: "nat \<Rightarrow> stack" where
  "stone n = \<lparr>st_material = 5, st_units = n, st_shape = None, st_cells = None, st_detail = None\<rparr>"

definition sample_slots :: slots where
  "sample_slots = \<lparr>sl_views = [\<lparr>vw_name = PLAYER_MAIN, vw_slots = [Some (stone 41), None]\<rparr>],
     sl_grab = \<lparr>held = None\<rparr>, sl_main_fixed = False, sl_items = {}, sl_grain = 1\<rparr>"

lemmas sample_simps = sample_slots_def stone_def stack_ok_def PLAYER_MAIN_def index_of_def locate_def

lemma sample_slots_inv: "slots_inv sample_slots"
  by (simp add: slots_inv_def sample_simps)


text \<open>
  C12. A click, whatever it names, leaves the slots well formed, keeps every view's name and size, and
  changes neither the total nor the amount of any item.
\<close>

theorem click_conserves:
  assumes "slots_inv s"
  shows "slots_inv (snd (click_slot s view i button across)) \<and>
    layout (snd (click_slot s view i button across)) = layout s \<and>
    holds ((=) k) (snd (click_slot s view i button across)) = holds ((=) k) s \<and>
    slots_total_units (snd (click_slot s view i button across)) = slots_total_units s"
  using click_slot_rearranged [OF assms, of view i button across]
  by (simp add: rearranged_def flip: holds_total)

theorem click_conserves_witness:
  "slots_total_units (snd (click_slot sample_slots PLAYER_MAIN 0 ShiftLeft None)) = 41"
  using click_conserves [OF sample_slots_inv, of PLAYER_MAIN 0 ShiftLeft None]
  by (simp add: sample_slots_def slots_total_units_def view_total_units_def stone_def)




definition full_slots :: slots where
  "full_slots = \<lparr>sl_views = [\<lparr>vw_name = PLAYER_MAIN, vw_slots = [Some (stone 2400)]\<rparr>],
     sl_grab = \<lparr>held = Some (stone 100)\<rparr>, sl_main_fixed = True, sl_items = {}, sl_grain = 1\<rparr>"

lemma full_slots_inv: "slots_inv full_slots"
  by (simp add: slots_inv_def full_slots_def stone_def stack_ok_def)

lemmas insert_simps = insert_within_def index_of_def PLAYER_MAIN_def pour_def slot_room_def capacity_def
  stack_capacity_def grain_for_def stack_grain_def takeable_by_def stack_split_def stack_merge_def
  same_item_def key_of_stack_def checked_add_u32_def stack_is_empty_def Let_def stone_def set_view_def
  insert_rest.simps


text \<open>
  C15. Returning the held stack destroys what did not fit: when part of it went in, the slots hold
  less by exactly the rest, which the cursor no longer has.
\<close>

theorem return_held_destroys:
  assumes "slots_inv s" and "cursor s = Some hand"
    and "insert_within (set_cursor s None) view hand = (left, s1)" and "return_held s view = (moved, s')"
  shows "slots_total_units s' + (if moved then left_units left else 0) = slots_total_units s"
  using return_held_balance [OF assms, of "\<lambda>_. True"] by (simp add: holds_total)

theorem return_held_destroys_witness:
  "slots_total_units full_slots = 2500 \<and> fst (return_held full_slots PLAYER_MAIN) \<and>
   slots_total_units (snd (return_held full_slots PLAYER_MAIN)) = 2430"
proof -
  have i: "insert_within (set_cursor full_slots None) PLAYER_MAIN (stone 100) =
      (Some (stone 70), full_slots\<lparr>sl_views := [\<lparr>vw_name = PLAYER_MAIN, vw_slots = [Some (stone 2430)]\<rparr>],
        sl_grab := \<lparr>held = None\<rparr>\<rparr>)"
    by (simp add: full_slots_def set_cursor_def insert_simps)
  obtain moved s' where r: "return_held full_slots PLAYER_MAIN = (moved, s')" by fastforce
  have c: "cursor full_slots = Some (stone 100)" by (simp add: full_slots_def)
  have "moved" using r i by (auto simp: return_held_def c slots_insert_def stone_def split: if_splits)
  moreover have "slots_total_units full_slots = 2500"
    by (simp add: full_slots_def slots_total_units_def view_total_units_def stone_def)
  ultimately show ?thesis
    using return_held_destroys [OF full_slots_inv c i r] r by (simp add: left_units_def stone_def)
qed




section \<open>Stacks\<close>

text \<open>
  C20. Splitting a stack and merging the parts gives the stack back, and a merge succeeds exactly for
  the same item within a \<open>u32\<close>, adding the units.
\<close>

theorem split_merge_round_trip:
  assumes "stack_ok s" and "n \<le> st_units s"
  shows "\<exists>rest part. stack_split s n = Inr (rest, part) \<and> st_units part = n \<and> stack_merge rest part = Inr s \<and>
    same_item part s \<and>
    (stack_merge s t = Inr m \<longleftrightarrow> same_item s t \<and> st_units s + st_units t < u32_limit \<and>
      m = s\<lparr>st_units := st_units s + st_units t\<rparr>)"
  using assms remerge [OF assms(2)] stack_split_le [OF assms(2)]
  by (auto simp: same_item_def stack_merge_Inr stack_ok_def)

theorem split_merge_round_trip_witness:
  "\<exists>rest part. stack_split (stone 40) 15 = Inr (rest, part) \<and> st_units part = 15 \<and>
     stack_merge rest part = Inr (stone 40)"
proof -
  have "stack_ok (stone 40)" "15 \<le> st_units (stone 40)" by (simp_all add: stone_def stack_ok_def)
  then show ?thesis using split_merge_round_trip [of "stone 40" 15] by blast
qed

text \<open>
  C17. Breaking a block yields, in ascending order of material, one loose stack per material with one
  unit per cell of it; and clearing a block to air removes exactly what breaking it yields.
\<close>

theorem breaking_conserves:
  assumes "wf_value (view_to_value w)" and "is_canonical (view_to_value w)"
  shows "loose_sorted (break_block w) \<and>
    (\<forall>m. m \<noteq> AIR \<longrightarrow> amount (break_block w) m = cells_of_material (view_cells w) m) \<and>
    removed_units w (WUniform AIR) = break_block w"
proof -
  note b = break_block_correct [OF assms] and r = removed_units_correct [of w "WUniform AIR"]
  have len: "length (view_cells w) = 27" using assms(1) by (simp only: view_cells_value_cells length_value_cells)
  have "amount (removed_units w (WUniform AIR)) m = amount (break_block w) m" if "m \<noteq> AIR" for m
  proof -
    have "amount (removed_units w (WUniform AIR)) m =
        length (filter (\<lambda>i. view_subnode w i = m \<and> view_subnode (WUniform AIR) i \<noteq> m) [0..<27])"
      using r [of m] that by blast
    also have "\<dots> = length (filter (\<lambda>i. view_cells w ! i = m) [0..<27])"
      using that by (intro arg_cong [where f = length] filter_cong) (auto simp: view_subnode_cells simp del: view_cells_value_cells)
    also have "\<dots> = card {i. i < length (view_cells w) \<and> view_cells w ! i = m}"
      unfolding len by (subst distinct_card [symmetric]) (auto intro!: arg_cong [where f = card])
    also have "\<dots> = cells_of_material (view_cells w) m"
      by (simp only: cells_of_material_def length_filter_conv_card)
    finally show ?thesis using b that by simp
  qed
  then have "removed_units w (WUniform AIR) = break_block w"
    using b r by (intro loose_sorted_unique) blast+
  then show ?thesis using b by blast
qed

theorem breaking_conserves_witness:
  "amount (break_block (WPartial 7 0b10110)) 7 = 3"
proof -
  let ?w = "WPartial 7 0b10110"
  have "is_canonical (view_to_value ?w)"
    by (simp add: is_canonical_def canonical_partial_def OCCUPANCY_FULL_def AIR_def Let_def)
  then have "amount (break_block ?w) 7 = cells_of_material (view_cells ?w) 7"
    using breaking_conserves [of ?w] by (simp add: AIR_def)
  also have "\<dots> = 3" by code_simp
  finally show ?thesis .
qed

text \<open>
  An edit yields, for each material, one unit per cell that held it and no longer does.
\<close>

theorem edit_yields_what_went:
  "loose_sorted (removed_units before after) \<and>
   (m \<noteq> AIR \<longrightarrow> amount (removed_units before after) m =
     card {i. i < 27 \<and> view_subnode before i = m \<and> view_subnode after i \<noteq> m})"
proof -
  have "length (filter Q [0..<27]) = card {i. i < 27 \<and> Q i}" for Q :: "nat \<Rightarrow> bool"
    by (subst distinct_card [symmetric]) (auto intro!: arg_cong [where f = card])
  then show ?thesis using removed_units_correct [of before after m] by simp
qed

theorem edit_yields_what_went_witness:
  "amount (removed_units (WUniform 7) (WPartial 7 0b11)) 7 = 25"
proof -
  have "amount (removed_units (WUniform 7) (WPartial 7 0b11)) 7 =
      card {i. i < 27 \<and> view_subnode (WUniform 7) i = 7 \<and> view_subnode (WPartial 7 0b11) i \<noteq> 7}"
    using edit_yields_what_went [of "WUniform 7" "WPartial 7 0b11" 7] by (simp add: AIR_def)
  also have "{i. i < 27 \<and> view_subnode (WUniform 7) i = 7 \<and> view_subnode (WPartial 7 0b11) i \<noteq> 7} =
      set (filter (\<lambda>i. view_subnode (WPartial 7 0b11) i \<noteq> 7) [0..<27])" by auto
  also have "card \<dots> = 25" by code_simp
  finally show ?thesis .
qed

text \<open>
  C18. Consolidating keeps every unit of every item except empty stacks and air, lists the items in
  ascending order, and lists each once when the total fits a \<open>u32\<close>.
\<close>

theorem consolidate_conserves:
  assumes "\<forall>s \<in> set stacks. st_units s < u32_limit"
  shows "weights P (consolidate stacks) = weights P (filter real_stack stacks) \<and>
    sorted (map key_of_stack (consolidate stacks)) \<and>
    (total_units stacks < u32_limit \<longrightarrow> distinct (map key_of_stack (consolidate stacks)))"
  using consolidate_fold [of "[]" stacks P] consolidate_fold_distinct [of "[]" stacks] assms
  by (simp add: consolidate_def consolidated_ok_def total_units_def)

theorem consolidate_conserves_witness:
  "weights (\<lambda>_. True) (consolidate [stone 40, stone 0, stone 2]) = 42 \<and>
   distinct (map key_of_stack (consolidate [stone 40, stone 0, stone 2]))"
  using consolidate_conserves [of "[stone 40, stone 0, stone 2]" "\<lambda>_. True"]
  by (simp add: stone_def real_stack_def stack_is_empty_def AIR_def weight_def total_units_def)

text \<open>
  C19. Spending takes the smaller of what is asked and what there is of the plain material, leaves
  every other stack alone and leaves no empty stack.
\<close>

theorem debit_accounts:
  assumes "debit stacks m n = (got, rest)"
  shows "got = min n (weights (spendable m) stacks) \<and>
    weights (spendable m) rest + got = weights (spendable m) stacks \<and>
    (\<forall>Q. (\<forall>k. spendable m k \<longrightarrow> \<not> Q k) \<longrightarrow> weights Q rest = weights Q stacks) \<and>
    (\<forall>s \<in> set rest. 0 < st_units s)"
proof -
  obtain ts r where d: "debit_loop stacks m n = (ts, r)" by fastforce
  have r: "got = n - r" "rest = filter (\<lambda>s. \<not> stack_is_empty s) ts" using assms d by (simp_all add: debit_def)
  have "\<forall>s \<in> set rest. 0 < st_units s" using r(2) by (auto simp: stack_is_empty_def)
  then show ?thesis using debit_loop_correct [OF d] r weights_filter_nonempty by auto
qed

theorem debit_accounts_witness:
  "fst (debit [stone 10, stone 5] 5 12) = 12 \<and>
   weights (spendable 5) (snd (debit [stone 10, stone 5] 5 12)) = 3"
proof -
  obtain got rest where d: "debit [stone 10, stone 5] 5 12 = (got, rest)" by fastforce
  have "weights (spendable 5) [stone 10, stone 5] = 15" by (simp add: weight_spendable stone_def)
  then show ?thesis using debit_accounts [OF d] d by simp
qed

section \<open>Cuts\<close>



text \<open>
  C22. Placing \<open>n\<close> loose units fills \<open>n\<close> cells, at most a block, in the documented order: the whole
  bottom layer before the next, rows along \<open>z\<close> within a layer, \<open>x\<close> fastest.
\<close>

theorem placement_bottom_up:
  assumes "x < 3" and "y < 3" and "z < 3"
  shows "(bit (placement_mask n) (subnode_index x y z) \<longleftrightarrow> x + 3 * z + 9 * y < n) \<and>
    count_ones (placement_mask n) = min n 27"
  using bit_placement_mask [OF assms] count_placement_mask by simp

theorem placement_bottom_up_witness:
  "bit (placement_mask 10) (subnode_index 0 1 0) \<and> \<not> bit (placement_mask 10) (subnode_index 1 1 0)"
  using placement_bottom_up [of 0 1 0 10] placement_bottom_up [of 1 1 0 10] by simp

text \<open>
  C23. The stack built from 27 cells is determined by them: its item has exactly those cells and
  costs one unit per occupied cell, it carries the cells only when they hold several materials, and
  building it again from its item gives the same stack.
\<close>

theorem cut_is_canonical:
  assumes "length cs = 27" and "of_cells cs n = Some s"
  shows "item_cells s = cs \<and> per_item s = solid_count cs \<and> st_material s = Min (solids cs) \<and>
    (st_cells s \<noteq> None \<longleftrightarrow> \<not> single (solids cs)) \<and> st_units s = n \<and>
    of_cells (item_cells s) n = Some s \<and> stack_canonical s = Some s"
proof -
  have s: "solids cs \<noteq> {}" "n \<noteq> 0" "s = cut_stack cs n"
    using assms(2) by (auto simp: of_cells_eq split: if_splits)
  have "stack_canonical s = Some s"
    using s by (simp add: stack_canonical_def of_cells_eq cut_stack_def)
  then show ?thesis using s item_cells_cut [OF assms(1) s(1)] per_item_cut [OF assms(1) s(1)] assms(2)
    by (simp add: cut_stack_def)
qed

definition stair :: cells where
  "stair = [5, 6] @ replicate 25 AIR"

theorem cut_is_canonical_witness:
  "\<exists>s. of_cells stair 4 = Some s \<and> per_item s = 2 \<and> st_material s = 5 \<and> item_cells s = stair"
proof -
  have sol: "solids stair = {5, 6}" by (auto simp: solids_def stair_def AIR_def)
  then obtain s where s: "of_cells stair 4 = Some s" by (simp add: of_cells_eq)
  have "length stair = 27" "solid_count stair = 2" by (simp_all add: stair_def solid_count_def AIR_def)
  then show ?thesis using cut_is_canonical [OF _ s] s sol by auto
qed

text \<open>
  The materials of an item are listed in ascending order, each with the number of cells it has.
\<close>

theorem materials_counted:
  assumes "length (item_cells s) = 27"
  shows "sorted_wrt (<) (map fst (stack_materials s)) \<and>
    ((m, n) \<in> set (stack_materials s) \<longleftrightarrow> m \<noteq> AIR \<and> 0 < n \<and> n = cells_of_material (item_cells s) m)"
proof -
  let ?out = "by_material (item_cells s)"
  have ok: "masks_ok ?out" and fst: "map fst (stack_materials s) = map fst ?out"
    using by_material_correct [OF assms] by (auto simp: stack_materials_def split_beta)
  have air: "mask_at ?out AIR = 0"
    using by_material_correct [OF assms, of AIR] by (auto intro: bit_word_eqI)
  have "(m, n) \<in> set (stack_materials s) \<longleftrightarrow> mask_at ?out m \<noteq> 0 \<and> n = count_ones (mask_at ?out m)"
    using mask_at_member [OF ok, of m] by (force simp: stack_materials_def)
  also have "\<dots> \<longleftrightarrow> m \<noteq> AIR \<and> 0 < n \<and> n = cells_of_material (item_cells s) m"
    using count_mask_at [OF assms, of m] air count_ones_eq_0 [of "mask_at ?out m"] by (cases "m = AIR") auto
  finally show ?thesis using ok fst by (simp add: masks_ok_def)
qed

theorem materials_counted_witness:
  "(5, 27) \<in> set (stack_materials (stone 40))"
proof -
  have "item_cells (stone 40) = replicate 27 5" by code_simp
  then show ?thesis using materials_counted [of "stone 40" 5 27] by (simp add: AIR_def)
qed

end
