(* ===== verification/Runs.thy ===== *)
theory Runs
  imports Coords
begin

text \<open>
  What the run-length codecs of the light and fluid layers share: little-endian words, runs of one
  value, and the interface of a per-block layer (reading after writing), under which filling a range
  of blocks is proved once. The codecs are in \<open>Light_Layer\<close> and \<open>Fluid\<close>.
\<close>

type_synonym runs = "(nat \<times> u16) list"

definition to_le_bytes :: "u16 \<Rightarrow> u8 list" where
  "to_le_bytes w = [ucast w, ucast (drop_bit 8 w)]"

definition from_le_bytes :: "u8 \<Rightarrow> u8 \<Rightarrow> u16" where
  "from_le_bytes lo hi = ucast lo OR push_bit 8 (ucast hi)"

text \<open>A word at an offset, or nothing if it is not fully there.\<close>

definition read_u16 :: "u8 list \<Rightarrow> nat \<Rightarrow> u16 option" where
  "read_u16 bytes offset =
     (if offset + 2 \<le> length bytes then Some (from_le_bytes (bytes ! offset) (bytes ! (offset + 1)))
      else None)"

definition run_bytes :: "nat \<times> u16 \<Rightarrow> u8 list" where
  "run_bytes r = to_le_bytes (of_nat (fst r)) @ to_le_bytes (snd r)"

definition pack :: "runs \<Rightarrow> u8 list" where
  "pack rs = concat (map run_bytes rs)"

definition expand :: "runs \<Rightarrow> u16 list" where
  "expand rs = concat (map (\<lambda>(n, v). replicate n v) rs)"

definition runs_ok :: "runs \<Rightarrow> bool" where
  "runs_ok rs \<longleftrightarrow> (\<forall>(n, v) \<in> set rs. 0 < n \<and> n < 65536)"

lemma runs_simps [simp]:
  "pack [] = []" "pack (r # rs) = run_bytes r @ pack rs"
  "expand [] = []" "expand ((n, v) # rs) = replicate n v @ expand rs" "expand (rs @ ss) = expand rs @ expand ss"
  "runs_ok []" "runs_ok ((n, v) # rs) \<longleftrightarrow> 0 < n \<and> n < 65536 \<and> runs_ok rs"
  by (auto simp: pack_def expand_def runs_ok_def)

lemma length_run_bytes [simp]: "length (run_bytes r) = 4"
  by (simp add: run_bytes_def to_le_bytes_def)

lemma from_to_le: "from_le_bytes (ucast w) (ucast (drop_bit 8 w)) = w"
proof (rule bit_word_eqI)
  fix n assume "n < LENGTH(16)"
  then show "bit (from_le_bytes (ucast w) (ucast (drop_bit 8 w))) n = bit w n"
    by (auto simp: from_le_bytes_def bit_or_iff bit_push_bit_iff bit_ucast_iff bit_drop_bit_eq)
qed

lemma to_from_le: "to_le_bytes (from_le_bytes a b) = [a, b]"
proof -
  have "ucast (from_le_bytes a b) = a"
    by (rule bit_word_eqI) (auto simp: from_le_bytes_def bit_or_iff bit_push_bit_iff bit_ucast_iff)
  moreover have "ucast (drop_bit 8 (from_le_bytes a b)) = b"
    by (rule bit_word_eqI)
      (auto simp: from_le_bytes_def bit_or_iff bit_push_bit_iff bit_ucast_iff bit_drop_bit_eq dest: bit_imp_le_length)
  ultimately show ?thesis by (simp add: to_le_bytes_def)
qed

lemma read_u16_append:
  "read_u16 (xs @ to_le_bytes w @ ys) (length xs) = Some w"
  by (simp add: read_u16_def to_le_bytes_def nth_append from_to_le)

lemma unat_run: "n < 65536 \<Longrightarrow> unat (of_nat n :: u16) = n"
  by (simp add: unat_of_nat)

text \<open>Reading a run at an offset succeeds exactly where four bytes are left, and is the run there.\<close>

lemma read_run:
  assumes "n < 65536" and "bytes = xs @ run_bytes (n, v) @ ys"
  shows "read_u16 bytes (length xs) = Some (of_nat n)" and "read_u16 bytes (length xs + 2) = Some v"
proof -
  show "read_u16 bytes (length xs) = Some (of_nat n)"
    using read_u16_append [of xs "of_nat n" "to_le_bytes v @ ys"] assms(2) by (simp add: run_bytes_def)
  have "length (xs @ to_le_bytes (of_nat n)) = length xs + 2" by (simp add: to_le_bytes_def)
  then show "read_u16 bytes (length xs + 2) = Some v"
    using read_u16_append [of "xs @ to_le_bytes (of_nat n)" v ys] assms(2) by (simp add: run_bytes_def)
qed

lemma run_read:
  assumes "read_u16 bytes off = Some c" and "read_u16 bytes (off + 2) = Some v"
  shows "drop off bytes = run_bytes (unat c, v) @ drop (off + 4) bytes"
proof -
  have len: "off + 4 \<le> length bytes" using assms(2) by (simp add: read_u16_def split: if_splits)
  have d: "drop k bytes = bytes ! k # bytes ! Suc k # drop (Suc (Suc k)) bytes" if "k + 2 \<le> length bytes" for k
    using that by (simp add: Cons_nth_drop_Suc)
  have "to_le_bytes c = [bytes ! off, bytes ! Suc off]" "to_le_bytes v = [bytes ! (off + 2), bytes ! Suc (off + 2)]"
    using assms by (auto simp: read_u16_def to_from_le split: if_splits)
  then have "run_bytes (unat c, v) = [bytes ! off, bytes ! Suc off, bytes ! (off + 2), bytes ! Suc (off + 2)]"
    by (simp add: run_bytes_def)
  moreover have "drop off bytes = bytes ! off # bytes ! Suc off # drop (off + 2) bytes" using d [of off] len by simp
  moreover have "drop (off + 2) bytes = bytes ! (off + 2) # bytes ! Suc (off + 2) # drop (off + 4) bytes"
    using d [of "off + 2"] len by (simp add: eval_nat_numeral)
  ultimately show ?thesis by simp
qed

lemma to_le_inj: "to_le_bytes v = to_le_bytes w \<longleftrightarrow> v = w"
  by (auto simp: to_le_bytes_def) (metis from_to_le)

lemma run_bytes_inj:
  assumes "n < 65536" and "m < 65536"
  shows "run_bytes (n, v) = run_bytes (m, w) \<longleftrightarrow> n = m \<and> v = w"
proof -
  have "run_bytes (n, v) = run_bytes (m, w) \<longleftrightarrow> (of_nat n :: u16) = of_nat m \<and> v = w"
    by (simp add: run_bytes_def to_le_inj append_eq_append_conv [of "to_le_bytes (of_nat n)"] to_le_bytes_def [of "of_nat n"]
        to_le_bytes_def [of "of_nat m"]) (metis to_le_bytes_def to_le_inj)
  also have "(of_nat n :: u16) = of_nat m \<longleftrightarrow> n = m" using unat_run [OF assms(1)] unat_run [OF assms(2)] by metis
  finally show ?thesis .
qed

lemma pack_inj: "runs_ok rs \<Longrightarrow> runs_ok ss \<Longrightarrow> pack rs = pack ss \<Longrightarrow> rs = ss"
proof (induction rs arbitrary: ss)
  case Nil
  then show ?case by (cases ss) (auto simp: run_bytes_def to_le_bytes_def)
next
  case (Cons r rs)
  obtain n v where r: "r = (n, v)" by (cases r)
  obtain m w ts where ss: "ss = (m, w) # ts"
    using Cons.prems(3) by (cases ss) (auto simp: run_bytes_def to_le_bytes_def)
  have "run_bytes (n, v) = run_bytes (m, w)" "pack rs = pack ts" using Cons.prems(3) r ss by simp_all
  then show ?case using Cons.IH [of ts] Cons.prems(1,2) run_bytes_inj [of n m v w] r ss by simp
qed

section \<open>Encoding a list as runs\<close>

definition encodes :: "u8 list \<Rightarrow> u16 list \<Rightarrow> bool" where
  "encodes bytes xs \<longleftrightarrow> (\<exists>rs. bytes = pack rs \<and> runs_ok rs \<and> expand rs = xs)"

lemma encodes_Nil: "encodes [] []"
  unfolding encodes_def by (rule exI [of _ "[]"]) simp

lemma encodes_Cons:
  assumes "0 < n" and "n < 65536" and "encodes bytes xs"
  shows "encodes (to_le_bytes (of_nat n) @ to_le_bytes v @ bytes) (replicate n v @ xs)"
proof -
  obtain rs where "bytes = pack rs" "runs_ok rs" "expand rs = xs" using assms(3) unfolding encodes_def by blast
  then show ?thesis unfolding encodes_def using assms(1,2)
    by (intro exI [of _ "(n, v) # rs"]) (simp add: run_bytes_def)
qed

section \<open>Layers\<close>

locale block_layer =
  fixes get :: "'l \<Rightarrow> nat \<Rightarrow> 'v"
    and put :: "'l \<Rightarrow> nat \<Rightarrow> 'v \<Rightarrow> 'l"
    and invar :: "'l \<Rightarrow> bool"
    and ok :: "'v \<Rightarrow> bool"
    and cap :: nat
  assumes put_invar: "invar l \<Longrightarrow> i < cap \<Longrightarrow> ok v \<Longrightarrow> invar (put l i v)"
    and get_put: "invar l \<Longrightarrow> i < cap \<Longrightarrow> j < cap \<Longrightarrow> ok v \<Longrightarrow>
      get (put l i v) j = (if j = i then v else get l j)"
begin

lemma put_range:
  assumes "invar l" and "b \<le> cap" and "ok v"
  shows "invar (fold (\<lambda>i l. put l i v) [a..<b] l) \<and>
    (\<forall>j < cap. get (fold (\<lambda>i l. put l i v) [a..<b] l) j = (if a \<le> j \<and> j < b then v else get l j))"
  using assms(1,2)
proof (induction b)
  case (Suc b)
  then show ?case using put_invar get_put assms(3) by (cases "a \<le> b") auto
qed simp

end

end
