(* ===== verification/Light_Layer.thy ===== *)
theory Light_Layer
  imports Light Runs
begin

text \<open>
  Per-chunk light storage and its wire codec, from \<^verbatim>\<open>crates/core/src/light/layer.rs\<close> and
  \<^verbatim>\<open>crates/core/src/light/codec.rs\<close>. The index of the encoder's loop is the list of levels still to
  encode; the decoder keeps its byte offset. A dense array has 4,096 entries by its Rust type, which
  \<open>layer_inv\<close> records. \<open>hash_into\<close> feeds an external hasher and is left out.
\<close>

section \<open>Storage\<close>

datatype light_layer = LUniform light | LDense "light list"

definition layer_uniform :: "light \<Rightarrow> light_layer" where
  "layer_uniform level = LUniform level"

definition layer_dark :: light_layer where
  "layer_dark = layer_uniform DARK"

fun layer_get :: "light_layer \<Rightarrow> local_block \<Rightarrow> light" where
  "layer_get (LUniform level) local = level"
| "layer_get (LDense levels) local = levels ! local_index local"

fun layer_set :: "light_layer \<Rightarrow> local_block \<Rightarrow> light \<Rightarrow> light_layer" where
  "layer_set (LUniform current) local level =
     (if current = level then LUniform current
      else LDense ((replicate BLOCKS_PER_CHUNK current)[local_index local := level]))"
| "layer_set (LDense levels) local level = LDense (levels[local_index local := level])"

fun layer_is_uniform :: "light_layer \<Rightarrow> light option" where
  "layer_is_uniform (LUniform level) = Some level"
| "layer_is_uniform (LDense levels) =
     (let first = levels ! 0 in if list_all (\<lambda>level. level = first) levels then Some first else None)"

definition layer_compact :: "light_layer \<Rightarrow> light_layer" where
  "layer_compact l = (case layer_is_uniform l of Some level \<Rightarrow> LUniform level | None \<Rightarrow> l)"

fun layer_is_compact :: "light_layer \<Rightarrow> bool" where
  "layer_is_compact (LUniform _) \<longleftrightarrow> True"
| "layer_is_compact (LDense _) \<longleftrightarrow> False"

fun layer_levels :: "light_layer \<Rightarrow> light list" where
  "layer_levels (LUniform level) = replicate BLOCKS_PER_CHUNK level"
| "layer_levels (LDense levels) = levels"

section \<open>Codec\<close>

definition LIGHT_TAG_UNIFORM :: u8 where "LIGHT_TAG_UNIFORM = 0"
definition LIGHT_TAG_RUNS :: u8 where "LIGHT_TAG_RUNS = 1"

datatype light_decode_error =
    LightEmpty
  | LightUnknownTag u8
  | LightTruncated
  | LightEmptyRun
  | LightWrongLength nat nat

text \<open>The inner loop: how far the level at the front of the rest repeats, up to the field's limit.\<close>

fun run_length :: "light list \<Rightarrow> light \<Rightarrow> nat \<Rightarrow> nat" where
  "run_length [] level run = run"
| "run_length (x # xs) level run =
     (if x = level \<and> run < 65535 then run_length xs level (run + 1) else run)"

function encode_levels :: "light list \<Rightarrow> u8 list" where
  "encode_levels [] = []"
| "encode_levels (level # rest) =
     (let run = run_length rest level 1
      in to_le_bytes (of_nat run) @ to_le_bytes level @ encode_levels (drop (run - 1) rest))"
  by pat_completeness auto

termination
  by (relation "measure length") auto

definition light_encode :: "light_layer \<Rightarrow> u8 list" where
  "light_encode layer =
     (case layer_is_uniform layer of
        Some level \<Rightarrow> LIGHT_TAG_UNIFORM # to_le_bytes level
      | None \<Rightarrow> LIGHT_TAG_RUNS # encode_levels (layer_levels layer))"

function light_runs ::
  "u8 list \<Rightarrow> nat \<Rightarrow> nat \<Rightarrow> light_layer \<Rightarrow> light_decode_error + (nat \<times> light_layer)" where
  "light_runs rest offset covered layer =
     (if offset < length rest then
        case read_u16 rest offset of
          None \<Rightarrow> Inl LightTruncated
        | Some word \<Rightarrow>
            (case read_u16 rest (offset + 2) of
               None \<Rightarrow> Inl LightTruncated
             | Some level \<Rightarrow>
                 (let count = unat word
                  in if count = 0 then Inl LightEmptyRun
                     else if covered + count > BLOCKS_PER_CHUNK then
                       Inl (LightWrongLength (covered + count) BLOCKS_PER_CHUNK)
                     else
                       light_runs rest (offset + 4) (covered + count)
                         (fold (\<lambda>index l. layer_set l (local_from_index index) level)
                           [covered..<covered + count] layer)))
      else Inr (covered, layer))"
  by pat_completeness auto

termination
  by (relation "measure (\<lambda>(rest, offset, covered, layer). length rest - offset)") auto

declare light_runs.simps [simp del]

definition light_decode :: "u8 list \<Rightarrow> light_decode_error + light_layer" where
  "light_decode bytes =
     (case bytes of
        [] \<Rightarrow> Inl LightEmpty
      | tag # rest \<Rightarrow>
          if tag = LIGHT_TAG_UNIFORM then
            (case read_u16 rest 0 of
               None \<Rightarrow> Inl LightTruncated
             | Some level \<Rightarrow>
                 if length rest \<noteq> 2 then Inl LightTruncated else Inr (layer_uniform level))
          else if tag = LIGHT_TAG_RUNS then
            (case light_runs rest 0 0 layer_dark of
               Inl e \<Rightarrow> Inl e
             | Inr (covered, layer) \<Rightarrow>
                 if covered \<noteq> BLOCKS_PER_CHUNK then Inl (LightWrongLength covered BLOCKS_PER_CHUNK)
                 else Inr (layer_compact layer))
          else Inl (LightUnknownTag tag))"

section \<open>The layer as a store\<close>

fun layer_inv :: "light_layer \<Rightarrow> bool" where
  "layer_inv (LUniform _) \<longleftrightarrow> True"
| "layer_inv (LDense levels) \<longleftrightarrow> length levels = BLOCKS_PER_CHUNK"

abbreviation layer_at :: "light_layer \<Rightarrow> nat \<Rightarrow> light" where
  "layer_at l i \<equiv> layer_get l (local_from_index i)"

interpretation light: block_layer layer_at "\<lambda>l i v. layer_set l (local_from_index i) v" layer_inv "\<lambda>_. True" BLOCKS_PER_CHUNK
proof
  fix l i v
  assume "layer_inv l" "i < BLOCKS_PER_CHUNK"
  then show "layer_inv (layer_set l (local_from_index i) v)" by (cases l) auto
next
  fix l i j v
  assume "layer_inv l" "i < BLOCKS_PER_CHUNK" "j < BLOCKS_PER_CHUNK"
  then show "layer_at (layer_set l (local_from_index i) v) j = (if j = i then v else layer_at l j)"
    by (cases l) (auto simp: local_index_local_from_index nth_list_update)
qed

lemma layer_levels_at: "layer_inv l \<Longrightarrow> i < BLOCKS_PER_CHUNK \<Longrightarrow> layer_levels l ! i = layer_at l i"
  by (cases l) (simp_all add: local_index_local_from_index)

lemma length_layer_levels: "layer_inv l \<Longrightarrow> length (layer_levels l) = BLOCKS_PER_CHUNK"
  by (cases l) simp_all

lemma layer_levels_eqI:
  "layer_inv l \<Longrightarrow> length xs = BLOCKS_PER_CHUNK \<Longrightarrow>
     (\<And>i. i < BLOCKS_PER_CHUNK \<Longrightarrow> layer_at l i = xs ! i) \<Longrightarrow> layer_levels l = xs"
  by (intro nth_equalityI) (metis length_layer_levels, metis layer_levels_at length_layer_levels)

lemma layer_is_uniform_iff:
  "layer_inv l \<Longrightarrow> layer_is_uniform l = Some v \<longleftrightarrow> layer_levels l = replicate BLOCKS_PER_CHUNK v"
  by (cases l) (auto simp: list_all_iff Let_def replicate_eq_replicate intro!: replicate_eqI)

lemma layer_compact_levels: "layer_inv l \<Longrightarrow> layer_inv (layer_compact l) \<and> layer_levels (layer_compact l) = layer_levels l"
  using layer_is_uniform_iff [of l] by (auto simp: layer_compact_def split: option.splits)

lemma layer_compact_is_compact:
  "layer_inv l \<Longrightarrow> layer_is_compact (layer_compact l) \<longleftrightarrow> layer_is_uniform l \<noteq> None"
  by (cases l) (auto simp: layer_compact_def split: option.splits)

section \<open>Decoding\<close>

text \<open>The values a decoder has written: the runs read so far, from the first block it had not covered.\<close>

definition written :: "light_layer \<Rightarrow> nat \<Rightarrow> light list \<Rightarrow> light_layer \<Rightarrow> bool" where
  "written l covered vs l' \<longleftrightarrow> layer_inv l' \<and>
     (\<forall>j < BLOCKS_PER_CHUNK. layer_at l' j =
       (if covered \<le> j \<and> j < covered + length vs then vs ! (j - covered) else layer_at l j))"

lemma written_Nil: "layer_inv l \<Longrightarrow> written l covered [] l"
  unfolding written_def by auto

lemma written_run:
  assumes "layer_inv l" and "covered + n \<le> BLOCKS_PER_CHUNK"
    and "written (fold (\<lambda>i l. layer_set l (local_from_index i) v) [covered..<covered + n] l) (covered + n) vs l'"
  shows "written l covered (replicate n v @ vs) l'"
  using assms(3) light.put_range [OF assms(1,2) TrueI, of v covered]
  by (auto simp: written_def nth_append)

lemma light_runs_sound:
  assumes "light_runs rest off covered l = Inr (c, l')" and "layer_inv l" and "covered \<le> BLOCKS_PER_CHUNK"
    and "off \<le> length rest"
  shows "\<exists>rs. drop off rest = pack rs \<and> runs_ok rs \<and> c = covered + length (expand rs) \<and>
    c \<le> BLOCKS_PER_CHUNK \<and> written l covered (expand rs) l'"
  using assms
proof (induction rest off covered l rule: light_runs.induct)
  case (1 rest off covered l)
  note eq = light_runs.simps [of rest off covered l]
  show ?case
  proof (cases "off < length rest")
    case False
    then have "c = covered" "l' = l" "drop off rest = []" using "1.prems"(1,4) eq by auto
    then show ?thesis using "1.prems" by (intro exI [of _ "[]"]) (simp add: written_Nil del: BLOCKS_PER_CHUNK_def)
  next
    case True
    obtain word level where w: "read_u16 rest off = Some word" "read_u16 rest (off + 2) = Some level"
      using "1.prems"(1) True eq by (auto split: option.splits)
    let ?n = "unat word"
    let ?l = "fold (\<lambda>i l. layer_set l (local_from_index i) level) [covered..<covered + ?n] l"
    have n: "?n \<noteq> 0" "\<not> covered + ?n > BLOCKS_PER_CHUNK"
      and step: "light_runs rest (off + 4) (covered + ?n) ?l = Inr (c, l')"
      using "1.prems"(1) True eq w by (auto simp: Let_def simp del: BLOCKS_PER_CHUNK_def split: if_splits)
    have inv: "layer_inv ?l" using light.put_range [OF "1.prems"(2)] n(2) by (simp add: not_less)
    have "off + 4 \<le> length rest" using w(2) by (auto simp: read_u16_def split: if_splits)
    then obtain rs where rs: "drop (off + 4) rest = pack rs" "runs_ok rs" "c = covered + ?n + length (expand rs)"
        "c \<le> BLOCKS_PER_CHUNK" "written ?l (covered + ?n) (expand rs) l'"
      using "1.IH" [OF True w refl n step inv] n(2) by (auto simp del: BLOCKS_PER_CHUNK_def)
    have "?n < 65536" using unsigned_less [of word] by simp
    moreover have "written l covered (replicate ?n level @ expand rs) l'"
      using written_run [OF "1.prems"(2) _ rs(5)] n(2) by (simp del: BLOCKS_PER_CHUNK_def)
    ultimately show ?thesis using rs run_read [OF w] n(1)
      by (intro exI [of _ "(?n, level) # rs"]) (simp del: BLOCKS_PER_CHUNK_def)
  qed
qed

lemma light_runs_complete:
  assumes "rest = xs @ pack rs" and "runs_ok rs" and "covered + length (expand rs) \<le> BLOCKS_PER_CHUNK"
  shows "\<exists>l'. light_runs rest (length xs) covered l = Inr (covered + length (expand rs), l')"
  using assms
proof (induction rs arbitrary: xs covered l)
  case Nil
  then show ?case by (simp add: light_runs.simps)
next
  case (Cons r rs)
  obtain n v where r: "r = (n, v)" by (cases r)
  have n: "0 < n" "n < 65536" "runs_ok rs" using Cons.prems(2) r by simp_all
  have rest: "rest = xs @ run_bytes (n, v) @ pack rs" using Cons.prems(1) r by simp
  note rd = read_run [OF n(2) rest]
  let ?l = "fold (\<lambda>i l. layer_set l (local_from_index i) v) [covered..<covered + n] l"
  have "\<exists>l'. light_runs rest (length (xs @ run_bytes (n, v))) (covered + n) ?l =
      Inr (covered + n + length (expand rs), l')"
    using Cons.prems(3) r n(3) rest by (intro Cons.IH) (simp_all del: BLOCKS_PER_CHUNK_def)
  moreover have "light_runs rest (length xs) covered l = light_runs rest (length xs + 4) (covered + n) ?l"
    using rd n rest Cons.prems(3) r unat_run [OF n(2)]
    by (subst light_runs.simps) (simp add: Let_def del: BLOCKS_PER_CHUNK_def)
  ultimately show ?case using r by (simp add: add.assoc)
qed

text \<open>Exactly the well-formed payloads decode, and to the levels they say.\<close>

lemma light_decode_runs:
  "light_decode (LIGHT_TAG_RUNS # rest) = Inr l \<longleftrightarrow>
     (\<exists>rs. rest = pack rs \<and> runs_ok rs \<and> length (expand rs) = BLOCKS_PER_CHUNK) \<and>
     (\<exists>l0. light_runs rest 0 0 layer_dark = Inr (BLOCKS_PER_CHUNK, l0) \<and> l = layer_compact l0)"
proof -
  have "\<exists>rs. rest = pack rs \<and> runs_ok rs \<and> length (expand rs) = BLOCKS_PER_CHUNK"
    if "light_runs rest 0 0 layer_dark = Inr (BLOCKS_PER_CHUNK, l0)" for l0
    using light_runs_sound [OF that] by (auto simp: layer_dark_def layer_uniform_def simp del: BLOCKS_PER_CHUNK_def)
  then show ?thesis
    by (auto simp: light_decode_def LIGHT_TAG_RUNS_def LIGHT_TAG_UNIFORM_def simp del: BLOCKS_PER_CHUNK_def
        split: sum.splits if_splits)
qed

lemma light_decode_levels:
  assumes "runs_ok rs" and "length (expand rs) = BLOCKS_PER_CHUNK"
  shows "\<exists>l. light_decode (LIGHT_TAG_RUNS # pack rs) = Inr l \<and> layer_inv l \<and> layer_levels l = expand rs \<and>
    (layer_is_compact l \<longleftrightarrow> (\<exists>v. expand rs = replicate BLOCKS_PER_CHUNK v))"
proof -
  have dark: "layer_inv layer_dark" by (simp add: layer_dark_def layer_uniform_def)
  obtain l0 where l0: "light_runs (pack rs) 0 0 layer_dark = Inr (BLOCKS_PER_CHUNK, l0)"
    using light_runs_complete [of "pack rs" "[]" rs 0 layer_dark] assms by (auto simp del: BLOCKS_PER_CHUNK_def)
  then obtain ss where ss: "pack rs = pack ss" "runs_ok ss" "written layer_dark 0 (expand ss) l0"
    using light_runs_sound [OF l0 dark] by (auto simp del: BLOCKS_PER_CHUNK_def)
  then have w: "written layer_dark 0 (expand rs) l0" using pack_inj [OF assms(1)] by simp
  then have inv: "layer_inv l0" and levels: "layer_levels l0 = expand rs"
    using assms(2) by (auto simp: written_def simp del: BLOCKS_PER_CHUNK_def intro!: layer_levels_eqI)
  have "light_decode (LIGHT_TAG_RUNS # pack rs) = Inr (layer_compact l0)"
    using l0 light_decode_runs assms by blast
  moreover have "layer_is_compact (layer_compact l0) \<longleftrightarrow> (\<exists>v. expand rs = replicate BLOCKS_PER_CHUNK v)"
    using layer_compact_is_compact [OF inv] layer_is_uniform_iff [OF inv] levels by (metis not_None_eq)
  ultimately show ?thesis using layer_compact_levels [OF inv] levels by auto
qed

section \<open>Encoding\<close>

lemma run_length_take:
  assumes "0 < run" and "run \<le> 65535"
  shows "\<exists>k. run_length xs v run = run + k \<and> k \<le> length xs \<and> run + k \<le> 65535 \<and> take k xs = replicate k v"
  using assms
proof (induction xs v run rule: run_length.induct)
  case (2 x xs v run)
  show ?case
  proof (cases "x = v \<and> run < 65535")
    case True
    then obtain k where "run_length xs v (run + 1) = run + 1 + k" "k \<le> length xs" "run + 1 + k \<le> 65535"
        "take k xs = replicate k v" using "2.IH" by auto
    then show ?thesis using True by (intro exI [of _ "Suc k"]) simp
  qed (use "2.prems" in auto)
qed simp

lemma encode_levels_encodes: "encodes (encode_levels xs) xs"
proof (induction xs rule: encode_levels.induct)
  case 1
  then show ?case by (simp add: encodes_Nil)
next
  case (2 level rest)
  obtain k where k: "run_length rest level 1 = 1 + k" "1 + k \<le> 65535" "take k rest = replicate k level"
    using run_length_take [of 1 rest level] by auto
  have "encodes (encode_levels (drop k rest)) (drop k rest)" using "2.IH" [OF refl] k(1) by simp
  then have "encodes (to_le_bytes (of_nat (1 + k)) @ to_le_bytes level @ encode_levels (drop k rest))
      (replicate (1 + k) level @ drop k rest)" using k(2) by (intro encodes_Cons) auto
  moreover have "replicate (1 + k) level @ drop k rest = level # rest"
    using k(3) append_take_drop_id [of k rest] by simp
  ultimately show ?case using k(1) by simp
qed

lemma light_decode_uniform: "light_decode (LIGHT_TAG_UNIFORM # to_le_bytes v) = Inr (LUniform v)"
  using read_u16_append [of "[]" v "[]"]
  by (simp add: light_decode_def layer_uniform_def) (simp add: to_le_bytes_def)

end
