(* ===== verification/Fluid.thy ===== *)
theory Fluid
  imports Block Bitpack Runs
begin

text \<open>
  Fluid state, from \<^verbatim>\<open>crates/core/src/fluid/mod.rs\<close>, \<^verbatim>\<open>fluid/layer.rs\<close> and \<^verbatim>\<open>fluid/codec.rs\<close>: the
  word a block holds, how much fits beside terrain, which materials absorb, per-chunk storage and its
  wire codec. A dense array has 4,096 entries by its Rust type; the count of filled blocks is exact
  (\<open>fluid_inv\<close>), so its decrement never goes below zero. The registry of fluids carries colours and a
  float opacity for the renderer and is left out, as is the solver.
\<close>

type_synonym fluid = u16
type_synonym fluid_id = u8

section \<open>One block\<close>

definition MAX_VOLUME :: nat where "MAX_VOLUME = 27"

definition fluid_capacity :: "nat \<Rightarrow> nat \<Rightarrow> nat" where
  "fluid_capacity occupancy waterlogs_at =
     (if occupancy \<ge> waterlogs_at then 0
      else if occupancy \<ge> MAX_VOLUME then 0
      else MAX_VOLUME - occupancy)"

definition FLUID_NONE :: fluid_id where [simp]: "FLUID_NONE = 0"
definition ID_SHIFT :: nat where [simp]: "ID_SHIFT = 5"
definition VOLUME_MASK :: u16 where "VOLUME_MASK = 0b11111"
definition FLUID_EMPTY :: fluid where [simp]: "FLUID_EMPTY = 0"

definition fluid_new :: "fluid_id \<Rightarrow> nat \<Rightarrow> fluid" where
  "fluid_new i volume =
     (if i = FLUID_NONE \<or> volume = 0 then FLUID_EMPTY
      else
        (let volume = (if volume > MAX_VOLUME then MAX_VOLUME else volume)
         in push_bit ID_SHIFT (ucast i) OR of_nat volume))"

definition fluid_of :: "fluid \<Rightarrow> fluid_id" where
  "fluid_of f = ucast (drop_bit ID_SHIFT f)"

definition fluid_volume :: "fluid \<Rightarrow> nat" where
  "fluid_volume f = unat (f AND VOLUME_MASK)"

definition fluid_is_empty :: "fluid \<Rightarrow> bool" where
  "fluid_is_empty f \<longleftrightarrow> fluid_volume f = 0 \<or> fluid_of f = FLUID_NONE"

definition with_volume :: "fluid \<Rightarrow> nat \<Rightarrow> fluid" where
  "with_volume f volume = fluid_new (fluid_of f) volume"

section \<open>Absorption\<close>

record absorbs =
  ab_rate :: nat
  ab_becomes :: "material_id option"
  ab_fluid :: "fluid_id option"

definition rate_for :: "absorbs \<Rightarrow> fluid_id \<Rightarrow> nat" where
  "rate_for a f = (if (case ab_fluid a of None \<Rightarrow> True | Some only \<Rightarrow> only = f) then ab_rate a else 0)"

type_synonym absorbency = "absorbs option list"

definition absorbency_add :: "material_id \<times> absorbs \<Rightarrow> absorbency \<Rightarrow> absorbency" where
  "absorbency_add = (\<lambda>(i, a) by_id.
     let index = unat i;
         by_id = (if length by_id \<le> index then by_id @ replicate (index + 1 - length by_id) None else by_id)
     in by_id[index := Some a])"

definition absorbency_new :: "(material_id \<times> absorbs) list \<Rightarrow> absorbency" where
  "absorbency_new entries = fold absorbency_add entries []"

definition absorbency_get :: "absorbency \<Rightarrow> material_id \<Rightarrow> absorbs option" where
  "absorbency_get by_id material = Option.bind (vec_get by_id (unat material)) id"

definition absorbency_rate :: "absorbency \<Rightarrow> material_id \<Rightarrow> fluid_id \<Rightarrow> nat" where
  "absorbency_rate by_id material f =
     (case absorbency_get by_id material of None \<Rightarrow> 0 | Some a \<Rightarrow> rate_for a f)"

fun absorbency_block :: "absorbency \<Rightarrow> block_view \<Rightarrow> absorbs option" where
  "absorbency_block by_id (WUniform material) = absorbency_get by_id material"
| "absorbency_block by_id (WPartial material _) = absorbency_get by_id material"
| "absorbency_block by_id (WMixed _) = None"

definition absorbency_is_empty :: "absorbency \<Rightarrow> bool" where
  "absorbency_is_empty by_id \<longleftrightarrow> list_all (\<lambda>a. a = None) by_id"

section \<open>One chunk\<close>

datatype fluid_layer = FEmpty | FDense "fluid list" nat

definition fluid_layer_empty :: fluid_layer where
  "fluid_layer_empty = FEmpty"

fun fluid_get :: "fluid_layer \<Rightarrow> local_block \<Rightarrow> fluid" where
  "fluid_get FEmpty local = FLUID_EMPTY"
| "fluid_get (FDense blocks _) local = blocks ! local_index local"

fun fluid_set :: "fluid_layer \<Rightarrow> local_block \<Rightarrow> fluid \<Rightarrow> bool \<times> fluid_layer" where
  "fluid_set FEmpty local v =
     (if fluid_is_empty v then (False, FEmpty)
      else (True, FDense ((replicate BLOCKS_PER_CHUNK FLUID_EMPTY)[local_index local := v]) 1))"
| "fluid_set (FDense blocks filled) local v =
     (let slot = blocks ! local_index local
      in if slot = v then (False, FDense blocks filled)
         else
           (let filled' = (if fluid_is_empty slot then filled + 1
                           else if fluid_is_empty v then filled - 1 else filled);
                blocks' = blocks[local_index local := v]
            in (True, if filled' = 0 then FEmpty else FDense blocks' filled')))"

fun fluid_layer_is_empty :: "fluid_layer \<Rightarrow> bool" where
  "fluid_layer_is_empty FEmpty \<longleftrightarrow> True"
| "fluid_layer_is_empty (FDense _ _) \<longleftrightarrow> False"

fun fluid_filled :: "fluid_layer \<Rightarrow> nat" where
  "fluid_filled FEmpty = 0"
| "fluid_filled (FDense _ filled) = filled"

fun fluid_blocks :: "fluid_layer \<Rightarrow> fluid list" where
  "fluid_blocks FEmpty = map (\<lambda>index. FLUID_EMPTY) [0..<BLOCKS_PER_CHUNK]"
| "fluid_blocks (FDense blocks _) = map (\<lambda>index. blocks ! index) [0..<BLOCKS_PER_CHUNK]"

definition uniformly_full :: "fluid_layer \<Rightarrow> fluid option" where
  "uniformly_full l =
     (case l of
        FEmpty \<Rightarrow> None
      | FDense blocks filled \<Rightarrow>
          if filled \<noteq> BLOCKS_PER_CHUNK then None
          else
            (let first = blocks ! 0
             in if fluid_is_empty first \<or> fluid_volume first < UNITS_PER_BLOCK then None
                else if list_all (\<lambda>block. block = first) blocks then Some first else None))"

text \<open>The loop of \<open>from_blocks\<close> pairs the slots of a fresh array with the values.\<close>

definition fluid_from_blocks :: "fluid list \<Rightarrow> fluid_layer" where
  "fluid_from_blocks values =
     (let blocks = take BLOCKS_PER_CHUNK values @ replicate (BLOCKS_PER_CHUNK - length values) FLUID_EMPTY;
          filled = length (filter (\<lambda>v. \<not> fluid_is_empty v) (take BLOCKS_PER_CHUNK values))
      in if filled = 0 then fluid_layer_empty else FDense blocks filled)"

section \<open>Codec\<close>

definition FLUID_TAG_EMPTY :: u8 where "FLUID_TAG_EMPTY = 0"
definition FLUID_TAG_RUNS :: u8 where "FLUID_TAG_RUNS = 1"

datatype fluid_decode_error =
    FluidEmpty
  | FluidUnknownTag u8
  | FluidTruncated
  | FluidEmptyRun
  | FluidWrongLength nat nat
  | FluidNotAState u16

fun encode_blocks :: "fluid list \<Rightarrow> fluid \<Rightarrow> nat \<Rightarrow> u8 list" where
  "encode_blocks [] current run = to_le_bytes (of_nat run) @ to_le_bytes current"
| "encode_blocks (v # vs) current run =
     (if v = current \<and> run < 65535 then encode_blocks vs current (run + 1)
      else to_le_bytes (of_nat run) @ to_le_bytes current @ encode_blocks vs v 1)"

definition fluid_encode :: "fluid_layer \<Rightarrow> u8 list" where
  "fluid_encode layer =
     (if fluid_layer_is_empty layer then [FLUID_TAG_EMPTY]
      else FLUID_TAG_RUNS #
        (case fluid_blocks layer of
           [] \<Rightarrow> encode_blocks [] FLUID_EMPTY 1
         | current # rest \<Rightarrow> encode_blocks rest current 1))"

definition fluid_state :: "u16 \<Rightarrow> fluid_decode_error + fluid" where
  "fluid_state v =
     (if v = FLUID_EMPTY then Inr FLUID_EMPTY
      else if fluid_of v = FLUID_NONE \<or> fluid_volume v = 0 then Inl (FluidNotAState v)
      else if fluid_volume v > MAX_VOLUME then Inl (FluidNotAState v)
      else if drop_bit 9 v \<noteq> 0 then Inl (FluidNotAState v)
      else Inr v)"

function fluid_runs :: "u8 list \<Rightarrow> nat \<Rightarrow> fluid list \<Rightarrow> fluid_decode_error + fluid list" where
  "fluid_runs rest offset values =
     (if offset < length rest then
        case read_u16 rest offset of
          None \<Rightarrow> Inl FluidTruncated
        | Some word \<Rightarrow>
            (case read_u16 rest (offset + 2) of
               None \<Rightarrow> Inl FluidTruncated
             | Some v \<Rightarrow>
                 (let count = unat word
                  in if count = 0 then Inl FluidEmptyRun
                     else
                       (case fluid_state v of
                          Inl e \<Rightarrow> Inl e
                        | Inr fluid \<Rightarrow>
                            if length values + count > BLOCKS_PER_CHUNK then
                              Inl (FluidWrongLength (length values + count) BLOCKS_PER_CHUNK)
                            else fluid_runs rest (offset + 4) (values @ replicate count fluid))))
      else Inr values)"
  by pat_completeness auto

termination
  by (relation "measure (\<lambda>(rest, offset, values). length rest - offset)") auto

declare fluid_runs.simps [simp del]

definition fluid_decode :: "u8 list \<Rightarrow> fluid_decode_error + fluid_layer" where
  "fluid_decode bytes =
     (case bytes of
        [] \<Rightarrow> Inl FluidEmpty
      | tag # rest \<Rightarrow>
          if tag = FLUID_TAG_EMPTY then
            (if rest = [] then Inr fluid_layer_empty
             else Inl (FluidWrongLength (BLOCKS_PER_CHUNK + length rest) BLOCKS_PER_CHUNK))
          else if tag = FLUID_TAG_RUNS then
            (case fluid_runs rest 0 [] of
               Inl e \<Rightarrow> Inl e
             | Inr values \<Rightarrow>
                 if length values \<noteq> BLOCKS_PER_CHUNK then
                   Inl (FluidWrongLength (length values) BLOCKS_PER_CHUNK)
                 else Inr (fluid_from_blocks values))
          else Inl (FluidUnknownTag tag))"

section \<open>Words\<close>

text \<open>Nothing has one encoding: a canonical word is zero or holds some of a fluid.\<close>

definition fluid_canonical :: "fluid \<Rightarrow> bool" where
  "fluid_canonical v \<longleftrightarrow> (fluid_is_empty v \<longleftrightarrow> v = FLUID_EMPTY)"

lemma fluid_empty_zero [simp]: "fluid_is_empty 0" "fluid_canonical 0" "fluid_volume 0 = 0"
  by (simp_all add: fluid_canonical_def fluid_is_empty_def fluid_volume_def)

lemma fluid_volume_unat: "fluid_volume v = unat v mod 32"
proof -
  have "VOLUME_MASK = mask 5" by (simp add: VOLUME_MASK_def mask_eq_exp_minus_1)
  then have "v AND VOLUME_MASK = take_bit 5 v" by (simp add: take_bit_eq_mask)
  then show ?thesis by (simp add: fluid_volume_def unsigned_take_bit_eq take_bit_nat_def)
qed

lemma unat_shift: "unat (drop_bit n v) = unat v div 2 ^ n"
  by (simp add: unat_drop_bit_eq drop_bit_nat_def)

lemma fluid_of_unat: "unat (fluid_of v) = unat v div 32 mod 256"
  by (simp add: fluid_of_def unsigned_ucast_eq unat_shift take_bit_nat_def)

lemma fluid_new_unat:
  assumes "i \<noteq> 0" and "0 < volume"
  shows "unat (fluid_new i volume) = unat i * 32 + min volume 27"
proof -
  define n where "n = min volume 27"
  have n: "n < 32" by (simp add: n_def min_def)
  have i: "unat i < 256" using unsigned_less [of i] by simp
  have new: "fluid_new i volume = push_bit 5 (ucast i) OR of_nat n"
    using assms by (simp add: fluid_new_def Let_def MAX_VOLUME_def n_def min_def)
  have "push_bit 5 (ucast i :: u16) OR of_nat n = push_bit 5 (ucast i) + of_nat n"
  proof (rule disjunctive_add_eq_or [symmetric], rule bit_word_eqI)
    fix j assume "j < LENGTH(16)"
    show "bit (push_bit 5 (ucast i :: u16) AND of_nat n) j = bit (0::u16) j"
      using nat_less_exp_bit [of n 5] n by (auto simp: bit_and_iff bit_push_bit_iff bit_of_nat_iff)
  qed
  also have "\<dots> = of_nat (unat i * 32 + n)"
    using of_nat_unat [of i, where ?'a = u16, symmetric] by (simp add: push_bit_eq_mult)
  finally have "fluid_new i volume = of_nat (unat i * 32 + n)" using new by (rule trans [rotated])
  then have "unat (fluid_new i volume) = (unat i * 32 + n) mod 65536" by (simp only: unat_of_nat) simp
  then show ?thesis using i n by (simp add: n_def)
qed

lemma fluid_new_fields:
  assumes "i \<noteq> 0" and "0 < volume"
  shows "fluid_of (fluid_new i volume) = i" and "fluid_volume (fluid_new i volume) = min volume 27"
proof -
  have i: "unat i < 256" using unsigned_less [of i] by simp
  have "(unat i * 32 + min volume 27) div 32 = unat i" by (simp add: min_def)
  then have "unat (fluid_of (fluid_new i volume)) = unat i"
    using i by (simp add: fluid_of_unat fluid_new_unat [OF assms])
  then show "fluid_of (fluid_new i volume) = i" by (rule unsigned_word_eqI)
  show "fluid_volume (fluid_new i volume) = min volume 27"
    by (simp add: fluid_volume_unat fluid_new_unat [OF assms] min_def)
qed

lemma fluid_new_canonical: "fluid_canonical (fluid_new i volume)"
proof (cases "i = 0 \<or> volume = 0")
  case True
  then show ?thesis by (simp add: fluid_new_def)
next
  case False
  then have "\<not> fluid_is_empty (fluid_new i volume)"
    using fluid_new_fields [of i volume] by (simp add: fluid_is_empty_def)
  then show ?thesis by (auto simp: fluid_canonical_def)
qed

lemma fluid_state_Inr:
  "fluid_state v = Inr w \<longleftrightarrow> w = v \<and>
     (v = 0 \<or> \<not> fluid_is_empty v \<and> fluid_volume v \<le> 27 \<and> unat v < 512)"
proof -
  have "drop_bit 9 v = 0 \<longleftrightarrow> unat v < 512"
    using unat_shift [of 9 v] by (simp add: unat_eq_zero [symmetric] div_eq_0_iff)
  then show ?thesis by (auto simp: fluid_state_def fluid_is_empty_def MAX_VOLUME_def)
qed

lemma fluid_new_state: "unat i < 16 \<Longrightarrow> fluid_state (fluid_new i volume) = Inr (fluid_new i volume)"
proof (cases "i = 0 \<or> volume = 0")
  case True
  then show ?thesis by (simp add: fluid_new_def fluid_state_def)
next
  case False
  assume "unat i < 16"
  then show ?thesis
    using fluid_new_fields [of i volume] fluid_new_unat [of i volume] False
    by (auto simp: fluid_state_Inr fluid_is_empty_def min_def)
qed

lemma fluid_state_canonical: "fluid_state v = Inr w \<Longrightarrow> fluid_canonical v"
  by (auto simp: fluid_state_Inr fluid_canonical_def)

section \<open>The layer as a store\<close>

abbreviation filled_in :: "fluid list \<Rightarrow> nat" where
  "filled_in blocks \<equiv> length (filter (\<lambda>v. \<not> fluid_is_empty v) blocks)"

text \<open>
  The dense form is held only while some block has fluid, and its count is exact: what makes
  \<open>is_empty\<close> a constant-time question with the right answer.
\<close>

fun fluid_inv :: "fluid_layer \<Rightarrow> bool" where
  "fluid_inv FEmpty \<longleftrightarrow> True"
| "fluid_inv (FDense blocks filled) \<longleftrightarrow>
     length blocks = BLOCKS_PER_CHUNK \<and> list_all fluid_canonical blocks \<and> filled = filled_in blocks \<and> 0 < filled"

abbreviation fluid_at :: "fluid_layer \<Rightarrow> nat \<Rightarrow> fluid" where
  "fluid_at l i \<equiv> fluid_get l (local_from_index i)"

abbreviation fluid_put :: "fluid_layer \<Rightarrow> nat \<Rightarrow> fluid \<Rightarrow> fluid_layer" where
  "fluid_put l i v \<equiv> snd (fluid_set l (local_from_index i) v)"

lemma filled_in_update:
  assumes "i < length xs"
  shows "filled_in (xs[i := v]) + (if fluid_is_empty (xs ! i) then 0 else 1)
    = filled_in xs + (if fluid_is_empty v then 0 else 1)"
  using assms
proof (induction xs arbitrary: i)
  case (Cons x xs)
  show ?case
  proof (cases i)
    case (Suc j)
    then show ?thesis using Cons.IH [of j] Cons.prems by auto
  qed simp
qed simp

lemma filled_in_0: "filled_in xs = 0 \<longleftrightarrow> list_all fluid_is_empty xs"
  by (auto simp: filter_empty_conv list_all_iff)

text \<open>One write, as every caller sees it.\<close>

lemma fluid_set_dense:
  assumes "fluid_inv (FDense blocks filled)" and "i < BLOCKS_PER_CHUNK" and "fluid_canonical v"
  shows "filled_in (blocks[i := v]) =
      (if fluid_is_empty (blocks ! i) \<and> blocks ! i \<noteq> v then filled + 1
       else if fluid_is_empty v \<and> blocks ! i \<noteq> v then filled - 1 else filled)"
proof -
  have i: "i < length blocks" using assms(1,2) by simp
  then have "fluid_canonical (blocks ! i)" using assms(1) by (simp add: list_all_length)
  then show ?thesis
    using filled_in_update [OF i, of v] assms(1,3) by (cases "fluid_is_empty v"; cases "fluid_is_empty (blocks ! i)")
      (auto simp: fluid_canonical_def simp del: BLOCKS_PER_CHUNK_def)
qed

lemma fluid_put_invar:
  assumes "fluid_inv l" and "i < BLOCKS_PER_CHUNK" and "fluid_canonical v"
  shows "fluid_inv (fluid_put l i v)"
proof (cases l)
  case FEmpty
  then show ?thesis
    using assms filled_in_update [of i "replicate BLOCKS_PER_CHUNK 0" v]
    by (auto simp: local_index_local_from_index list_all_length nth_list_update simp del: BLOCKS_PER_CHUNK_def)
next
  case (FDense blocks filled)
  then show ?thesis
    using assms fluid_set_dense [of blocks filled i v]
    by (auto simp: local_index_local_from_index list_all_length nth_list_update Let_def simp del: BLOCKS_PER_CHUNK_def)
qed

lemma fluid_get_put:
  assumes "fluid_inv l" and "i < BLOCKS_PER_CHUNK" and "j < BLOCKS_PER_CHUNK" and "fluid_canonical v"
  shows "fluid_at (fluid_put l i v) j = (if j = i then v else fluid_at l j)"
proof (cases l)
  case FEmpty
  then show ?thesis
    using assms by (auto simp: local_index_local_from_index nth_list_update fluid_canonical_def simp del: BLOCKS_PER_CHUNK_def)
next
  case (FDense blocks filled)
  have zero: "blocks[i := v] ! j = 0" if "filled_in (blocks[i := v]) = 0"
  proof -
    have "list_all fluid_canonical (blocks[i := v])"
      using assms FDense by (auto simp: list_all_length nth_list_update)
    then show ?thesis using that assms FDense unfolding filled_in_0
      by (auto simp: list_all_length fluid_canonical_def simp del: BLOCKS_PER_CHUNK_def)
  qed
  then show ?thesis
    using assms FDense fluid_set_dense [of blocks filled i v]
    by (auto simp: local_index_local_from_index nth_list_update Let_def simp del: BLOCKS_PER_CHUNK_def)
qed

interpretation fluid: block_layer fluid_at fluid_put fluid_inv fluid_canonical BLOCKS_PER_CHUNK
  by unfold_locales (simp_all only: fluid_put_invar fluid_get_put)

lemma fluid_blocks_dense: "length blocks = BLOCKS_PER_CHUNK \<Longrightarrow> fluid_blocks (FDense blocks n) = blocks"
  by (simp add: map_nth [symmetric] del: BLOCKS_PER_CHUNK_def) (metis map_nth)

lemma fluid_blocks_empty: "fluid_blocks FEmpty = replicate BLOCKS_PER_CHUNK 0"
  by (simp add: map_replicate_const del: BLOCKS_PER_CHUNK_def upt_rec_numeral)

lemma length_fluid_blocks: "length (fluid_blocks l) = BLOCKS_PER_CHUNK"
  by (cases l) (simp_all del: BLOCKS_PER_CHUNK_def)

lemma fluid_blocks_at: "i < BLOCKS_PER_CHUNK \<Longrightarrow> fluid_blocks l ! i = fluid_at l i"
  by (cases l) (simp_all add: local_index_local_from_index del: BLOCKS_PER_CHUNK_def)

lemma fluid_filled_blocks: "fluid_inv l \<Longrightarrow> fluid_filled l = filled_in (fluid_blocks l)"
  by (cases l) (simp_all add: fluid_blocks_empty fluid_blocks_dense filter_replicate del: BLOCKS_PER_CHUNK_def fluid_blocks.simps)

lemma fluid_from_blocks_full:
  assumes "length xs = BLOCKS_PER_CHUNK"
  shows "fluid_from_blocks xs = (if filled_in xs = 0 then FEmpty else FDense xs (filled_in xs))"
  using assms by (simp add: fluid_from_blocks_def fluid_layer_empty_def Let_def del: BLOCKS_PER_CHUNK_def)

lemma fluid_from_blocks_inv:
  assumes "length xs = BLOCKS_PER_CHUNK" and "list_all fluid_canonical xs"
  shows "fluid_inv (fluid_from_blocks xs) \<and> fluid_blocks (fluid_from_blocks xs) = xs"
proof (cases "filled_in xs = 0")
  case True
  then have "list_all (\<lambda>v. v = 0) xs" using assms(2) unfolding filled_in_0
    by (auto simp: list_all_iff fluid_canonical_def)
  then have "xs = replicate BLOCKS_PER_CHUNK 0" using assms(1) by (auto simp: list_all_iff intro!: replicate_eqI)
  then show ?thesis using True fluid_from_blocks_full [OF assms(1)] fluid_blocks_empty by simp
next
  case False
  then show ?thesis using fluid_from_blocks_full [OF assms(1)] assms fluid_blocks_dense by simp
qed

lemma fluid_from_blocks_blocks: "fluid_inv l \<Longrightarrow> fluid_from_blocks (fluid_blocks l) = l"
  using fluid_from_blocks_full [of "fluid_blocks l", OF length_fluid_blocks]
  by (cases l) (simp_all add: fluid_blocks_empty fluid_blocks_dense filter_replicate del: BLOCKS_PER_CHUNK_def fluid_blocks.simps)

section \<open>Decoding\<close>

definition states :: "runs \<Rightarrow> bool" where
  "states rs \<longleftrightarrow> list_all (\<lambda>r. fluid_state (snd r) = Inr (snd r)) rs"

lemma states_simps [simp]:
  "states []" "states ((n, v) # rs) \<longleftrightarrow> fluid_state v = Inr v \<and> states rs"
  by (simp_all add: states_def)

lemma states_expand: "states rs \<Longrightarrow> list_all (\<lambda>v. fluid_state v = Inr v) (expand rs)"
  by (induction rs) (auto simp: list_all_iff)

lemma expand_states:
  "runs_ok rs \<Longrightarrow> list_all (\<lambda>v. fluid_state v = Inr v) (expand rs) \<Longrightarrow> states rs"
  by (induction rs) (auto simp: list_all_iff)

lemma fluid_runs_sound:
  assumes "fluid_runs rest off vs = Inr ws" and "length vs \<le> BLOCKS_PER_CHUNK" and "off \<le> length rest"
  shows "\<exists>rs. drop off rest = pack rs \<and> runs_ok rs \<and> states rs \<and> ws = vs @ expand rs \<and> length ws \<le> BLOCKS_PER_CHUNK"
  using assms
proof (induction rest off vs rule: fluid_runs.induct)
  case (1 rest off vs)
  note eq = fluid_runs.simps [of rest off vs]
  show ?case
  proof (cases "off < length rest")
    case False
    then show ?thesis using "1.prems" eq by (intro exI [of _ "[]"]) (simp del: BLOCKS_PER_CHUNK_def)
  next
    case True
    obtain word v where w: "read_u16 rest off = Some word" "read_u16 rest (off + 2) = Some v"
      using "1.prems"(1) True eq by (auto split: option.splits)
    let ?n = "unat word"
    obtain f where f: "fluid_state v = Inr f" and n: "?n \<noteq> 0" "\<not> length vs + ?n > BLOCKS_PER_CHUNK"
      and step: "fluid_runs rest (off + 4) (vs @ replicate ?n f) = Inr ws"
      using "1.prems"(1) True eq w by (auto simp: Let_def simp del: BLOCKS_PER_CHUNK_def split: if_splits sum.splits)
    have "off + 4 \<le> length rest" using w(2) by (auto simp: read_u16_def split: if_splits)
    then obtain rs where rs: "drop (off + 4) rest = pack rs" "runs_ok rs" "states rs"
        "ws = (vs @ replicate ?n f) @ expand rs" "length ws \<le> BLOCKS_PER_CHUNK"
      using "1.IH" [OF True w refl n(1) f n(2) step] n(2) by (auto simp del: BLOCKS_PER_CHUNK_def)
    have "?n < 65536" using unsigned_less [of word] by simp
    moreover have "f = v" using f by (simp add: fluid_state_Inr)
    ultimately show ?thesis using rs run_read [OF w] n(1) f
      by (intro exI [of _ "(?n, v) # rs"]) (simp del: BLOCKS_PER_CHUNK_def)
  qed
qed

lemma fluid_runs_complete:
  assumes "rest = xs @ pack rs" and "runs_ok rs" and "states rs" and "length vs + length (expand rs) \<le> BLOCKS_PER_CHUNK"
  shows "fluid_runs rest (length xs) vs = Inr (vs @ expand rs)"
  using assms
proof (induction rs arbitrary: xs vs)
  case Nil
  then show ?case by (simp add: fluid_runs.simps)
next
  case (Cons r rs)
  obtain n v where r: "r = (n, v)" by (cases r)
  have n: "0 < n" "n < 65536" "runs_ok rs" "states rs" "fluid_state v = Inr v" using Cons.prems(2,3) r by simp_all
  have rest: "rest = xs @ run_bytes (n, v) @ pack rs" using Cons.prems(1) r by simp
  note rd = read_run [OF n(2) rest]
  have "fluid_runs rest (length (xs @ run_bytes (n, v))) (vs @ replicate n v) = Inr ((vs @ replicate n v) @ expand rs)"
    using Cons.prems(4) r n(3,4) rest by (intro Cons.IH) (simp_all del: BLOCKS_PER_CHUNK_def)
  moreover have "fluid_runs rest (length xs) vs = fluid_runs rest (length xs + 4) (vs @ replicate n v)"
    using rd n rest Cons.prems(4) r unat_run [OF n(2)]
    by (subst fluid_runs.simps) (simp add: Let_def del: BLOCKS_PER_CHUNK_def)
  ultimately show ?case using r by simp
qed

lemma fluid_decode_runs:
  "fluid_decode (FLUID_TAG_RUNS # rest) = Inr l \<longleftrightarrow>
     (\<exists>rs. rest = pack rs \<and> runs_ok rs \<and> states rs \<and> length (expand rs) = BLOCKS_PER_CHUNK \<and>
       l = fluid_from_blocks (expand rs))"
proof
  assume "fluid_decode (FLUID_TAG_RUNS # rest) = Inr l"
  then obtain vs where vs: "fluid_runs rest 0 [] = Inr vs" "length vs = BLOCKS_PER_CHUNK" "l = fluid_from_blocks vs"
    by (auto simp: fluid_decode_def FLUID_TAG_RUNS_def FLUID_TAG_EMPTY_def simp del: BLOCKS_PER_CHUNK_def
        split: sum.splits if_splits)
  then show "\<exists>rs. rest = pack rs \<and> runs_ok rs \<and> states rs \<and> length (expand rs) = BLOCKS_PER_CHUNK \<and>
       l = fluid_from_blocks (expand rs)"
    using fluid_runs_sound [OF vs(1)] by auto
next
  assume "\<exists>rs. rest = pack rs \<and> runs_ok rs \<and> states rs \<and> length (expand rs) = BLOCKS_PER_CHUNK \<and>
       l = fluid_from_blocks (expand rs)"
  then show "fluid_decode (FLUID_TAG_RUNS # rest) = Inr l"
    using fluid_runs_complete [of rest "[]" _ "[]"]
    by (auto simp: fluid_decode_def FLUID_TAG_RUNS_def FLUID_TAG_EMPTY_def simp del: BLOCKS_PER_CHUNK_def)
qed

section \<open>Encoding\<close>

lemma encode_blocks_encodes:
  "0 < run \<Longrightarrow> run < 65536 \<Longrightarrow> encodes (encode_blocks xs v run) (replicate run v @ xs)"
proof (induction xs v run rule: encode_blocks.induct)
  case (1 v run)
  then show ?case using encodes_Cons [OF _ _ encodes_Nil, of run v] by simp
next
  case (2 x xs v run)
  show ?case
  proof (cases "x = v \<and> run < 65535")
    case True
    then show ?thesis using "2.IH"(1) by (simp add: replicate_app_Cons_same)
  next
    case False
    then show ?thesis using "2.IH"(2) "2.prems" encodes_Cons [of run "encode_blocks xs x 1" "x # xs" v] by auto
  qed
qed

lemma fluid_encode_dense:
  assumes "fluid_inv l" and "l \<noteq> FEmpty"
  shows "\<exists>bytes. fluid_encode l = FLUID_TAG_RUNS # bytes \<and> encodes bytes (fluid_blocks l)"
proof -
  obtain x xs where b: "fluid_blocks l = x # xs"
    using length_fluid_blocks [of l] by (cases "fluid_blocks l") auto
  have "encodes (encode_blocks xs x 1) (replicate 1 x @ xs)" by (rule encode_blocks_encodes) simp_all
  moreover have "fluid_encode l = FLUID_TAG_RUNS # encode_blocks xs x 1"
    using assms(2) b by (cases l) (simp_all add: fluid_encode_def)
  ultimately show ?thesis using b by simp
qed

end
