(* ===== verification/Interest.thy ===== *)
theory Interest
  imports Coords "HOL-Library.Product_Lexorder"
begin

text \<open>
  Which chunks a player is sent and in what order, from \<^verbatim>\<open>crates/core/src/interest.rs\<close>. The loops
  walk a box and keep the cylinder; the sort is stable and by a tuple, which orders lexicographically.
  Radii are \<open>u8\<close>; distances are \<open>i64\<close>, which the squares of differences of \<open>i32\<close> coordinates weighted
  by four cannot overflow within the world, and are \<open>int\<close>.
\<close>

record view_distance =
  vd_horizontal :: nat
  vd_vertical :: nat

definition VIEW_DEFAULT :: view_distance where
  "VIEW_DEFAULT = \<lparr>vd_horizontal = 8, vd_vertical = 12\<rparr>"

definition VIEW_MINIMUM :: view_distance where
  "VIEW_MINIMUM = \<lparr>vd_horizontal = 1, vd_vertical = 1\<rparr>"

definition VIEW_MAXIMUM :: view_distance where
  "VIEW_MAXIMUM = \<lparr>vd_horizontal = 32, vd_vertical = 16\<rparr>"

definition clamp_u8 :: "nat \<Rightarrow> nat \<Rightarrow> nat \<Rightarrow> nat" where
  "clamp_u8 v low high = (if v < low then low else if v > high then high else v)"

definition view_clamped :: "nat \<Rightarrow> nat \<Rightarrow> view_distance" where
  "view_clamped horizontal vertical =
     \<lparr>vd_horizontal = clamp_u8 horizontal (vd_horizontal VIEW_MINIMUM) (vd_horizontal VIEW_MAXIMUM),
      vd_vertical = clamp_u8 vertical (vd_vertical VIEW_MINIMUM) (vd_vertical VIEW_MAXIMUM)\<rparr>"

definition max_chunks :: "view_distance \<Rightarrow> nat" where
  "max_chunks v =
     (let horizontal = vd_horizontal v * 2 + 1; vertical = vd_vertical v * 2 + 1
      in horizontal * horizontal * vertical)"

definition VERTICAL_WEIGHT :: int where "VERTICAL_WEIGHT = 4"
definition VERTICAL_FREE :: int where "VERTICAL_FREE = 2"

definition saturating_add_i32 :: "int \<Rightarrow> int \<Rightarrow> int" where
  "saturating_add_i32 a b = max (- (2 ^ 31)) (min (2 ^ 31 - 1) (a + b))"

definition stream_distance :: "chunk_pos \<Rightarrow> chunk_pos \<Rightarrow> int" where
  "stream_distance centre pos =
     (let dx = cp_x pos - cp_x centre;
          dz = cp_z pos - cp_z centre;
          layers = \<bar>cp_y pos - cp_y centre\<bar>;
          dy = max (layers - VERTICAL_FREE) 0 * VERTICAL_WEIGHT
      in dx * dx + dy * dy + dz * dz)"

definition squared_distance :: "chunk_pos \<Rightarrow> chunk_pos \<Rightarrow> int" where
  "squared_distance a b =
     (let dx = cp_x a - cp_x b; dy = cp_y a - cp_y b; dz = cp_z a - cp_z b
      in dx * dx + dy * dy + dz * dz)"

definition contains :: "chunk_pos \<Rightarrow> view_distance \<Rightarrow> chunk_pos \<Rightarrow> bool" where
  "contains centre v pos =
     (let dy = cp_y pos - cp_y centre
      in if \<bar>dy\<bar> > int (vd_vertical v) then False
         else
           (let dx = cp_x pos - cp_x centre;
                dz = cp_z pos - cp_z centre;
                radius = int (vd_horizontal v)
            in dx * dx + dz * dz \<le> radius * radius))"

definition stream_key :: "chunk_pos \<Rightarrow> chunk_pos \<Rightarrow> int \<times> int \<times> int \<times> int \<times> int" where
  "stream_key centre pos =
     (stream_distance centre pos, \<bar>cp_y pos - cp_y centre\<bar>, cp_x pos, cp_y pos, cp_z pos)"

text \<open>The three nested loops, in their order.\<close>

definition chunks_box :: "chunk_pos \<Rightarrow> view_distance \<Rightarrow> chunk_pos list" where
  "chunks_box centre v =
     (let horizontal = int (vd_horizontal v);
          vertical = int (vd_vertical v);
          radius_squared = horizontal * horizontal
      in map (\<lambda>(dy, dz, dx). ChunkPos (saturating_add_i32 (cp_x centre) dx)
             (saturating_add_i32 (cp_y centre) dy) (saturating_add_i32 (cp_z centre) dz))
           (filter (\<lambda>(dy, dz, dx). \<not> dx * dx + dz * dz > radius_squared)
             (nested [- vertical..vertical] [- horizontal..horizontal] [- horizontal..horizontal])))"

definition chunks_around :: "chunk_pos \<Rightarrow> view_distance \<Rightarrow> chunk_pos list" where
  "chunks_around centre v = sort_key (stream_key centre) (chunks_box centre v)"

section \<open>Membership\<close>

text \<open>A centre from which no sum of an offset leaves the \<open>i32\<close> range, as every chunk of the world is.\<close>

definition roomy :: "chunk_pos \<Rightarrow> bool" where
  "roomy p \<longleftrightarrow> \<bar>cp_x p\<bar> \<le> 2 ^ 31 - 300 \<and> \<bar>cp_y p\<bar> \<le> 2 ^ 31 - 300 \<and> \<bar>cp_z p\<bar> \<le> 2 ^ 31 - 300"

lemma in_world_roomy: "chunk_in_world p \<Longrightarrow> roomy p"
  by (cases p) (auto simp: roomy_def in_extent_def)

lemma saturating_add_id: "\<bar>a\<bar> \<le> 2 ^ 31 - 300 \<Longrightarrow> \<bar>b\<bar> \<le> 255 \<Longrightarrow> saturating_add_i32 a b = a + b"
  by (auto simp: saturating_add_i32_def)

definition small_view :: "view_distance \<Rightarrow> bool" where
  "small_view v \<longleftrightarrow> vd_horizontal v \<le> 255 \<and> vd_vertical v \<le> 255"

lemma chunks_box_plain:
  assumes "roomy c" and "small_view v"
  shows "chunks_box c v = map (\<lambda>(dy, dz, dx). ChunkPos (cp_x c + dx) (cp_y c + dy) (cp_z c + dz))
    (filter (\<lambda>(dy, dz, dx). dx * dx + dz * dz \<le> int (vd_horizontal v) * int (vd_horizontal v))
      (nested [- int (vd_vertical v)..int (vd_vertical v)] [- int (vd_horizontal v)..int (vd_horizontal v)]
        [- int (vd_horizontal v)..int (vd_horizontal v)]))"
  using assms unfolding chunks_box_def Let_def roomy_def small_view_def
  by (intro map_cong filter_cong) (auto simp: saturating_add_id abs_le_iff not_less)

lemma square_bound: "dx * dx + dz * dz \<le> r * r \<Longrightarrow> 0 \<le> r \<Longrightarrow> - r \<le> dx \<and> dx \<le> (r :: int)"
proof -
  assume "dx * dx + dz * dz \<le> r * r" "0 \<le> r"
  moreover have "0 \<le> dz * dz" by simp
  ultimately have "dx * dx \<le> r * r" by linarith
  then have "\<bar>dx\<bar> \<le> r" using \<open>0 \<le> r\<close> by (metis abs_le_square_iff abs_of_nonneg power2_eq_square)
  then show ?thesis by auto
qed

lemma set_chunks_box:
  assumes "roomy c" and "small_view v"
  shows "set (chunks_box c v) = {p. contains c v p}"
proof (intro set_eqI iffI)
  fix p
  assume "p \<in> set (chunks_box c v)"
  then show "p \<in> {p. contains c v p}"
    by (auto simp: chunks_box_plain [OF assms] contains_def Let_def)
next
  fix p
  assume "p \<in> {p. contains c v p}"
  then have p: "\<bar>cp_y p - cp_y c\<bar> \<le> int (vd_vertical v)"
      "(cp_x p - cp_x c) * (cp_x p - cp_x c) + (cp_z p - cp_z c) * (cp_z p - cp_z c)
        \<le> int (vd_horizontal v) * int (vd_horizontal v)"
    by (auto simp: contains_def Let_def split: if_splits)
  have b: "\<bar>cp_x p - cp_x c\<bar> \<le> int (vd_horizontal v)" "\<bar>cp_z p - cp_z c\<bar> \<le> int (vd_horizontal v)"
    using square_bound [OF p(2)] square_bound [OF p(2) [unfolded add.commute [of "(cp_x p - cp_x c) * _"]]]
    by auto
  show "p \<in> set (chunks_box c v)"
    unfolding chunks_box_plain [OF assms] set_map
  proof (rule rev_image_eqI)
    show "(cp_y p - cp_y c, cp_z p - cp_z c, cp_x p - cp_x c) \<in>
        set (filter (\<lambda>(dy, dz, dx). dx * dx + dz * dz \<le> int (vd_horizontal v) * int (vd_horizontal v))
          (nested [- int (vd_vertical v)..int (vd_vertical v)] [- int (vd_horizontal v)..int (vd_horizontal v)]
            [- int (vd_horizontal v)..int (vd_horizontal v)]))"
      using p b by (auto simp: abs_le_iff)
  qed (cases p, simp)
qed

lemma distinct_chunks_box: "roomy c \<Longrightarrow> small_view v \<Longrightarrow> distinct (chunks_box c v)"
  unfolding chunks_box_plain by (auto simp: distinct_map inj_on_def intro!: distinct_filter)

lemma upto_length: "length [- int n..int n] = n * 2 + 1"
  by simp

lemma length_chunks_box: "length (chunks_box c v) \<le> max_chunks v"
proof -
  have "length (chunks_box c v) \<le> length (nested [- int (vd_vertical v)..int (vd_vertical v)]
      [- int (vd_horizontal v)..int (vd_horizontal v)] [- int (vd_horizontal v)..int (vd_horizontal v)])"
    unfolding chunks_box_def Let_def by (simp add: length_filter_le)
  also have "\<dots> = max_chunks v"
    using upto_length by (simp add: nested_def length_product max_chunks_def Let_def)
  finally show ?thesis .
qed

section \<open>Order\<close>

lemma stream_distance_nonneg: "0 \<le> stream_distance c p"
  by (simp add: stream_distance_def Let_def)

lemma stream_key_least: "stream_key c c \<le> stream_key c p"
proof -
  have "stream_distance c c = 0" by (simp add: stream_distance_def Let_def VERTICAL_FREE_def)
  moreover have "p = c" if "stream_distance c p = 0" "cp_y p = cp_y c"
  proof -
    have "(cp_x p - cp_x c) * (cp_x p - cp_x c) + (cp_z p - cp_z c) * (cp_z p - cp_z c) = 0"
      using that by (simp add: stream_distance_def Let_def VERTICAL_FREE_def)
    then have "cp_x p = cp_x c \<and> cp_z p = cp_z c" by (simp only: sum_squares_eq_zero_iff) simp
    then show ?thesis using that(2) by (intro chunk_pos.expand) simp
  qed
  ultimately show ?thesis
    using stream_distance_nonneg [of c p] by (cases "p = c") (auto simp: stream_key_def less_eq_prod_simp)
qed

lemma chunks_around_centre:
  assumes "roomy c" and "small_view v"
  shows "chunks_around c v \<noteq> [] \<and> hd (chunks_around c v) = c"
proof -
  let ?cs = "chunks_around c v"
  have "contains c v c" by (simp add: contains_def Let_def)
  then have mem: "c \<in> set ?cs" using set_chunks_box [OF assms] by (simp add: chunks_around_def)
  then obtain x xs where cs: "?cs = x # xs" by (cases ?cs) auto
  have "sorted (map (stream_key c) ?cs)" by (simp add: chunks_around_def)
  then have "stream_key c x \<le> stream_key c c" using mem cs by auto
  then have "stream_key c x = stream_key c c" using stream_key_least [of c x] by simp
  then have "x = c" by (intro chunk_pos.expand) (simp add: stream_key_def)
  then show ?thesis using cs by simp
qed

end
