(* ===== verification/Pacing.thy ===== *)
theory Pacing
  imports Prelude
begin

text \<open>
  Fixed-rate simulation pacing, from \<^verbatim>\<open>crates/core/src/tick.rs\<close>. A \<open>Duration\<close> is its number of
  nanoseconds, at most \<open>2 ^ 64\<close> seconds less one nanosecond, where \<open>saturating_add\<close> clamps; the two
  counters are \<open>u64\<close> and wrap. \<open>alpha\<close> divides floats for the renderer and is left out.
\<close>

definition TICK_RATE_HZ :: nat where "TICK_RATE_HZ = 20"

definition TICK_DURATION :: nat where "TICK_DURATION = 1000000000 div TICK_RATE_HZ"

definition MAX_CATCH_UP_TICKS :: nat where "MAX_CATCH_UP_TICKS = 5"

definition DURATION_MAX :: nat where "DURATION_MAX = 2 ^ 64 * 1000000000 - 1"

definition saturating_add_duration :: "nat \<Rightarrow> nat \<Rightarrow> nat" where
  "saturating_add_duration a b = min (a + b) DURATION_MAX"

record accumulator =
  acc_debt :: nat
  acc_tick :: nat
  acc_dropped :: nat

record step =
  step_ticks :: nat
  step_dropped :: nat
  step_sleep :: nat

definition accumulator_new :: accumulator where
  "accumulator_new = \<lparr>acc_debt = 0, acc_tick = 0, acc_dropped = 0\<rparr>"

definition advance :: "accumulator \<Rightarrow> nat \<Rightarrow> step \<times> accumulator" where
  "advance acc elapsed =
     (let debt = saturating_add_duration (acc_debt acc) elapsed;
          acc = acc\<lparr>acc_debt := debt\<rparr>;
          owed = min (debt div TICK_DURATION) (u32_limit - 1)
      in if owed = 0 then
           (\<lparr>step_ticks = 0, step_dropped = 0, step_sleep = TICK_DURATION - debt\<rparr>, acc)
         else
           (let ticks = min owed MAX_CATCH_UP_TICKS;
                dropped = owed - ticks;
                debt' = debt - TICK_DURATION * ticks;
                debt'' = (if dropped > 0 then 0 else debt')
            in (\<lparr>step_ticks = ticks, step_dropped = dropped, step_sleep = 0\<rparr>,
                \<lparr>acc_debt = debt'', acc_tick = (acc_tick acc + ticks) mod 2 ^ 64,
                 acc_dropped = (acc_dropped acc + dropped) mod 2 ^ 64\<rparr>)))"

section \<open>Runs of the loop\<close>

fun advance_all :: "accumulator \<Rightarrow> nat list \<Rightarrow> accumulator" where
  "advance_all acc [] = acc"
| "advance_all acc (e # es) = advance_all (snd (advance acc e)) es"

lemma pacing_constants: "TICK_DURATION = 50000000" "MAX_CATCH_UP_TICKS = 5"
  by (simp_all add: TICK_DURATION_def TICK_RATE_HZ_def MAX_CATCH_UP_TICKS_def)

definition paced :: "accumulator \<Rightarrow> bool" where
  "paced acc \<longleftrightarrow> acc_debt acc < TICK_DURATION"

lemma paced_new: "paced accumulator_new"
  by (simp add: paced_def accumulator_new_def pacing_constants)

text \<open>What one step decides, in terms of the time it has to account for.\<close>

lemma advance_cases:
  assumes "paced acc" and "acc_debt acc + elapsed \<le> DURATION_MAX"
  shows "let due = (acc_debt acc + elapsed) div TICK_DURATION; (st, acc') = advance acc elapsed
    in step_ticks st = min due 5 \<and>
       (due \<le> 5 \<longrightarrow> step_dropped st = 0 \<and>
          acc_debt acc' + TICK_DURATION * step_ticks st = acc_debt acc + elapsed) \<and>
       (5 < due \<longrightarrow> 0 < step_dropped st \<and> acc_debt acc' = 0) \<and>
       (due = 0 \<longrightarrow> step_sleep st + acc_debt acc' = TICK_DURATION) \<and> (0 < due \<longrightarrow> step_sleep st = 0)"
proof -
  define debt where "debt = acc_debt acc + elapsed"
  define due where "due = debt div 50000000"
  have sat: "saturating_add_duration (acc_debt acc) elapsed = debt"
    using assms(2) by (simp add: saturating_add_duration_def debt_def)
  have mult: "50000000 * due \<le> debt" by (simp add: due_def)
  have small: "debt < 50000000 \<longleftrightarrow> due = 0" by (simp add: due_def div_eq_0_iff)
  show ?thesis
  proof (cases "due = 0")
    case True
    then show ?thesis using small
      by (simp add: advance_def sat Let_def pacing_constants due_def [symmetric] debt_def [symmetric])
  next
    case False
    then show ?thesis using mult
      by (auto simp: advance_def sat Let_def pacing_constants due_def [symmetric] debt_def [symmetric] min_def)
  qed
qed

lemma advance_paced:
  assumes "paced acc"
  shows "paced (snd (advance acc elapsed))"
proof -
  define debt where "debt = saturating_add_duration (acc_debt acc) elapsed"
  have "debt < 50000000 \<longleftrightarrow> debt div 50000000 = 0" by (simp add: div_eq_0_iff)
  moreover have "debt - 50000000 * (debt div 50000000) < 50000000"
    by (metis minus_mult_div_eq_mod mod_less_divisor zero_less_numeral)
  ultimately show ?thesis
    by (auto simp: advance_def Let_def paced_def pacing_constants debt_def [symmetric] min_def)
qed

lemma advance_all_paced: "paced acc \<Longrightarrow> paced (advance_all acc es)"
  by (induction es arbitrary: acc) (simp_all add: advance_paced)

text \<open>A loop that never falls more than five ticks behind loses no time.\<close>

fun timely :: "accumulator \<Rightarrow> nat list \<Rightarrow> bool" where
  "timely acc [] \<longleftrightarrow> True"
| "timely acc (e # es) \<longleftrightarrow>
     acc_debt acc + e < 6 * TICK_DURATION \<and> timely (snd (advance acc e)) es"

lemma advance_counters:
  assumes "acc_tick acc < 2 ^ 64" and "acc_dropped acc < 2 ^ 64"
  shows "acc_tick (snd (advance acc e)) = (acc_tick acc + step_ticks (fst (advance acc e))) mod 2 ^ 64 \<and>
    acc_dropped (snd (advance acc e)) = (acc_dropped acc + step_dropped (fst (advance acc e))) mod 2 ^ 64"
  using assms by (simp add: advance_def Let_def)

lemma advance_timely:
  assumes "paced acc" and "acc_debt acc + e < 6 * TICK_DURATION" and "acc_tick acc + 5 < 2 ^ 64"
    and "acc_dropped acc < 2 ^ 64"
  shows "TICK_DURATION * acc_tick (snd (advance acc e)) + acc_debt (snd (advance acc e)) =
      TICK_DURATION * acc_tick acc + acc_debt acc + e \<and>
    acc_tick (snd (advance acc e)) \<le> acc_tick acc + 5 \<and> acc_dropped (snd (advance acc e)) = acc_dropped acc"
proof -
  obtain st acc' where a: "advance acc e = (st, acc')" by fastforce
  have due: "(acc_debt acc + e) div TICK_DURATION \<le> 5"
    using assms(2) by (simp add: pacing_constants)
  have "acc_debt acc + e \<le> DURATION_MAX" using assms(2) by (simp add: DURATION_MAX_def pacing_constants)
  then have c: "step_ticks st \<le> 5" "step_dropped st = 0"
      "acc_debt acc' + TICK_DURATION * step_ticks st = acc_debt acc + e"
    using advance_cases [OF assms(1), of e] due a by (auto simp: Let_def)
  have "acc_tick acc' = acc_tick acc + step_ticks st" "acc_dropped acc' = acc_dropped acc"
    using advance_counters [of acc e] assms(3,4) c(1,2) a by simp_all
  then show ?thesis using c a by (simp add: distrib_left)
qed

lemma advance_all_timely:
  assumes "paced acc" and "timely acc es" and "acc_tick acc + 5 * length es < 2 ^ 64" and "acc_dropped acc < 2 ^ 64"
  shows "TICK_DURATION * acc_tick (advance_all acc es) + acc_debt (advance_all acc es) =
      TICK_DURATION * acc_tick acc + acc_debt acc + sum_list es \<and>
    acc_dropped (advance_all acc es) = acc_dropped acc"
  using assms
proof (induction es arbitrary: acc)
  case (Cons e es)
  have s: "TICK_DURATION * acc_tick (snd (advance acc e)) + acc_debt (snd (advance acc e)) =
      TICK_DURATION * acc_tick acc + acc_debt acc + e"
      "acc_tick (snd (advance acc e)) \<le> acc_tick acc + 5" "acc_dropped (snd (advance acc e)) = acc_dropped acc"
    using advance_timely [OF Cons.prems(1), of e] Cons.prems by auto
  then show ?case using Cons.IH [OF advance_paced [OF Cons.prems(1), of e]] Cons.prems by simp
qed simp

end
