(* ===== verification/World_Layers.thy ===== *)
theory World_Layers
  imports Light_Layer Fluid Interest Pacing
begin

text \<open>
  What the layers beside the blocks promise: the light and fluid codecs give back what was encoded
  and accept exactly the well-formed payloads, fluid writes keep an exact count, the set of chunks a
  player is sent is the cylinder around them in order, and the simulation neither drifts nor falls
  behind without bound.
\<close>

section \<open>Light payloads\<close>

lemma layer_compact_of_levels:
  assumes "layer_inv l"
  shows "layer_compact l = layer_compact (LDense (layer_levels l))"
proof -
  have inv: "layer_inv (LDense (layer_levels l))" using length_layer_levels [OF assms] by simp
  have u: "layer_is_uniform l = layer_is_uniform (LDense (layer_levels l))"
    using layer_is_uniform_iff [OF assms] layer_is_uniform_iff [OF inv]
    by (metis layer_levels.simps(2) option.exhaust)
  show ?thesis
  proof (cases "layer_is_uniform l")
    case None
    then show ?thesis by (cases l) simp_all
  next
    case (Some v)
    then show ?thesis using u by (simp add: layer_compact_def)
  qed
qed

lemma light_decode_expand:
  assumes "runs_ok rs" and "length (expand rs) = BLOCKS_PER_CHUNK"
  shows "light_decode (LIGHT_TAG_RUNS # pack rs) = Inr (layer_compact (LDense (expand rs)))"
proof -
  obtain l where l: "light_decode (LIGHT_TAG_RUNS # pack rs) = Inr l" "layer_inv l" "layer_levels l = expand rs"
    using light_decode_levels [OF assms] by blast
  then obtain l0 where l0: "l = layer_compact l0" using light_decode_runs by blast
  have "layer_compact (layer_compact x) = layer_compact x" for x
    by (auto simp: layer_compact_def split: option.splits)
  then have "l = layer_compact l" using l0 by simp
  then show ?thesis using l layer_compact_of_levels [OF l(2)] by simp
qed

text \<open>
  C24. Decoding an encoded light layer succeeds and gives the layer back in its compact form: the same
  level at every block, held as one value when all are equal.
\<close>

theorem light_codec_round_trip:
  assumes "layer_inv l"
  shows "light_decode (light_encode l) = Inr (layer_compact l) \<and>
    (\<forall>local. local_valid local \<longrightarrow> layer_get (layer_compact l) local = layer_get l local)"
proof
  show "light_decode (light_encode l) = Inr (layer_compact l)"
  proof (cases "layer_is_uniform l")
    case None
    obtain rs where rs: "encode_levels (layer_levels l) = pack rs" "runs_ok rs" "expand rs = layer_levels l"
      using encode_levels_encodes [of "layer_levels l"] unfolding encodes_def by blast
    have "light_decode (LIGHT_TAG_RUNS # pack rs) = Inr (layer_compact (LDense (expand rs)))"
      by (rule light_decode_expand [OF rs(2)]) (metis rs(3) length_layer_levels [OF assms])
    then show ?thesis using None rs layer_compact_of_levels [OF assms] by (simp add: light_encode_def)
  next
    case (Some v)
    then show ?thesis using light_decode_uniform by (simp add: light_encode_def layer_compact_def)
  qed
  show "\<forall>local. local_valid local \<longrightarrow> layer_get (layer_compact l) local = layer_get l local"
    using layer_compact_levels [OF assms] layer_levels_at assms local_index_less local_from_index_local_index
    by metis
qed

theorem light_codec_round_trip_witness:
  "light_decode (light_encode (LDense (replicate 4096 7))) = Inr (LUniform 7)"
proof -
  have inv: "layer_inv (LDense (replicate 4096 7))" by simp
  then have "layer_is_uniform (LDense (replicate 4096 7)) = Some 7" by (simp only: layer_is_uniform_iff) simp
  then show ?thesis using light_codec_round_trip [OF inv] by (simp add: layer_compact_def)
qed

text \<open>
  C25. A light payload decodes exactly when it is a uniform level with nothing after it, or runs of at
  least one block each that cover the chunk's 4,096 blocks exactly; everything else is an error value.
\<close>

theorem light_decode_exact:
  "light_decode bytes = Inr l \<longleftrightarrow>
     (\<exists>v. bytes = LIGHT_TAG_UNIFORM # to_le_bytes v \<and> l = LUniform v) \<or>
     (\<exists>rs. bytes = LIGHT_TAG_RUNS # pack rs \<and> runs_ok rs \<and> length (expand rs) = BLOCKS_PER_CHUNK \<and>
        l = layer_compact (LDense (expand rs)))"
proof
  assume dec: "light_decode bytes = Inr l"
  then obtain tag rest where b: "bytes = tag # rest" by (cases bytes) (auto simp: light_decode_def)
  show "(\<exists>v. bytes = LIGHT_TAG_UNIFORM # to_le_bytes v \<and> l = LUniform v) \<or>
     (\<exists>rs. bytes = LIGHT_TAG_RUNS # pack rs \<and> runs_ok rs \<and> length (expand rs) = BLOCKS_PER_CHUNK \<and>
        l = layer_compact (LDense (expand rs)))"
  proof (cases "tag = LIGHT_TAG_UNIFORM")
    case True
    then obtain v where v: "read_u16 rest 0 = Some v" "length rest = 2" "l = LUniform v"
      using dec b by (auto simp: light_decode_def layer_uniform_def split: option.splits if_splits)
    then obtain x y where "rest = [x, y]" by (auto simp: numeral_2_eq_2 length_Suc_conv)
    then have "rest = to_le_bytes v" using v(1) by (auto simp: read_u16_def to_from_le)
    then show ?thesis using True b v(3) by blast
  next
    case False
    then have tag: "tag = LIGHT_TAG_RUNS" using dec b by (auto simp: light_decode_def split: if_splits)
    then obtain rs where "rest = pack rs" "runs_ok rs" "length (expand rs) = BLOCKS_PER_CHUNK"
      using dec b light_decode_runs by blast
    then show ?thesis using light_decode_expand dec b tag by auto
  qed
qed (use light_decode_uniform light_decode_expand in auto)

section \<open>Fluid\<close>





text \<open>
  C28. Writing a block of fluid keeps the layer's invariant, changes that block only, reports a change
  exactly when there was one, and leaves the layer without storage exactly when no block holds any
  fluid: a chunk that drains gives its memory back. The count of filled blocks is exact.
\<close>

theorem fluid_write_correct:
  assumes "fluid_inv l" and "local_valid local" and "fluid_canonical v" and "fluid_set l local v = (changed, l')"
  shows "fluid_inv l' \<and> (changed \<longleftrightarrow> fluid_get l local \<noteq> v) \<and>
    (\<forall>other. local_valid other \<longrightarrow> fluid_get l' other = (if other = local then v else fluid_get l other)) \<and>
    fluid_filled l' = length (filter (\<lambda>v. \<not> fluid_is_empty v) (fluid_blocks l')) \<and>
    (fluid_layer_is_empty l' \<longleftrightarrow> (\<forall>other. local_valid other \<longrightarrow> fluid_is_empty (fluid_get l' other)))"
proof -
  have i: "local_index local < BLOCKS_PER_CHUNK" "local_from_index (local_index local) = local"
    using assms(2) local_index_less local_from_index_local_index by auto
  have l': "l' = fluid_put l (local_index local) v" using assms(4) i(2) by simp
  have inv: "fluid_inv l'" using fluid.put_invar [OF assms(1) i(1) assms(3)] l' by simp
  have get: "fluid_get l' other = (if other = local then v else fluid_get l other)" if "local_valid other" for other
    using fluid.get_put [OF assms(1) i(1) local_index_less [OF that] assms(3)] l' i(2)
      local_from_index_local_index [OF that] local_index_inj [OF that assms(2)] by auto
  have changed: "changed \<longleftrightarrow> fluid_get l local \<noteq> v"
    using assms(3,4) by (cases l) (auto simp: Let_def fluid_canonical_def split: if_splits)
  have "fluid_layer_is_empty l' \<longleftrightarrow> fluid_filled l' = 0"
    using inv by (cases l') auto
  also have "\<dots> \<longleftrightarrow> list_all fluid_is_empty (fluid_blocks l')"
    using fluid_filled_blocks [OF inv] filled_in_0 by metis
  also have "\<dots> \<longleftrightarrow> (\<forall>other. local_valid other \<longrightarrow> fluid_is_empty (fluid_get l' other))"
    unfolding list_all_length length_fluid_blocks
    using fluid_blocks_at local_index_less local_from_index_local_index local_valid_from_index by metis
  finally show ?thesis using inv changed get fluid_filled_blocks [OF inv] by blast
qed

theorem fluid_write_correct_witness:
  "fluid_filled (snd (fluid_set FEmpty (LocalBlock 1 2 3) (fluid_new 1 4))) = 1 \<and>
   fluid_get (snd (fluid_set FEmpty (LocalBlock 1 2 3) (fluid_new 1 4))) (LocalBlock 1 2 3) = fluid_new 1 4"
proof -
  let ?v = "fluid_new 1 4" and ?b = "LocalBlock 1 2 3"
  obtain c l' where s: "fluid_set FEmpty ?b ?v = (c, l')" by fastforce
  have "\<not> fluid_is_empty ?v" using fluid_new_fields [of 1 4] by (simp add: fluid_is_empty_def)
  then have "fluid_filled l' = 1" using s by auto
  then show ?thesis
    using fluid_write_correct [OF _ _ fluid_new_canonical s] s by simp
qed

section \<open>Interest\<close>

text \<open>
  C29. Around a centre in the world, the chunks a player is sent are exactly those the cylinder of
  their view distance contains, each once, at most the documented number, in the order of their
  streaming key, and the one they stand in is first.
\<close>

theorem interest_exact:
  assumes "chunk_in_world centre" and "h \<le> 255" and "u \<le> 255"
  shows "let v = view_clamped h u; cs = chunks_around centre v
    in set cs = {p. contains centre v p} \<and> distinct cs \<and> length cs \<le> max_chunks v \<and>
       max_chunks v \<le> max_chunks VIEW_MAXIMUM \<and> sorted (map (stream_key centre) cs) \<and> hd cs = centre"
proof -
  let ?v = "view_clamped h u"
  have v: "vd_horizontal ?v \<le> 32" "vd_vertical ?v \<le> 16"
    by (simp_all add: view_clamped_def clamp_u8_def VIEW_MINIMUM_def VIEW_MAXIMUM_def)
  then have small: "small_view ?v" by (simp add: small_view_def)
  note roomy = in_world_roomy [OF assms(1)]
  have "(vd_horizontal ?v * 2 + 1) * (vd_horizontal ?v * 2 + 1) * (vd_vertical ?v * 2 + 1) \<le> 65 * 65 * 33"
    using v by (intro mult_le_mono) simp_all
  then have "max_chunks ?v \<le> max_chunks VIEW_MAXIMUM" by (simp add: max_chunks_def VIEW_MAXIMUM_def)
  then show ?thesis
    using set_chunks_box [OF roomy small] distinct_chunks_box [OF roomy small] length_chunks_box [of centre ?v]
      chunks_around_centre [OF roomy small] by (simp add: Let_def chunks_around_def)
qed

theorem interest_exact_witness:
  "hd (chunks_around (ChunkPos 4 0 (- 3)) (view_clamped 0 200)) = ChunkPos 4 0 (- 3) \<and>
   ChunkPos 4 16 (- 3) \<in> set (chunks_around (ChunkPos 4 0 (- 3)) (view_clamped 0 200))"
proof -
  have "chunk_in_world (ChunkPos 4 0 (- 3))" by code_simp
  then show ?thesis using interest_exact [of "ChunkPos 4 0 (- 3)" 0 200]
    by (simp add: Let_def contains_def view_clamped_def clamp_u8_def VIEW_MINIMUM_def VIEW_MAXIMUM_def)
qed

section \<open>Pacing\<close>

text \<open>
  C30. A simulation loop that is never six ticks late loses no time: over any sequence of wake-ups from
  the start, the ticks run and the debt carried make up exactly the time that passed, and no tick is
  dropped. A tick rate that does not drift.
\<close>

theorem pacing_no_drift:
  assumes "timely accumulator_new es" and "5 * length es < 2 ^ 64"
  shows "TICK_DURATION * acc_tick (advance_all accumulator_new es) + acc_debt (advance_all accumulator_new es)
      = sum_list es \<and>
    acc_tick (advance_all accumulator_new es) = sum_list es div TICK_DURATION \<and>
    acc_dropped (advance_all accumulator_new es) = 0"
proof -
  let ?a = "advance_all accumulator_new es"
  have eq: "TICK_DURATION * acc_tick ?a + acc_debt ?a = sum_list es" "acc_dropped ?a = 0"
    using advance_all_timely [OF paced_new assms(1)] assms(2) by (simp_all add: accumulator_new_def)
  have "acc_debt ?a < TICK_DURATION" using advance_all_paced [OF paced_new] by (simp add: paced_def)
  then have "(TICK_DURATION * acc_tick ?a + acc_debt ?a) div TICK_DURATION = acc_tick ?a" by simp
  then show ?thesis using eq by simp
qed

theorem pacing_no_drift_witness:
  "acc_tick (advance_all accumulator_new [16000000, 33000000, 17000000, 250000000]) = 6"
proof -
  have "timely accumulator_new [16000000, 33000000, 17000000, 250000000]"
    by (simp add: advance_def accumulator_new_def pacing_constants saturating_add_duration_def DURATION_MAX_def Let_def)
  then show ?thesis using pacing_no_drift [of "[16000000, 33000000, 17000000, 250000000]"] by (simp add: pacing_constants)
qed

text \<open>
  C31. One wake-up, however late, runs at most five ticks and leaves less than one tick of debt; it
  runs a tick whenever one is due, and when none is due it asks to sleep exactly until the next.
\<close>

theorem pacing_bounded:
  assumes "paced acc" and "acc_debt acc + elapsed \<le> DURATION_MAX" and "advance acc elapsed = (st, acc')"
  shows "paced acc' \<and> step_ticks st \<le> MAX_CATCH_UP_TICKS \<and>
    (TICK_DURATION \<le> acc_debt acc + elapsed \<longleftrightarrow> 0 < step_ticks st) \<and>
    (step_ticks st = 0 \<longrightarrow> acc_debt acc + elapsed + step_sleep st = TICK_DURATION)"
proof -
  let ?due = "(acc_debt acc + elapsed) div TICK_DURATION"
  note c = advance_cases [OF assms(1,2), unfolded assms(3) Let_def prod.case]
  have due: "?due = 0 \<longleftrightarrow> acc_debt acc + elapsed < TICK_DURATION"
    by (simp add: div_eq_0_iff pacing_constants)
  have ticks: "step_ticks st = min ?due 5" using c by blast
  have "acc_debt acc + elapsed + step_sleep st = TICK_DURATION" if "?due = 0"
  proof -
    have "step_ticks st = 0" using ticks that by simp
    then have "acc_debt acc' = acc_debt acc + elapsed" using c that by auto
    then show ?thesis using c that by simp
  qed
  moreover have "0 < step_ticks st \<longleftrightarrow> ?due \<noteq> 0" using ticks by simp
  ultimately show ?thesis using advance_paced [OF assms(1), of elapsed] assms(3) due ticks
    by (auto simp: pacing_constants(2) not_less)
qed

theorem pacing_bounded_witness:
  "step_ticks (fst (advance accumulator_new 3600000000000)) \<le> 5 \<and>
   paced (snd (advance accumulator_new 3600000000000))"
proof -
  obtain st acc' where a: "advance accumulator_new 3600000000000 = (st, acc')" by fastforce
  have "acc_debt accumulator_new + 3600000000000 \<le> DURATION_MAX" by (simp add: accumulator_new_def DURATION_MAX_def)
  then show ?thesis using pacing_bounded [OF paced_new _ a] a by (simp add: pacing_constants)
qed

end
