(* ===== verification/Spec2Isabelle.thy ===== *)
theory Spec2Isabelle
  imports Foundations Chunk_Correct Inventory World_Layers
begin

text \<open>
  A verification library for the core of the Tiamat voxel engine (crate \<^verbatim>\<open>crates/core\<close>).
\<close>

end
